(* ===== verification/CBase.thy ===== *)
theory CBase
  imports Main "HOL-Library.Word"
begin

text \<open>
  Shared base of the development: the C types and library routines the engine's
  sources use (error numbers, NUL-terminated strings in fixed buffers, memcpy),
  first-match searches over fixed tables, and the rewrite collections the
  component theories draw on.

  A C string held in a \<open>char[N]\<close> buffer is the list of its characters before the
  NUL.  A fixed array is a list whose length is the array size, so a size that
  Kconfig sets is the length of the array and every theorem holds for all sizes.
\<close>

unbundle bit_operations_syntax

named_theorems cstr_simps \<open>rewrites for the C string routines\<close>
named_theorems table_simps \<open>rewrites for first-match searches over a table\<close>

type_synonym byte = "8 word"
type_synonym u32 = "32 word"
type_synonym u64 = "64 word"

section \<open>Error numbers\<close>

text \<open>The negative errno values the modelled functions return.\<close>

datatype errno =
    EPERM | ENOENT | EINTR | EIO | E2BIG | EBADF | EAGAIN | ENOMEM | EACCES
  | EBUSY | EEXIST | EXDEV | ENODEV | ENOTDIR | EISDIR | EINVAL | EMFILE
  | EFBIG | ENOSPC | ESPIPE | EROFS | ENAMETOOLONG | ENOSYS | ENOMSG
  | EBADMSG | EOVERFLOW | EILSEQ | ENOTSOCK | EMSGSIZE | ENOTSUP

section \<open>Name limits\<close>

definition WAPP_MAX_NAME_LEN :: nat where "WAPP_MAX_NAME_LEN = 15"

definition WAPP_MAX_VERSION_LEN :: nat where "WAPP_MAX_VERSION_LEN = 15"

section \<open>C strings\<close>

text \<open>
  \<open>strncmp\<close> on NUL-free strings.  C fixes only the sign of the result, so the
  model returns \<open>-1\<close>, \<open>0\<close> or \<open>1\<close>; the end of a string compares below every
  character.
\<close>

fun strncmp :: "nat \<Rightarrow> string \<Rightarrow> string \<Rightarrow> int" where
  "strncmp 0 a b = 0"
| "strncmp (Suc n) [] [] = 0"
| "strncmp (Suc n) [] (b # bs) = -1"
| "strncmp (Suc n) (a # as) [] = 1"
| "strncmp (Suc n) (a # as) (b # bs) =
     (if a = b then strncmp n as bs
      else if (of_char a :: nat) < of_char b then -1 else 1)"

text \<open>\<open>strncpy(dst, src, n - 1); dst[n - 1] = 0\<close> on a buffer of \<open>n\<close> characters.\<close>

definition strncpy_buf :: "nat \<Rightarrow> string \<Rightarrow> string" where
  "strncpy_buf n s = take (n - 1) s"

text \<open>
  \<open>strchr(s, c)\<close>: the part of the string before the first \<open>c\<close>, and the part after
  it where there is one.
\<close>

fun strchr_split :: "char \<Rightarrow> string \<Rightarrow> string \<times> string option" where
  "strchr_split c [] = ([], None)"
| "strchr_split c (x # xs) =
     (if x = c then ([], Some xs)
      else (case strchr_split c xs of (pre, rest) \<Rightarrow> (x # pre, rest)))"

lemma strncmp_eq_0 [cstr_simps]: "strncmp n a b = 0 \<longleftrightarrow> take n a = take n b"
  by (induction n a b rule: strncmp.induct) auto

lemma strncmp_refl [simp]: "strncmp n a a = 0"
  by (simp add: strncmp_eq_0)

lemma strncmp_antisym: "strncmp n b a = - strncmp n a b"
  by (induction n a b rule: strncmp.induct) auto

lemma strncmp_trans_le:
  "strncmp n a b \<le> 0 \<Longrightarrow> strncmp n b c \<le> 0 \<Longrightarrow> strncmp n a c \<le> 0"
proof (induction n a b arbitrary: c rule: strncmp.induct)
  case (3 n b bs)
  then show ?case by (cases c) auto
next
  case (5 n a as b bs)
  then show ?case by (cases c) (auto split: if_splits)
next
  case (2 n)
  then show ?case by simp
next
  case (4 n a as)
  then show ?case by simp
qed simp

lemma strncmp_range: "strncmp n a b \<in> {-1, 0, 1}"
  by (induction n a b rule: strncmp.induct) auto

lemma length_strncpy_buf [cstr_simps]: "length (strncpy_buf n s) = min (n - 1) (length s)"
  by (simp add: strncpy_buf_def min.commute)

lemma strncpy_buf_fits [cstr_simps]: "length s < n \<Longrightarrow> strncpy_buf n s = s"
  by (simp add: strncpy_buf_def)

lemma strncmp_buf_eq [cstr_simps]:
  "length a < n \<Longrightarrow> strncmp n a b = 0 \<longleftrightarrow> a = b"
proof -
  assume a: "length a < n"
  have "take n a = take n b \<Longrightarrow> a = b"
  proof -
    assume eq: "take n a = take n b"
    with a have "a = take n b" by simp
    with a have "length b < n" by (cases "n \<le> length b") auto
    with eq a show "a = b" by simp
  qed
  then show ?thesis by (auto simp: strncmp_eq_0)
qed

lemma strchr_split_no [simp]: "c \<notin> set s \<Longrightarrow> strchr_split c s = (s, None)"
  by (induction s) auto

lemma strchr_split_at [simp]: "c \<notin> set a \<Longrightarrow> strchr_split c (a @ c # b) = (a, Some b)"
  by (induction a) auto

lemma strchr_split_Some:
  "strchr_split c s = (a, Some b) \<Longrightarrow> s = a @ c # b \<and> c \<notin> set a"
  by (induction c s arbitrary: a b rule: strchr_split.induct) (auto split: prod.splits if_splits)

lemma strchr_split_None: "strchr_split c s = (a, None) \<Longrightarrow> a = s \<and> c \<notin> set s"
  by (induction c s arbitrary: a rule: strchr_split.induct) (auto split: prod.splits if_splits)

section \<open>Arrays\<close>

text \<open>\<open>memcpy(dst + off, src, n)\<close> within the bounds of both buffers.\<close>

definition memcpy_at :: "'a list \<Rightarrow> nat \<Rightarrow> 'a list \<Rightarrow> nat \<Rightarrow> 'a list" where
  "memcpy_at dst off src n = take off dst @ take n src @ drop (off + n) dst"

lemma length_memcpy_at [simp]:
  "off + n \<le> length dst \<Longrightarrow> n \<le> length src \<Longrightarrow> length (memcpy_at dst off src n) = length dst"
  by (simp add: memcpy_at_def)

lemma nth_memcpy_at:
  assumes "off + n \<le> length dst" "n \<le> length src" "i < length dst"
  shows "memcpy_at dst off src n ! i =
    (if off \<le> i \<and> i < off + n then src ! (i - off) else dst ! i)"
  using assms by (auto simp: memcpy_at_def nth_append min_def)

text \<open>The index of the first element that satisfies \<open>P\<close>: the table loops of the code.\<close>

fun find_idx :: "('a \<Rightarrow> bool) \<Rightarrow> 'a list \<Rightarrow> nat option" where
  "find_idx P [] = None"
| "find_idx P (x # xs) = (if P x then Some 0 else map_option Suc (find_idx P xs))"

lemma find_idx_None [table_simps]: "find_idx P xs = None \<longleftrightarrow> (\<forall>x\<in>set xs. \<not> P x)"
  by (induction xs) auto

lemma find_idx_SomeD:
  "find_idx P xs = Some i \<Longrightarrow> i < length xs \<and> P (xs ! i) \<and> (\<forall>j<i. \<not> P (xs ! j))"
proof (induction xs arbitrary: i)
  case (Cons x xs)
  show ?case
  proof (cases "P x")
    case False
    with Cons.prems obtain k where k: "find_idx P xs = Some k" "i = Suc k" by auto
    with Cons.IH[of k] False show ?thesis by (auto simp: less_Suc_eq_0_disj)
  qed (use Cons.prems in auto)
qed simp

lemma find_idx_SomeI:
  "i < length xs \<Longrightarrow> P (xs ! i) \<Longrightarrow> (\<And>j. j < i \<Longrightarrow> \<not> P (xs ! j)) \<Longrightarrow> find_idx P xs = Some i"
proof (induction xs arbitrary: i)
  case (Cons x xs)
  show ?case
  proof (cases i)
    case (Suc k)
    have "find_idx P xs = Some k"
      using Cons.prems(1,2) Cons.prems(3)[of "Suc _"] Suc by (intro Cons.IH) auto
    moreover have "\<not> P x" using Cons.prems(3)[of 0] Suc by simp
    ultimately show ?thesis by (simp add: Suc)
  qed (use Cons.prems in auto)
qed simp

lemma find_idx_unique:
  assumes "i < length xs" "P (xs ! i)" "\<And>j. j < length xs \<Longrightarrow> P (xs ! j) \<Longrightarrow> j = i"
  shows "find_idx P xs = Some i"
proof (rule find_idx_SomeI)
  fix j assume "j < i"
  with assms(1) have "j < length xs" by simp
  with \<open>j < i\<close> assms(3)[of j] show "\<not> P (xs ! j)" by auto
qed (rule assms(1), rule assms(2))

lemma find_idx_ex: "x \<in> set xs \<Longrightarrow> P x \<Longrightarrow> \<exists>i. find_idx P xs = Some i"
  by (cases "find_idx P xs") (auto simp: find_idx_None)

lemmas find_idxE = find_idx_SomeD [THEN conjE]

text \<open>The keys of the used slots of a table, when no two used slots share one.\<close>

lemma distinct_map_filter:
  "(\<forall>i < length xs. \<forall>j < length xs. u (xs ! i) \<and> u (xs ! j) \<and> f (xs ! i) = f (xs ! j) \<longrightarrow> i = j) \<Longrightarrow>
   distinct (map f (filter u xs))"
proof (induction xs)
  case (Cons x xs)
  have "i = j" if "i < length xs" "j < length xs" "u (xs ! i) \<and> u (xs ! j) \<and> f (xs ! i) = f (xs ! j)" for i j
    using Cons.prems[rule_format, of "Suc i" "Suc j"] that by simp
  then have "distinct (map f (filter u xs))" using Cons.IH by blast
  moreover have "f x \<noteq> f y" if "u x" "y \<in> set xs" "u y" for y
  proof -
    obtain j where "j < length xs" "xs ! j = y" using \<open>y \<in> set xs\<close> by (auto simp: in_set_conv_nth)
    then show ?thesis using Cons.prems[rule_format, of 0 "Suc j"] that by auto
  qed
  ultimately show ?case by auto
qed simp

text \<open>Updating one slot of a table in place.\<close>

definition upd_nth :: "nat \<Rightarrow> ('a \<Rightarrow> 'a) \<Rightarrow> 'a list \<Rightarrow> 'a list" where
  "upd_nth i f xs = (if i < length xs then xs[i := f (xs ! i)] else xs)"

lemma length_upd_nth [simp]: "length (upd_nth i f xs) = length xs"
  by (simp add: upd_nth_def)

lemma nth_upd_nth [table_simps]:
  "j < length xs \<Longrightarrow> upd_nth i f xs ! j = (if j = i then f (xs ! j) else xs ! j)"
  by (simp add: upd_nth_def nth_list_update)

text \<open>A table of slots seen as a map: the used slot that carries a key, when no two share one.\<close>

definition tab_uniq :: "('a \<Rightarrow> bool) \<Rightarrow> ('a \<Rightarrow> 'k) \<Rightarrow> 'a list \<Rightarrow> bool" where
  "tab_uniq u f xs \<longleftrightarrow> (\<forall>i < length xs. \<forall>j < length xs. u (xs ! i) \<and> u (xs ! j) \<and> f (xs ! i) = f (xs ! j) \<longrightarrow> i = j)"

definition tab_map :: "('a \<Rightarrow> bool) \<Rightarrow> ('a \<Rightarrow> 'k) \<Rightarrow> ('a \<Rightarrow> 'v) \<Rightarrow> 'a list \<Rightarrow> 'k \<Rightarrow> 'v option" where
  "tab_map u f v xs k = map_option (\<lambda>i. v (xs ! i)) (find_idx (\<lambda>x. u x \<and> f x = k) xs)"

lemma tab_map_None [table_simps]: "tab_map u f v xs k = None \<longleftrightarrow> (\<forall>i < length xs. u (xs ! i) \<longrightarrow> f (xs ! i) \<noteq> k)"
  by (simp add: tab_map_def find_idx_None all_set_conv_all_nth)

lemma tab_map_Some:
  assumes "tab_uniq u f xs"
  shows "tab_map u f v xs k = Some y \<longleftrightarrow> (\<exists>i < length xs. u (xs ! i) \<and> f (xs ! i) = k \<and> v (xs ! i) = y)"
proof
  assume "\<exists>i < length xs. u (xs ! i) \<and> f (xs ! i) = k \<and> v (xs ! i) = y"
  then obtain i where i: "i < length xs" "u (xs ! i)" "f (xs ! i) = k" "v (xs ! i) = y" by blast
  have "find_idx (\<lambda>x. u x \<and> f x = k) xs = Some i"
    using i assms by (intro find_idx_unique) (auto simp: tab_uniq_def)
  then show "tab_map u f v xs k = Some y" using i by (simp add: tab_map_def)
qed (auto simp: tab_map_def dest: find_idx_SomeD)

lemma tab_uniq_Cons: "tab_uniq u f (x # xs) \<Longrightarrow> tab_uniq u f xs \<and> (\<forall>y \<in> set xs. u x \<and> u y \<longrightarrow> f y \<noteq> f x)"
proof -
  assume a: "tab_uniq u f (x # xs)"
  have "i = j" if "i < length xs" "j < length xs" "u (xs ! i) \<and> u (xs ! j) \<and> f (xs ! i) = f (xs ! j)" for i j
    using a[unfolded tab_uniq_def, rule_format, of "Suc i" "Suc j"] that by simp
  moreover have "f y \<noteq> f x" if "y \<in> set xs" "u x \<and> u y" for y
  proof -
    from that(1) obtain j where "j < length xs" "xs ! j = y" by (auto simp: in_set_conv_nth)
    then show ?thesis using a[unfolded tab_uniq_def, rule_format, of 0 "Suc j"] that(2) by auto
  qed
  ultimately show ?thesis by (auto simp: tab_uniq_def)
qed

lemma tab_dom: "dom (tab_map u f v xs) = f ` {x \<in> set xs. u x}"
  by (auto simp: dom_def tab_map_def find_idx_None simp flip: not_None_eq)

lemma tab_uniq_distinct: "tab_uniq u f xs \<Longrightarrow> distinct (map f (filter u xs))"
  unfolding tab_uniq_def by (rule distinct_map_filter)

lemma tab_set:
  assumes "tab_uniq u f xs" "i < length xs" "u y" "u (xs ! i) \<longrightarrow> f (xs ! i) = f y"
    "\<forall>j < length xs. j \<noteq> i \<and> u (xs ! j) \<longrightarrow> f (xs ! j) \<noteq> f y"
  shows "tab_uniq u f (xs[i := y])" "tab_map u f v (xs[i := y]) = (tab_map u f v xs)(f y \<mapsto> v y)"
proof -
  show q: "tab_uniq u f (xs[i := y])" using assms by (auto simp: tab_uniq_def nth_list_update)
  have "tab_map u f v (xs[i := y]) k = ((tab_map u f v xs)(f y \<mapsto> v y)) k" for k
  proof (rule option.expand)
    show "(tab_map u f v (xs[i := y]) k = None) = (((tab_map u f v xs)(f y \<mapsto> v y)) k = None)"
      using assms(2-5) by (auto simp: tab_map_None nth_list_update)
    assume "tab_map u f v (xs[i := y]) k \<noteq> None"
    then obtain z where z: "tab_map u f v (xs[i := y]) k = Some z" by auto
    then have "((tab_map u f v xs)(f y \<mapsto> v y)) k = Some z"
      using assms(2-5) by (auto simp: tab_map_Some[OF q] tab_map_Some[OF assms(1)] nth_list_update split: if_splits)
    with z show "the (tab_map u f v (xs[i := y]) k) = the (((tab_map u f v xs)(f y \<mapsto> v y)) k)" by simp
  qed
  then show "tab_map u f v (xs[i := y]) = (tab_map u f v xs)(f y \<mapsto> v y)" by blast
qed

lemma tab_clear:
  assumes "tab_uniq u f xs" "i < length xs" "\<not> u y" "u (xs ! i)"
  shows "tab_uniq u f (xs[i := y])" "tab_map u f v (xs[i := y]) = (tab_map u f v xs)(f (xs ! i) := None)"
proof -
  show q: "tab_uniq u f (xs[i := y])" using assms by (auto simp: tab_uniq_def nth_list_update)
  have "tab_map u f v (xs[i := y]) k = ((tab_map u f v xs)(f (xs ! i) := None)) k" for k
  proof (rule option.expand)
    show "(tab_map u f v (xs[i := y]) k = None) = (((tab_map u f v xs)(f (xs ! i) := None)) k = None)"
      using assms by (auto simp: tab_map_None nth_list_update tab_uniq_def split: if_splits)
    assume "tab_map u f v (xs[i := y]) k \<noteq> None"
    then obtain z where z: "tab_map u f v (xs[i := y]) k = Some z" by auto
    then have "((tab_map u f v xs)(f (xs ! i) := None)) k = Some z"
      using assms by (auto simp: tab_map_Some[OF q] tab_map_Some[OF assms(1)] nth_list_update tab_uniq_def split: if_splits)
    with z show "the (tab_map u f v (xs[i := y]) k) = the (((tab_map u f v xs)(f (xs ! i) := None)) k)" by simp
  qed
  then show "tab_map u f v (xs[i := y]) = (tab_map u f v xs)(f (xs ! i) := None)" by blast
qed

lemma nth_upd_nth_neq [simp]: "j \<noteq> i \<Longrightarrow> upd_nth i f xs ! j = xs ! j"
  by (simp add: upd_nth_def)

lemma map_leI: "(\<And>k v. m k = Some v \<Longrightarrow> m' k = Some v) \<Longrightarrow> m \<subseteq>\<^sub>m m'"
  by (auto simp: map_le_def dom_def)

lemma map_leD: "m \<subseteq>\<^sub>m m' \<Longrightarrow> m k = Some v \<Longrightarrow> m' k = Some v"
  by (metis domI map_le_def)

lemma map_le_not_None: "m \<subseteq>\<^sub>m m' \<Longrightarrow> m k \<noteq> None \<Longrightarrow> m' k \<noteq> None"
  by (metis domIff map_le_def)

lemma find_SomeD: "find Q xs = Some x \<Longrightarrow> x \<in> set xs \<and> Q x"
  by (auto simp: find_Some_iff)

lemma list_update_ball: "\<forall>x \<in> set xs. Q x \<Longrightarrow> Q y \<Longrightarrow> \<forall>x \<in> set (xs[i := y]). Q x"
  using set_update_subset_insert[of xs i y] by blast

lemma set_upd_nth: "set (upd_nth i f xs) \<subseteq> set xs \<union> f ` set xs"
  using set_update_subset_insert[of xs i "f (xs ! i)"] by (auto simp: upd_nth_def)

lemma find_idx_set_cong: "(\<And>x. x \<in> set xs \<Longrightarrow> P x = Q x) \<Longrightarrow> find_idx P xs = find_idx Q xs"
  by (induction xs) auto

lemma find_idx_map: "find_idx P (map g xs) = find_idx (P \<circ> g) xs"
  by (induction xs) auto

lemma nth_upd_nth_same:
  "j < length xs \<Longrightarrow> h (g (xs ! i)) = h (xs ! i) \<Longrightarrow> h (upd_nth i g xs ! j) = h (xs ! j)"
  by (auto simp: nth_upd_nth)

lemma tab_same:
  assumes "u (g (xs ! i)) = u (xs ! i)" "f (g (xs ! i)) = f (xs ! i)" "v (g (xs ! i)) = v (xs ! i)"
  shows "tab_uniq u f (upd_nth i g xs) = tab_uniq u f xs" "tab_map u f v (upd_nth i g xs) = tab_map u f v xs"
proof -
  note h = nth_upd_nth_same
  show "tab_uniq u f (upd_nth i g xs) = tab_uniq u f xs"
    unfolding tab_uniq_def by (simp add: h[where h = u] h[where h = f] assms cong: conj_cong)
  have m: "map (\<lambda>x. (u x, f x)) (upd_nth i g xs) = map (\<lambda>x. (u x, f x)) xs"
    by (rule nth_equalityI) (use assms in \<open>auto simp: nth_upd_nth\<close>)
  have fi: "find_idx (\<lambda>x. u x \<and> f x = k) ys = find_idx (\<lambda>(a, b). a \<and> b = k) (map (\<lambda>x. (u x, f x)) ys)" for k ys
    by (simp add: find_idx_map o_def)
  have "tab_map u f v (upd_nth i g xs) k = tab_map u f v xs k" for k
  proof (cases "find_idx (\<lambda>x. u x \<and> f x = k) xs")
    case None
    then show ?thesis using fi[of k "upd_nth i g xs"] fi[of k xs] m by (simp add: tab_map_def)
  next
    case (Some j)
    then show ?thesis using fi[of k "upd_nth i g xs"] fi[of k xs] m find_idx_SomeD[OF Some] h[where h = v, of j] assms
      by (simp add: tab_map_def)
  qed
  then show "tab_map u f v (upd_nth i g xs) = tab_map u f v xs" by blast
qed

section \<open>Decimal numbers\<close>

text \<open>What \<open>printf\<close> writes for an unsigned number with \<open>%u\<close> or \<open>%llu\<close>.\<close>

definition digit_char :: "nat \<Rightarrow> char" where
  "digit_char d = char_of (48 + d)"

function dec_string :: "nat \<Rightarrow> string" where
  "dec_string n = (if n < 10 then [digit_char n] else dec_string (n div 10) @ [digit_char (n mod 10)])"
  by pat_completeness auto
termination by (relation "measure id") auto

declare dec_string.simps [simp del]

lemma dec_string_not_Nil [simp]: "dec_string n \<noteq> []"
  by (subst dec_string.simps) simp

lemma length_dec_string: "n < 10 ^ k \<Longrightarrow> k > 0 \<Longrightarrow> length (dec_string n) \<le> k"
proof (induction k arbitrary: n)
  case (Suc k)
  show ?case
  proof (cases "n < 10")
    case False
    then have "n div 10 < 10 ^ k" "k > 0" using Suc.prems by (auto simp: less_mult_imp_div_less mult.commute intro: gr0I)
    with Suc.IH[of "n div 10"] False show ?thesis by (subst dec_string.simps) simp
  qed (subst dec_string.simps, simp)
qed simp

end
