(* ===== verification/RingBuffer.thy ===== *)
theory RingBuffer
  imports CBase
begin

text \<open>
  Circular byte buffers: the list of bytes a ring holds, how the two-part memcpy
  of a wrapped read or write acts on it, and the contract of a bounded FIFO as a
  locale.  The pipe store and the log store both build on it.
\<close>

named_theorems ring_simps \<open>rewrites for ring contents\<close>

text \<open>The \<open>len\<close> bytes of \<open>buf\<close> from index \<open>start\<close> on, wrapping at the end.\<close>

definition ring_list :: "'a list \<Rightarrow> nat \<Rightarrow> nat \<Rightarrow> 'a list" where
  "ring_list buf start len = map (\<lambda>i. buf ! ((start + i) mod length buf)) [0..<len]"

lemma length_ring_list [simp]: "length (ring_list buf start len) = len"
  by (simp add: ring_list_def)

lemma ring_list_0 [simp]: "ring_list buf start 0 = []"
  by (simp add: ring_list_def)

lemma nth_ring_list [simp]:
  "i < len \<Longrightarrow> ring_list buf start len ! i = buf ! ((start + i) mod length buf)"
  by (simp add: ring_list_def)

lemma ring_list_Suc:
  "ring_list buf start (Suc len) = ring_list buf start len @ [buf ! ((start + len) mod length buf)]"
  by (simp add: ring_list_def)

lemma drop_ring_list:
  "n \<le> len \<Longrightarrow> drop n (ring_list buf start len) =
     ring_list buf ((start + n) mod length buf) (len - n)"
  by (rule nth_equalityI) (auto simp: mod_simps add.assoc)

lemma take_ring_list: "n \<le> len \<Longrightarrow> take n (ring_list buf start len) = ring_list buf start n"
  by (rule nth_equalityI) auto

text \<open>A position of the ring is reached from \<open>start\<close> by exactly one step count.\<close>

lemma ring_pos_inj:
  fixes i j :: nat
  assumes "i < n" "j < n" "(s + i) mod n = (s + j) mod n"
  shows "i = j"
proof -
  have *: "a = b" if "a \<le> b" "b < n" "(s + a) mod n = (s + b) mod n" for a b
  proof -
    from that(1,3) have "n dvd (s + b) - (s + a)"
      by (metis mod_eq_dvd_iff_nat nat_add_left_cancel_le)
    with that have "b - a = 0" by (metis add_diff_cancel_left less_imp_diff_less nat_dvd_not_less not_gr_zero)
    with that(1) show ?thesis by simp
  qed
  show ?thesis
    by (cases "i \<le> j") (use assms *[of i j] *[of j i] in auto)
qed

text \<open>Reading out of a ring in at most two straight pieces.\<close>

lemma ring_copy_out [ring_simps]:
  assumes "s < length buf" "n \<le> length buf"
  shows "(if n \<le> length buf - s then take n (drop s buf)
          else take (length buf - s) (drop s buf) @ take (n - (length buf - s)) buf)
         = ring_list buf s n"
proof (rule nth_equalityI)
  fix i assume "i < length (if n \<le> length buf - s then take n (drop s buf)
          else take (length buf - s) (drop s buf) @ take (n - (length buf - s)) buf)"
  with assms have i: "i < n" by (auto split: if_splits)
  show "(if n \<le> length buf - s then take n (drop s buf)
          else take (length buf - s) (drop s buf) @ take (n - (length buf - s)) buf) ! i
        = ring_list buf s n ! i"
  proof (cases "i < length buf - s")
    case True
    with i assms show ?thesis by (auto simp: nth_append)
  next
    case False
    with i assms have "(s + i) mod length buf = s + i - length buf"
      by (simp add: le_mod_geq)
    with False i assms show ?thesis
      by (auto simp: nth_append intro!: arg_cong[where f = "(!) buf"])
  qed
qed (use assms in auto)

text \<open>Writing into a ring in at most two straight pieces.\<close>

definition ring_put :: "'a list \<Rightarrow> nat \<Rightarrow> 'a list \<Rightarrow> nat \<Rightarrow> 'a list" where
  "ring_put buf wpos src n =
     (if n \<le> length buf - wpos then memcpy_at buf wpos src n
      else memcpy_at (memcpy_at buf wpos src (length buf - wpos)) 0
             (drop (length buf - wpos) src) (n - (length buf - wpos)))"

lemma length_ring_put [simp]:
  "w < length buf \<Longrightarrow> n \<le> length buf \<Longrightarrow> n \<le> length src \<Longrightarrow>
   length (ring_put buf w src n) = length buf"
  by (auto simp: ring_put_def)

lemma nth_ring_put:
  assumes "w < length buf" "n \<le> length buf" "n \<le> length src" "i < length buf"
  shows "ring_put buf w src n ! ((w + i) mod length buf) =
    (if i < n then src ! i else buf ! ((w + i) mod length buf))"
proof (cases "w + i < length buf")
  case True
  with assms show ?thesis
    by (auto simp: ring_put_def nth_memcpy_at)
next
  case False
  with assms have m: "(w + i) mod length buf = w + i - length buf"
    by (simp add: le_mod_geq)
  from False assms show ?thesis
    unfolding m by (auto simp: ring_put_def nth_memcpy_at intro!: arg_cong[where f = "(!) src"])
qed

lemma ring_list_put [ring_simps]:
  assumes s: "s < length buf" and n: "len + n \<le> length buf" "n \<le> length src"
  shows "ring_list (ring_put buf ((s + len) mod length buf) src n) s (len + n)
       = ring_list buf s len @ take n src"
proof (rule nth_equalityI)
  let ?N = "length buf" and ?w = "(s + len) mod length buf"
  let ?b = "ring_put buf ?w src n"
  have w: "?w < ?N" using s by (intro mod_less_divisor) linarith
  have len: "length ?b = ?N" using w n by simp
  fix i assume "i < length (ring_list ?b s (len + n))"
  then have i: "i < len + n" by simp
  define k where "k = (if len \<le> i then i - len else i + ?N - len)"
  have k: "k < ?N" using i n by (auto simp: k_def)
  have pos: "(s + i) mod ?N = (?w + k) mod ?N"
  proof -
    have "(?w + k) mod ?N = (s + len + k) mod ?N" by (rule mod_add_left_eq)
    also have "s + len + k = (if len \<le> i then s + i else s + i + ?N)"
      using i n by (auto simp: k_def)
    finally show ?thesis by (auto split: if_splits)
  qed
  show "ring_list ?b s (len + n) ! i = (ring_list buf s len @ take n src) ! i"
  proof (cases "len \<le> i")
    case True
    then have "k < n" "k = i - len" using i by (auto simp: k_def)
    then show ?thesis
      using i len pos nth_ring_put[OF w _ n(2) k] n True by (simp add: nth_append)
  next
    case False
    then have "\<not> k < n" using i n by (auto simp: k_def)
    then show ?thesis
      using i len pos nth_ring_put[OF w _ n(2) k] n False by (simp add: nth_append)
  qed
qed (use assms in simp)

section \<open>The bounded FIFO contract\<close>

text \<open>
  What a byte channel promises its clients: a put takes as much as fits and
  appends it, a get removes and returns the oldest bytes.  The client lemma is
  that no schedule of puts and gets loses, duplicates or reorders a byte.
\<close>

datatype 'a fifo_op = Put "'a list" | Get nat

fun fifo_run :: "('q \<Rightarrow> 'a list \<Rightarrow> nat \<times> 'q) \<Rightarrow> ('q \<Rightarrow> nat \<Rightarrow> 'a list \<times> 'q) \<Rightarrow>
    'a fifo_op list \<Rightarrow> 'q \<Rightarrow> 'a list \<times> 'a list \<times> 'q" where
  "fifo_run put get [] q = ([], [], q)"
| "fifo_run put get (Put xs # ops) q =
     (case put q xs of (n, q') \<Rightarrow>
        (case fifo_run put get ops q' of (w, r, q'') \<Rightarrow> (take n xs @ w, r, q'')))"
| "fifo_run put get (Get n # ops) q =
     (case get q n of (d, q') \<Rightarrow>
        (case fifo_run put get ops q' of (w, r, q'') \<Rightarrow> (w, d @ r, q'')))"

locale bounded_fifo =
  fixes inv :: "'q \<Rightarrow> bool"
    and cont :: "'q \<Rightarrow> 'a list"
    and cap :: "'q \<Rightarrow> nat"
    and put :: "'q \<Rightarrow> 'a list \<Rightarrow> nat \<times> 'q"
    and get :: "'q \<Rightarrow> nat \<Rightarrow> 'a list \<times> 'q"
  assumes cont_cap: "inv q \<Longrightarrow> length (cont q) \<le> cap q"
    and put_count: "inv q \<Longrightarrow> put q xs = (n, q') \<Longrightarrow> n = min (length xs) (cap q - length (cont q))"
    and put_cont: "inv q \<Longrightarrow> put q xs = (n, q') \<Longrightarrow> cont q' = cont q @ take n xs"
    and put_keeps: "inv q \<Longrightarrow> put q xs = (n, q') \<Longrightarrow> inv q' \<and> cap q' = cap q"
    and get_data: "inv q \<Longrightarrow> get q n = (d, q') \<Longrightarrow> d = take n (cont q)"
    and get_cont: "inv q \<Longrightarrow> get q n = (d, q') \<Longrightarrow> cont q' = drop n (cont q)"
    and get_keeps: "inv q \<Longrightarrow> get q n = (d, q') \<Longrightarrow> inv q' \<and> cap q' = cap q"
begin

lemma run_keeps:
  "inv q \<Longrightarrow> fifo_run put get ops q = (w, r, q') \<Longrightarrow> inv q' \<and> cap q' = cap q"
proof (induction ops arbitrary: q w r q')
  case (Cons x ops)
  then show ?case
    by (cases x) (auto split: prod.splits dest: put_keeps get_keeps)
qed simp

lemma run_stream:
  "inv q \<Longrightarrow> fifo_run put get ops q = (w, r, q') \<Longrightarrow> cont q @ w = r @ cont q'"
proof (induction ops arbitrary: q w r q')
  case (Cons x ops)
  show ?case
  proof (cases x)
    case (Put xs)
    with Cons.prems obtain n q1 w1 where 1: "put q xs = (n, q1)"
      "fifo_run put get ops q1 = (w1, r, q')" "w = take n xs @ w1"
      by (auto split: prod.splits)
    with Cons.prems Cons.IH[of q1 w1 r q'] put_cont[of q xs n q1] put_keeps[of q xs n q1]
    show ?thesis by simp
  next
    case (Get n)
    with Cons.prems obtain d q1 r1 where 1: "get q n = (d, q1)"
      "fifo_run put get ops q1 = (w, r1, q')" "r = d @ r1"
      by (auto split: prod.splits)
    with Cons.prems Cons.IH[of q1 w r1 q'] get_cont[of q n d q1] get_data[of q n d q1]
      get_keeps[of q n d q1]
    show ?thesis by (metis append.assoc append_take_drop_id)
  qed
qed simp

lemma run_stream_empty:
  assumes "inv q" "cont q = []" "fifo_run put get ops q = (w, r, q')"
  shows "\<exists>rest. w = r @ rest \<and> length rest \<le> cap q"
  using run_stream[OF assms(1,3)] run_keeps[OF assms(1,3)] cont_cap[of q'] assms(2) by auto

end

section \<open>Logs that keep their tail\<close>

text \<open>The last \<open>n\<close> elements, all of them when there are fewer.\<close>

definition lastn :: "nat \<Rightarrow> 'a list \<Rightarrow> 'a list" where
  "lastn n xs = drop (length xs - n) xs"

lemma length_lastn [simp]: "length (lastn n xs) = min n (length xs)"
  by (simp add: lastn_def)

lemma lastn_short [simp]: "length xs \<le> n \<Longrightarrow> lastn n xs = xs"
  by (simp add: lastn_def)

lemma lastn_lastn_append: "lastn n (lastn n xs @ ys) = lastn n (xs @ ys)"
  by (cases "length xs \<le> n") (simp_all add: lastn_def add.commute)

lemma lastn_suffix: "\<exists>ys. xs = ys @ lastn n xs"
  by (metis append_take_drop_id lastn_def)

text \<open>
  The contract of a log that keeps its most recent elements: an append adds at the end and drops
  from the front what no longer fits.
\<close>

locale tail_log =
  fixes ok :: "'l \<Rightarrow> bool" and contents :: "'l \<Rightarrow> 'a list" and cap :: "'l \<Rightarrow> nat"
    and app :: "'l \<Rightarrow> 'a list \<Rightarrow> 'l"
  assumes app_ok: "ok l \<Longrightarrow> ok (app l xs)"
    and app_cap: "ok l \<Longrightarrow> cap (app l xs) = cap l"
    and app_contents: "ok l \<Longrightarrow> contents (app l xs) = lastn (cap l) (contents l @ xs)"
    and contents_cap: "ok l \<Longrightarrow> length (contents l) \<le> cap l"
begin

lemma apps_ok: "ok l \<Longrightarrow> ok (foldl app l xss) \<and> cap (foldl app l xss) = cap l"
  by (induction xss arbitrary: l) (auto simp: app_ok app_cap)

lemma apps_contents: "ok l \<Longrightarrow> contents (foldl app l xss) = lastn (cap l) (contents l @ concat xss)"
proof (induction xss arbitrary: l)
  case (Cons xs xss)
  then show ?case using Cons.IH[OF app_ok[OF Cons.prems], of xs]
    by (simp add: app_cap app_contents lastn_lastn_append)
qed (simp add: contents_cap)

lemma apps_chunking:
  "ok l \<Longrightarrow> concat xss = concat yss \<Longrightarrow> contents (foldl app l xss) = contents (foldl app l yss)"
  by (simp add: apps_contents)

lemma apps_recent:
  "ok l \<Longrightarrow> length (concat xss) \<le> cap l \<Longrightarrow> \<exists>pre. contents (foldl app l xss) = pre @ concat xss"
  by (rule exI[of _ "drop (length (contents l) + length (concat xss) - cap l) (contents l)"])
    (simp add: apps_contents lastn_def)

end

end
