(* ===== verification/VfsDir.thy ===== *)
theory VfsDir
  imports CBase
begin

text \<open>
  The VFS constants of \<open>src/include/vfs.h\<close> and the flat-directory readdir helper
  of \<open>src/vfs/vfs.c\<close> that DevFS, NetFS, ProcFS and the pipe driver share.  The byte buffer a
  readdir fills is modelled as the list of packed directory entries; each takes
  \<open>sizeof(vfs_dirent_t)\<close> bytes and its name.
\<close>

type_synonym oflags = u32

definition VFS_O_RDONLY :: oflags where "VFS_O_RDONLY = 0"
definition VFS_O_WRONLY :: oflags where "VFS_O_WRONLY = 1"
definition VFS_O_RDWR :: oflags where "VFS_O_RDWR = 2"
definition VFS_O_NONBLOCK :: oflags where "VFS_O_NONBLOCK = 2048"

definition VFS_FILETYPE_CHARACTER_DEVICE :: nat where "VFS_FILETYPE_CHARACTER_DEVICE = 2"
definition VFS_FILETYPE_DIRECTORY :: nat where "VFS_FILETYPE_DIRECTORY = 3"

lemmas vfs_consts = VFS_O_RDONLY_def VFS_O_WRONLY_def VFS_O_RDWR_def VFS_O_NONBLOCK_def
  VFS_FILETYPE_CHARACTER_DEVICE_def VFS_FILETYPE_DIRECTORY_def

definition VFS_POLL_IN :: u32 where "VFS_POLL_IN = 1"
definition VFS_POLL_OUT :: u32 where "VFS_POLL_OUT = 2"
definition VFS_POLL_HUP :: u32 where "VFS_POLL_HUP = 4"

lemmas poll_consts = VFS_POLL_IN_def VFS_POLL_OUT_def VFS_POLL_HUP_def

definition MAX_ENTRY_NAME_LEN :: nat where "MAX_ENTRY_NAME_LEN = 32"

record dir_entry =
  de_name :: string
  de_type :: nat

record dirent =
  d_next :: nat
  d_ino :: nat
  d_namlen :: nat
  d_type :: nat
  d_name :: string

text \<open>\<open>sizeof(vfs_dirent_t)\<close>: two 64-bit and two 32-bit fields.\<close>

definition dirent_size :: nat where "dirent_size = 24"

definition entry_size :: "dir_entry \<Rightarrow> nat" where
  "entry_size e = dirent_size + length (de_name e)"

text \<open>
  The loop of \<open>VfsFlatDirReadDir\<close> from index \<open>idx\<close> with \<open>used\<close> bytes packed: the
  entries it adds, the index it stops at and the bytes used.
\<close>

function flat_dir_loop ::
    "dir_entry list \<Rightarrow> nat \<Rightarrow> nat \<Rightarrow> nat \<Rightarrow> dirent list \<times> nat \<times> nat" where
  "flat_dir_loop entries bufLen idx used =
     (if idx < length entries then
        let namlen = length (de_name (entries ! idx)) in
        if used + dirent_size + namlen > bufLen then ([], idx, used)
        else
          let dir = \<lparr>d_next = used + dirent_size + namlen, d_ino = idx, d_namlen = namlen,
                     d_type = de_type (entries ! idx), d_name = de_name (entries ! idx)\<rparr>;
              (rest, idx', used') = flat_dir_loop entries bufLen (idx + 1)
                                      (used + dirent_size + namlen)
          in (dir # rest, idx', used')
      else ([], idx, used))"
  by pat_completeness auto
termination
  by (relation "measure (\<lambda>(entries, _, idx, _). length entries - idx)") auto

declare flat_dir_loop.simps [simp del]

definition VfsFlatDirReadDir ::
    "dir_entry list \<Rightarrow> nat \<Rightarrow> nat \<Rightarrow> dirent list \<times> nat \<times> nat" where
  "VfsFlatDirReadDir entries bufLen cookie = flat_dir_loop entries bufLen cookie 0"

section \<open>Listing by the returned cookie is complete\<close>

text \<open>The names of a listing that resumes at the returned cookie, at most \<open>fuel\<close> calls.\<close>

fun list_by_cookie :: "nat \<Rightarrow> dir_entry list \<Rightarrow> nat \<Rightarrow> nat \<Rightarrow> string list" where
  "list_by_cookie 0 entries bufLen cookie = []"
| "list_by_cookie (Suc fuel) entries bufLen cookie =
     (case VfsFlatDirReadDir entries bufLen cookie of (ds, cookie', _) \<Rightarrow>
        if ds = [] then [] else map d_name ds @ list_by_cookie fuel entries bufLen cookie')"

lemma flat_dir_loop_spec:
  "flat_dir_loop entries bufLen idx used = (ds, idx', used') \<Longrightarrow> idx \<le> length entries \<Longrightarrow>
   used \<le> bufLen \<Longrightarrow>
   idx' = idx + length ds \<and> idx' \<le> length entries \<and> used' \<le> bufLen \<and>
   used' = used + (\<Sum>d\<leftarrow>ds. dirent_size + d_namlen d) \<and>
   map d_name ds = map de_name (take (length ds) (drop idx entries)) \<and>
   (ds = [] \<longrightarrow> idx = length entries \<or> used + entry_size (entries ! idx) > bufLen)"
proof (induction entries bufLen idx used arbitrary: ds idx' used' rule: flat_dir_loop.induct)
  case (1 entries bufLen idx used)
  let ?n = "length (de_name (entries ! idx))"
  show ?case
  proof (cases "idx < length entries \<and> used + dirent_size + ?n \<le> bufLen")
    case True
    obtain rest i2 u2 where r: "flat_dir_loop entries bufLen (idx + 1) (used + dirent_size + ?n)
        = (rest, i2, u2)" by (metis prod_cases3)
    have ih: "i2 = idx + 1 + length rest \<and> i2 \<le> length entries \<and> u2 \<le> bufLen \<and>
       u2 = used + dirent_size + ?n + (\<Sum>d\<leftarrow>rest. dirent_size + d_namlen d) \<and>
       map d_name rest = map de_name (take (length rest) (drop (idx + 1) entries))"
      using 1(1)[OF _ refl _ _ r] True r by auto
    have "drop idx entries = entries ! idx # drop (idx + 1) entries"
      using True by (simp add: Cons_nth_drop_Suc)
    with True 1(2) r ih show ?thesis
      by (subst (asm) flat_dir_loop.simps) (auto simp: Let_def)
  next
    case False
    with 1(2,3,4) show ?thesis
      by (subst (asm) flat_dir_loop.simps) (auto simp: Let_def entry_size_def split: if_splits)
  qed
qed

lemma flat_dir_complete:
  assumes "\<forall>e\<in>set entries. entry_size e \<le> bufLen" "cookie \<le> length entries"
    "length entries - cookie < fuel"
  shows "list_by_cookie fuel entries bufLen cookie = map de_name (drop cookie entries)"
  using assms(2,3)
proof (induction fuel arbitrary: cookie)
  case (Suc fuel)
  obtain ds c u where v: "VfsFlatDirReadDir entries bufLen cookie = (ds, c, u)"
    by (metis prod_cases3)
  note spec = flat_dir_loop_spec[OF v[unfolded VfsFlatDirReadDir_def] Suc.prems(1)]
  show ?case
  proof (cases "ds = []")
    case True
    then have "cookie = length entries"
      using spec bspec[OF assms(1) nth_mem, of cookie] Suc.prems(1)
      by (cases "cookie < length entries") auto
    with True v show ?thesis by simp
  next
    case False
    then have "length ds > 0" by simp
    then have "list_by_cookie fuel entries bufLen c = map de_name (drop c entries)"
      using spec Suc.prems by (intro Suc.IH) linarith+
    moreover have "drop cookie entries = take (length ds) (drop cookie entries) @ drop c entries"
      using spec by (metis append_take_drop_id drop_drop add.commute zero_le)
    ultimately show ?thesis using False v spec
      by simp (metis append_take_drop_id map_append)
  qed
qed simp

end
