(* ===== verification/Pipe.thy ===== *)
theory Pipe
  imports RingBuffer VfsDir
begin

text \<open>
  The named-pipe driver, \<open>src/vfs/vfs-pipe.c\<close>: the process-wide pipe store, the ring
  helpers, the typed driver calls on a handle, the per-wapp bridge table behind
  \<open>/dev/pipe\<close> and the pipe console.

  The store is the list of its slots; a \<open>named_pipe_t *\<close> is a slot index.  Every
  critical section under \<open>store->lock\<close> is one function on the store.  A blocking
  call releases the lock between attempts, so its loop takes what each wait
  observes (\<open>poll_env\<close>): what the peers did to the store while it slept, the
  clock reading, and whether the sleep was interrupted or the wake descriptor
  raised.  Allocation failure is the flag \<open>mem\<close>.
\<close>

named_theorems pipe_defs \<open>definitions of the pipe driver's critical sections\<close>

section \<open>Store and ring helpers\<close>

record named_pipe =
  pipe_name :: string
  pipe_buf :: "byte list"
  rpos :: nat
  data_len :: nat
  writers :: int
  readers :: int
  writer_seen :: bool
  persistent :: bool
  active :: bool

type_synonym pipe_store = "named_pipe list"

record pipe_handle =
  h_pipe :: "nat option"
  h_flags :: oflags
  is_root :: bool

definition PIPE_POLL_MAX_NS :: u64 where "PIPE_POLL_MAX_NS = 5000000000"

definition pollDeadline :: "u64 option \<Rightarrow> u64" where
  "pollDeadline clk = (case clk of None \<Rightarrow> 0 | Some now \<Rightarrow> now + PIPE_POLL_MAX_NS)"

definition pollExpired :: "u64 \<Rightarrow> u64 option \<Rightarrow> bool" where
  "pollExpired deadline clk =
     (if deadline = 0 then False
      else case clk of None \<Rightarrow> False | Some now \<Rightarrow> now \<ge> deadline)"

text \<open>\<open>memset(p, 0, sizeof *p)\<close>, and the zeroed store of \<open>PipeStoreNew\<close>.\<close>

definition pipe_zero :: "nat \<Rightarrow> named_pipe" where
  "pipe_zero bufsize = \<lparr>pipe_name = [], pipe_buf = replicate bufsize 0, rpos = 0, data_len = 0,
     writers = 0, readers = 0, writer_seen = False, persistent = False, active = False\<rparr>"

definition PipeStoreNew :: "bool \<Rightarrow> nat \<Rightarrow> nat \<Rightarrow> pipe_store option" where
  "PipeStoreNew mem bufsize maxpipes =
     (if \<not> mem then None else Some (replicate maxpipes (pipe_zero bufsize)))"

definition findPipe :: "pipe_store \<Rightarrow> string \<Rightarrow> nat option" where
  "findPipe store name =
     find_idx (\<lambda>p. active p \<and> strncmp MAX_ENTRY_NAME_LEN (pipe_name p) name = 0) store"

definition allocPipe :: "pipe_store \<Rightarrow> string \<Rightarrow> (nat \<times> pipe_store) option" where
  "allocPipe store name =
     (case find_idx (\<lambda>p. \<not> active p) store of
        None \<Rightarrow> None
      | Some i \<Rightarrow> Some (i, store[i := (pipe_zero (length (pipe_buf (store ! i))))
          \<lparr>pipe_name := strncpy_buf MAX_ENTRY_NAME_LEN name, active := True\<rparr>]))"

definition ringRead :: "named_pipe \<Rightarrow> nat \<Rightarrow> byte list \<times> named_pipe" where
  "ringRead p nbyte =
     (let size = length (pipe_buf p);
          n = (if nbyte < data_len p then nbyte else data_len p);
          first = size - rpos p;
          out = (if n \<le> first then take n (drop (rpos p) (pipe_buf p))
                 else take first (drop (rpos p) (pipe_buf p)) @ take (n - first) (pipe_buf p))
      in (out, p\<lparr>rpos := (rpos p + n) mod size, data_len := data_len p - n\<rparr>))"

definition ringWrite :: "named_pipe \<Rightarrow> byte list \<Rightarrow> (errno + nat) \<times> named_pipe" where
  "ringWrite p src =
     (let size = length (pipe_buf p);
          space = size - data_len p;
          n = (if length src < space then length src else space)
      in if n = 0 then (Inl EAGAIN, p)
         else
           let wpos = (rpos p + data_len p) mod size;
               first = size - wpos;
               buf' = (if n \<le> first then memcpy_at (pipe_buf p) wpos src n
                       else memcpy_at (memcpy_at (pipe_buf p) wpos src first) 0
                              (drop first src) (n - first))
           in (Inr n, p\<lparr>pipe_buf := buf', data_len := data_len p + n\<rparr>))"

text \<open>End of stream: a writer has existed, all have closed, and it is no console's pipe.\<close>

definition pipe_eof :: "named_pipe \<Rightarrow> bool" where
  "pipe_eof p \<longleftrightarrow> writer_seen p \<and> writers p \<le> 0 \<and> \<not> persistent p"

definition ringPoll :: "named_pipe \<Rightarrow> bool \<Rightarrow> nat \<Rightarrow> u32 \<times> nat" where
  "ringPoll p writer avail =
     (if writer then (if data_len p < length (pipe_buf p) then VFS_POLL_OUT else 0, avail)
      else if data_len p > 0 then (VFS_POLL_IN, data_len p)
      else if pipe_eof p then (VFS_POLL_IN OR VFS_POLL_HUP, data_len p)
      else (0, data_len p))"

section \<open>Typed driver calls\<close>

definition is_writer :: "oflags \<Rightarrow> bool" where
  "is_writer flags \<longleftrightarrow> flags AND 3 = VFS_O_WRONLY"

definition is_nonblock :: "oflags \<Rightarrow> bool" where
  "is_nonblock flags \<longleftrightarrow> flags AND VFS_O_NONBLOCK \<noteq> 0"

definition findOrAlloc :: "pipe_store \<Rightarrow> string \<Rightarrow> (nat \<times> pipe_store) option" where
  "findOrAlloc store name =
     (case findPipe store name of Some i \<Rightarrow> Some (i, store) | None \<Rightarrow> allocPipe store name)"

definition pipe_attach :: "bool \<Rightarrow> named_pipe \<Rightarrow> named_pipe" where
  "pipe_attach writer p =
     (if writer then p\<lparr>writers := writers p + 1, writer_seen := True\<rparr>
      else p\<lparr>readers := readers p + 1\<rparr>)"

text \<open>A pipe nobody holds and nothing is buffered in gives its slot back.\<close>

definition pipe_release :: "named_pipe \<Rightarrow> named_pipe" where
  "pipe_release p =
     (if writers p \<le> 0 \<and> readers p \<le> 0 \<and> data_len p = 0 then p\<lparr>active := False\<rparr> else p)"

definition pipe_detach :: "bool \<Rightarrow> named_pipe \<Rightarrow> named_pipe" where
  "pipe_detach writer p =
     pipe_release (if writer then p\<lparr>writers := writers p - 1\<rparr>
                   else p\<lparr>readers := readers p - 1\<rparr>)"

definition PipeDriver_Open ::
    "bool \<Rightarrow> pipe_store \<Rightarrow> string option \<Rightarrow> oflags \<Rightarrow> (errno + pipe_handle) \<times> pipe_store" where
  "PipeDriver_Open mem store suffix flags =
     (if \<not> mem then (Inl ENOMEM, store)
      else if suffix = None \<or> suffix = Some [] \<or> suffix = Some ''/'' then
        (Inr \<lparr>h_pipe = None, h_flags = flags, is_root = True\<rparr>, store)
      else if flags AND VFS_O_RDWR = VFS_O_RDWR then (Inl EINVAL, store)
      else
        case findOrAlloc store (the suffix) of
          None \<Rightarrow> (Inl ENOSPC, store)
        | Some (i, store') \<Rightarrow>
            (Inr \<lparr>h_pipe = Some i, h_flags = flags, is_root = False\<rparr>,
             upd_nth i (pipe_attach (is_writer flags)) store'))"

definition PipeDriver_Close ::
    "pipe_store \<Rightarrow> pipe_handle option \<Rightarrow> (errno + unit) \<times> pipe_store" where
  "PipeDriver_Close store handle =
     (case handle of
        None \<Rightarrow> (Inl EBADF, store)
      | Some h \<Rightarrow>
          (Inr (),
           if is_root h then store
           else case h_pipe h of
                  None \<Rightarrow> store
                | Some i \<Rightarrow> upd_nth i (pipe_detach (is_writer (h_flags h))) store))"

text \<open>
  The wait loop the four blocking calls share.  \<open>attempt\<close> is the critical section:
  \<open>Some r\<close> ends the call with \<open>r\<close>, \<open>None\<close> would block.  The result \<open>None\<close> of
  the loop means that it is still waiting after the observations given.
\<close>

record poll_env =
  env_peers :: "pipe_store \<Rightarrow> pipe_store"
  env_clock :: "u64 option"
  env_eintr :: bool
  env_wake :: bool

fun wait_loop :: "(pipe_store \<Rightarrow> (errno + 'r) option \<times> pipe_store) \<Rightarrow> bool \<Rightarrow> u64 \<Rightarrow>
    poll_env list \<Rightarrow> pipe_store \<Rightarrow> ((errno + 'r) \<times> pipe_store) option" where
  "wait_loop attempt nonblock deadline envs store =
     (case attempt store of
        (Some r, store1) \<Rightarrow> Some (r, store1)
      | (None, store1) \<Rightarrow>
          if nonblock then Some (Inl EAGAIN, store1)
          else case envs of
                 [] \<Rightarrow> None
               | e # es \<Rightarrow>
                   if pollExpired deadline (env_clock e) then Some (Inl EAGAIN, store1)
                   else
                     let store2 = env_peers e store1 in
                     if env_eintr e then Some (Inl EINTR, store2)
                     else if env_wake e then Some (Inl EINTR, store2)
                     else wait_loop attempt nonblock deadline es store2)"

declare wait_loop.simps [simp del]

definition readAttempt :: "nat \<Rightarrow> nat \<Rightarrow> pipe_store \<Rightarrow> (errno + byte list) option \<times> pipe_store" where
  "readAttempt i nbyte store =
     (let p = store ! i in
      if data_len p > 0 then
        (case ringRead p nbyte of (out, p') \<Rightarrow> (Some (Inr out), store[i := p']))
      else if pipe_eof p then (Some (Inr []), store)
      else (None, store))"

definition writeAttempt :: "nat \<Rightarrow> byte list \<Rightarrow> pipe_store \<Rightarrow> (errno + nat) option \<times> pipe_store" where
  "writeAttempt i src store =
     (case ringWrite (store ! i) src of
        (r, p') \<Rightarrow> (if r = Inl EAGAIN then None else Some r, store[i := p']))"

definition PipeDriver_Read :: "u64 option \<Rightarrow> poll_env list \<Rightarrow> pipe_store \<Rightarrow> pipe_handle option \<Rightarrow> nat \<Rightarrow>
    ((errno + byte list) \<times> pipe_store) option" where
  "PipeDriver_Read clk envs store handle nbyte =
     (case handle of
        None \<Rightarrow> Some (Inl EBADF, store)
      | Some h \<Rightarrow>
          if is_root h then Some (Inl EBADF, store)
          else case h_pipe h of
                 None \<Rightarrow> Some (Inl EBADF, store)
               | Some i \<Rightarrow>
                   wait_loop (readAttempt i nbyte) (is_nonblock (h_flags h))
                     (pollDeadline clk) envs store)"

definition PipeDriver_Write :: "u64 option \<Rightarrow> poll_env list \<Rightarrow> pipe_store \<Rightarrow> pipe_handle option \<Rightarrow>
    byte list \<Rightarrow> ((errno + nat) \<times> pipe_store) option" where
  "PipeDriver_Write clk envs store handle src =
     (case handle of
        None \<Rightarrow> Some (Inl EBADF, store)
      | Some h \<Rightarrow>
          if is_root h then Some (Inl EBADF, store)
          else case h_pipe h of
                 None \<Rightarrow> Some (Inl EBADF, store)
               | Some i \<Rightarrow>
                   wait_loop (writeAttempt i src) (is_nonblock (h_flags h))
                     (pollDeadline clk) envs store)"

definition pipePoll :: "pipe_store \<Rightarrow> pipe_handle option \<Rightarrow> nat \<Rightarrow> (errno + u32) \<times> nat" where
  "pipePoll store handle avail =
     (case handle of
        None \<Rightarrow> (Inl EBADF, avail)
      | Some h \<Rightarrow>
          if is_root h then (Inr (VFS_POLL_IN OR VFS_POLL_OUT), avail)
          else case h_pipe h of
                 None \<Rightarrow> (Inr (VFS_POLL_IN OR VFS_POLL_OUT), avail)
               | Some i \<Rightarrow>
                   (case ringPoll (store ! i) (is_writer (h_flags h)) avail of
                      (r, avail') \<Rightarrow> (Inr r, avail')))"

definition PipeDriver_Stat :: "pipe_handle option \<Rightarrow> errno + nat" where
  "PipeDriver_Stat handle =
     (case handle of
        None \<Rightarrow> Inl EBADF
      | Some h \<Rightarrow> Inr (if is_root h then VFS_FILETYPE_DIRECTORY else VFS_FILETYPE_CHARACTER_DEVICE))"

definition PipeDriver_ReadDir ::
    "pipe_store \<Rightarrow> pipe_handle option \<Rightarrow> nat \<Rightarrow> nat \<Rightarrow> errno + (dirent list \<times> nat \<times> nat)" where
  "PipeDriver_ReadDir store handle bufLen cookie =
     (case handle of
        None \<Rightarrow> Inl EBADF
      | Some h \<Rightarrow>
          if \<not> is_root h then Inl EBADF
          else Inr (VfsFlatDirReadDir
                 (map (\<lambda>p. \<lparr>de_name = pipe_name p, de_type = VFS_FILETYPE_CHARACTER_DEVICE\<rparr>)
                    (filter active store)) bufLen cookie))"

section \<open>The DevFS bridge\<close>

record bridge_state =
  handles :: "pipe_handle option list"
  b_wakeFd :: int

definition BRIDGE_MAX_HANDLES :: nat where "BRIDGE_MAX_HANDLES = 16"

definition PipeDriverCreate :: "bool \<Rightarrow> bool \<Rightarrow> bridge_state option" where
  "PipeDriverCreate mem_drv mem_ctx =
     (if \<not> mem_drv then None
      else if \<not> mem_ctx then None
      else Some \<lparr>handles = replicate BRIDGE_MAX_HANDLES None, b_wakeFd = -1\<rparr>)"

definition allocHandle :: "bridge_state \<Rightarrow> pipe_handle \<Rightarrow> (errno + nat) \<times> bridge_state" where
  "allocHandle s h =
     (case find_idx (\<lambda>x. x = None) (handles s) of
        None \<Rightarrow> (Inl EMFILE, s)
      | Some i \<Rightarrow> (Inr i, s\<lparr>handles := (handles s)[i := Some h]\<rparr>))"

definition freeHandle :: "bridge_state \<Rightarrow> int \<Rightarrow> bridge_state" where
  "freeHandle s fd =
     (if fd \<ge> 0 \<and> fd < int (length (handles s)) then s\<lparr>handles := (handles s)[nat fd := None]\<rparr>
      else s)"

definition getHandle :: "bridge_state \<Rightarrow> int \<Rightarrow> pipe_handle option" where
  "getHandle s fd =
     (if fd < 0 \<or> fd \<ge> int (length (handles s)) then None else handles s ! nat fd)"

definition bOpen :: "bool \<Rightarrow> pipe_store \<Rightarrow> bridge_state \<Rightarrow> string \<Rightarrow> oflags \<Rightarrow>
    (errno + nat) \<times> pipe_store \<times> bridge_state" where
  "bOpen mem store s path flags =
     (case PipeDriver_Open mem store (Some path) flags of
        (Inl e, store1) \<Rightarrow> (Inl e, store1, s)
      | (Inr h, store1) \<Rightarrow>
          (case allocHandle s h of
             (Inl e, s1) \<Rightarrow> (Inl e, snd (PipeDriver_Close store1 (Some h)), s1)
           | (Inr fd, s1) \<Rightarrow> (Inr fd, store1, s1)))"

definition bClose :: "pipe_store \<Rightarrow> bridge_state \<Rightarrow> int \<Rightarrow>
    (errno + unit) \<times> pipe_store \<times> bridge_state" where
  "bClose store s fd =
     (case getHandle s fd of
        None \<Rightarrow> (Inl EBADF, store, s)
      | Some h \<Rightarrow>
          (case PipeDriver_Close store (Some h) of (r, store1) \<Rightarrow> (r, store1, freeHandle s fd)))"

definition bRead :: "u64 option \<Rightarrow> poll_env list \<Rightarrow> pipe_store \<Rightarrow> bridge_state \<Rightarrow> int \<Rightarrow> nat \<Rightarrow>
    ((errno + byte list) \<times> pipe_store) option" where
  "bRead clk envs store s fd nbyte =
     (case getHandle s fd of
        None \<Rightarrow> Some (Inl EBADF, store)
      | Some h \<Rightarrow> PipeDriver_Read clk envs store (Some h) nbyte)"

definition bWrite :: "u64 option \<Rightarrow> poll_env list \<Rightarrow> pipe_store \<Rightarrow> bridge_state \<Rightarrow> int \<Rightarrow> byte list \<Rightarrow>
    ((errno + nat) \<times> pipe_store) option" where
  "bWrite clk envs store s fd src =
     (case getHandle s fd of
        None \<Rightarrow> Some (Inl EBADF, store)
      | Some h \<Rightarrow> PipeDriver_Write clk envs store (Some h) src)"

definition bStat :: "bridge_state \<Rightarrow> int \<Rightarrow> errno + nat" where
  "bStat s fd = (case getHandle s fd of None \<Rightarrow> Inl EBADF | Some h \<Rightarrow> PipeDriver_Stat (Some h))"

definition bPoll :: "pipe_store \<Rightarrow> bridge_state \<Rightarrow> int \<Rightarrow> nat \<Rightarrow> (errno + u32) \<times> nat" where
  "bPoll store s fd avail =
     (case getHandle s fd of
        None \<Rightarrow> (Inl EBADF, avail)
      | Some h \<Rightarrow> pipePoll store (Some h) avail)"

definition set_nonblock :: "oflags \<Rightarrow> oflags \<Rightarrow> oflags" where
  "set_nonblock cur flags = (cur AND NOT VFS_O_NONBLOCK) OR (flags AND VFS_O_NONBLOCK)"

definition bSetFlags :: "bridge_state \<Rightarrow> int \<Rightarrow> oflags \<Rightarrow> (errno + unit) \<times> bridge_state" where
  "bSetFlags s fd flags =
     (case getHandle s fd of
        None \<Rightarrow> (Inl EBADF, s)
      | Some h \<Rightarrow>
          (Inr (), s\<lparr>handles := (handles s)[nat fd :=
             Some (h\<lparr>h_flags := set_nonblock (h_flags h) flags\<rparr>)]\<rparr>))"

definition bSetWake :: "bridge_state \<Rightarrow> int \<Rightarrow> bridge_state" where
  "bSetWake s fd = s\<lparr>b_wakeFd := fd\<rparr>"

definition bReadDir ::
    "pipe_store \<Rightarrow> bridge_state \<Rightarrow> int \<Rightarrow> nat \<Rightarrow> nat \<Rightarrow> errno + (dirent list \<times> nat \<times> nat)" where
  "bReadDir store s fd bufLen cookie =
     (case getHandle s fd of
        None \<Rightarrow> Inl EBADF
      | Some h \<Rightarrow> PipeDriver_ReadDir store (Some h) bufLen cookie)"

fun close_handles :: "pipe_handle option list \<Rightarrow> pipe_store \<Rightarrow> pipe_store" where
  "close_handles [] store = store"
| "close_handles (None # hs) store = close_handles hs store"
| "close_handles (Some h # hs) store = close_handles hs (snd (PipeDriver_Close store (Some h)))"

definition bDestroy :: "pipe_store \<Rightarrow> bridge_state option \<Rightarrow> pipe_store" where
  "bDestroy store drv = (case drv of None \<Rightarrow> store | Some s \<Rightarrow> close_handles (handles s) store)"

section \<open>The pipe console\<close>

record pipe_console =
  c_name :: string
  forRead :: bool
  c_flags :: oflags
  c_wakeFd :: int

definition consoleDetach :: "pipe_store \<Rightarrow> pipe_console \<Rightarrow> pipe_store" where
  "consoleDetach store c =
     (case findPipe store (c_name c) of
        None \<Rightarrow> store
      | Some i \<Rightarrow> upd_nth i (\<lambda>p. pipe_release
          (if forRead c then (if readers p > 0 then p\<lparr>readers := readers p - 1\<rparr> else p)
           else if writers p > 0 then p\<lparr>writers := writers p - 1\<rparr> else p)) store)"

definition pcWriteAttempt ::
    "string \<Rightarrow> byte list \<Rightarrow> pipe_store \<Rightarrow> (errno + nat) option \<times> pipe_store" where
  "pcWriteAttempt name src store =
     (case findOrAlloc store name of
        None \<Rightarrow> (Some (Inl ENOSPC), store)
      | Some (i, store1) \<Rightarrow> writeAttempt i src store1)"

definition pcWrite :: "u64 option \<Rightarrow> poll_env list \<Rightarrow> pipe_store \<Rightarrow> pipe_console \<Rightarrow> byte list option \<Rightarrow>
    ((errno + nat) \<times> pipe_store) option" where
  "pcWrite clk envs store c buf =
     (case buf of
        None \<Rightarrow> Some (Inl EINVAL, store)
      | Some src \<Rightarrow>
          if forRead c then Some (Inl EBADF, store)
          else wait_loop (pcWriteAttempt (c_name c) src) (is_nonblock (c_flags c))
                 (pollDeadline clk) envs store)"

definition pcReadAttempt ::
    "string \<Rightarrow> nat \<Rightarrow> pipe_store \<Rightarrow> (errno + byte list) option \<times> pipe_store" where
  "pcReadAttempt name nbyte store =
     (case findPipe store name of
        None \<Rightarrow> (None, store)
      | Some i \<Rightarrow> readAttempt i nbyte store)"

definition pcRead :: "u64 option \<Rightarrow> poll_env list \<Rightarrow> pipe_store \<Rightarrow> pipe_console \<Rightarrow> bool \<Rightarrow> nat \<Rightarrow>
    ((errno + byte list) \<times> pipe_store) option" where
  "pcRead clk envs store c have_buf nbyte =
     (if \<not> have_buf then Some (Inl EINVAL, store)
      else if \<not> forRead c then Some (Inr [], store)
      else wait_loop (pcReadAttempt (c_name c) nbyte) (is_nonblock (c_flags c))
             (pollDeadline clk) envs store)"

definition pcPoll :: "pipe_store \<Rightarrow> pipe_console \<Rightarrow> nat \<Rightarrow> u32 \<times> nat" where
  "pcPoll store c avail =
     (case findPipe store (c_name c) of
        None \<Rightarrow> (if forRead c then 0 else VFS_POLL_OUT, avail)
      | Some i \<Rightarrow> ringPoll (store ! i) (\<not> forRead c) avail)"

definition pcSetFlags :: "pipe_console \<Rightarrow> oflags \<Rightarrow> pipe_console" where
  "pcSetFlags c flags = c\<lparr>c_flags := set_nonblock (c_flags c) flags\<rparr>"

definition pcSetWake :: "pipe_console \<Rightarrow> int \<Rightarrow> pipe_console" where
  "pcSetWake c fd = c\<lparr>c_wakeFd := fd\<rparr>"

definition pcStat :: "bool \<Rightarrow> errno + nat" where
  "pcStat have_stat = (if \<not> have_stat then Inl EINVAL else Inr VFS_FILETYPE_CHARACTER_DEVICE)"

definition pcDestroy :: "pipe_store \<Rightarrow> pipe_console option \<Rightarrow> pipe_store" where
  "pcDestroy store drv = (case drv of None \<Rightarrow> store | Some c \<Rightarrow> consoleDetach store c)"

definition VfsPipeConsoleCreate :: "bool \<Rightarrow> bool \<Rightarrow> pipe_store option \<Rightarrow> string option \<Rightarrow> bool \<Rightarrow> oflags \<Rightarrow>
    pipe_console option \<times> pipe_store option" where
  "VfsPipeConsoleCreate mem_drv mem_ctx store name for_read flags =
     (case (store, name) of
        (Some st, Some nm) \<Rightarrow>
          if nm = [] then (None, store)
          else if \<not> mem_drv then (None, store)
          else if \<not> mem_ctx then (None, store)
          else
            let c = \<lparr>c_name = strncpy_buf MAX_ENTRY_NAME_LEN nm, forRead = for_read,
                     c_flags = flags, c_wakeFd = -1\<rparr>
            in (Some c,
                case findOrAlloc st (c_name c) of
                  None \<Rightarrow> Some st
                | Some (i, st1) \<Rightarrow>
                    Some (upd_nth i (\<lambda>p. pipe_attach (\<not> for_read) (p\<lparr>persistent := True\<rparr>)) st1))
      | _ \<Rightarrow> (None, store))"

section \<open>The ring is a bounded FIFO\<close>

definition pipe_ok :: "named_pipe \<Rightarrow> bool" where
  "pipe_ok p \<longleftrightarrow> rpos p < length (pipe_buf p) \<and> data_len p \<le> length (pipe_buf p)"

definition pipe_data :: "named_pipe \<Rightarrow> byte list" where
  "pipe_data p = ring_list (pipe_buf p) (rpos p) (data_len p)"

definition ringPut :: "named_pipe \<Rightarrow> byte list \<Rightarrow> nat \<times> named_pipe" where
  "ringPut p src = (case ringWrite p src of (Inl _, p') \<Rightarrow> (0, p') | (Inr n, p') \<Rightarrow> (n, p'))"

lemma length_pipe_data [simp]: "length (pipe_data p) = data_len p"
  by (simp add: pipe_data_def)

lemma pipe_data_empty [simp]: "pipe_data p = [] \<longleftrightarrow> data_len p = 0"
  by (metis length_0_conv length_pipe_data)

lemma ringRead_eq:
  assumes "pipe_ok p"
  shows "ringRead p n =
    (take n (pipe_data p),
     p\<lparr>rpos := (rpos p + min n (data_len p)) mod length (pipe_buf p),
       data_len := data_len p - n\<rparr>)"
proof -
  have m: "(if n < data_len p then n else data_len p) = min n (data_len p)" by simp
  have "ring_list (pipe_buf p) (rpos p) (min n (data_len p)) = take n (pipe_data p)"
    by (simp add: pipe_data_def min_def take_ring_list)
  then show ?thesis
    using assms ring_copy_out[of "rpos p" "pipe_buf p" "min n (data_len p)"]
    by (simp add: ringRead_def Let_def m pipe_ok_def min.coboundedI2)
qed

lemma ringRead_ok: "pipe_ok p \<Longrightarrow> pipe_ok (snd (ringRead p n))"
  by (auto simp: ringRead_eq pipe_ok_def intro!: mod_less_divisor)

lemma ringRead_data: "pipe_ok p \<Longrightarrow> pipe_data (snd (ringRead p n)) = drop n (pipe_data p)"
  using drop_ring_list[of "min n (data_len p)" "data_len p" "pipe_buf p" "rpos p"]
  by (cases "n \<le> data_len p") (auto simp: ringRead_eq pipe_data_def min_def)

lemma ringWrite_eq:
  assumes "pipe_ok p"
  shows "ringWrite p src =
    (let n = min (length src) (length (pipe_buf p) - data_len p) in
     if n = 0 then (Inl EAGAIN, p)
     else (Inr n, p\<lparr>pipe_buf := ring_put (pipe_buf p)
              ((rpos p + data_len p) mod length (pipe_buf p)) src n,
            data_len := data_len p + n\<rparr>))"
proof -
  have m: "(if a < b then a else b) = min a b" for a b :: nat by simp
  show ?thesis unfolding ringWrite_def Let_def m ring_put_def by (simp cong: if_cong)
qed

lemma pipe_ok_buf: "pipe_ok p \<Longrightarrow> pipe_buf p \<noteq> []"
  by (auto simp: pipe_ok_def)

lemma ringWrite_ok: "pipe_ok p \<Longrightarrow> pipe_ok (snd (ringWrite p src))"
  using pipe_ok_buf[of p] by (auto simp: ringWrite_eq pipe_ok_def Let_def)

lemma ringWrite_data:
  assumes "pipe_ok p" "ringWrite p src = (Inr n, p')"
  shows "pipe_data p' = pipe_data p @ take n src" "length (pipe_buf p') = length (pipe_buf p)"
    "n = min (length src) (length (pipe_buf p) - data_len p)" "n > 0"
proof -
  note eq = ringWrite_eq[OF assms(1), of src]
  show n: "n = min (length src) (length (pipe_buf p) - data_len p)" and n0: "n > 0"
    using assms(2) eq by (auto simp: Let_def split: if_splits)
  have p': "p' = p\<lparr>pipe_buf := ring_put (pipe_buf p)
       ((rpos p + data_len p) mod length (pipe_buf p)) src n, data_len := data_len p + n\<rparr>"
    using assms(2) eq n by (auto simp: Let_def split: if_splits)
  have le: "data_len p + n \<le> length (pipe_buf p)" "n \<le> length src"
    using n assms(1) by (auto simp: pipe_ok_def)
  have "0 < length (pipe_buf p)" using assms(1) unfolding pipe_ok_def by linarith
  then show len: "length (pipe_buf p') = length (pipe_buf p)"
    using le by (simp add: p')
  show "pipe_data p' = pipe_data p @ take n src"
    using assms(1) ring_list_put[OF _ le, of "rpos p"]
    by (simp add: p' pipe_data_def pipe_ok_def)
qed

lemma ringWrite_fail: "pipe_ok p \<Longrightarrow> ringWrite p src = (Inl e, p') \<Longrightarrow>
    e = EAGAIN \<and> p' = p \<and> (src = [] \<or> data_len p = length (pipe_buf p))"
  by (auto simp: ringWrite_eq Let_def pipe_ok_def min_def split: if_splits)

interpretation pipe_ring: bounded_fifo pipe_ok pipe_data "\<lambda>p. length (pipe_buf p)" ringPut ringRead
proof
  fix q xs n q'
  assume ok: "pipe_ok q"
  show "length (pipe_data q) \<le> length (pipe_buf q)" using ok by (simp add: pipe_ok_def)
  assume put: "ringPut q xs = (n, q')"
  consider e where "ringWrite q xs = (Inl e, q')" "n = 0" | "ringWrite q xs = (Inr n, q')"
    using put by (auto simp: ringPut_def split: prod.splits sum.splits)
  then have "n = min (length xs) (length (pipe_buf q) - length (pipe_data q)) \<and>
      pipe_data q' = pipe_data q @ take n xs \<and> pipe_ok q' \<and>
      length (pipe_buf q') = length (pipe_buf q)"
  proof cases
    case 1 then show ?thesis using ringWrite_fail[OF ok 1(1)] ok by (auto simp: pipe_ok_def)
  next
    case 2 then show ?thesis using ringWrite_data[OF ok 2] ringWrite_ok[OF ok, of xs] by simp
  qed
  then show "n = min (length xs) (length (pipe_buf q) - length (pipe_data q))"
    "pipe_data q' = pipe_data q @ take n xs" "pipe_ok q' \<and> length (pipe_buf q') = length (pipe_buf q)"
    by auto
next
  fix q n d q'
  assume ok: "pipe_ok q" and get: "ringRead q n = (d, q')"
  show "d = take n (pipe_data q)" "pipe_data q' = drop n (pipe_data q)"
    "pipe_ok q' \<and> length (pipe_buf q') = length (pipe_buf q)"
    using ringRead_eq[OF ok, of n] ringRead_data[OF ok, of n] ringRead_ok[OF ok, of n] get by auto
qed

section \<open>Blocking calls\<close>

lemma wait_loop_done: "attempt st = (Some r, st1) \<Longrightarrow> wait_loop attempt nb dl envs st = Some (r, st1)"
  by (subst wait_loop.simps) simp

lemma wait_loop_nonblock:
  "attempt st = (None, st1) \<Longrightarrow> wait_loop attempt True dl envs st = Some (Inl EAGAIN, st1)"
  by (subst wait_loop.simps) simp

lemma wait_loop_returns:
  "\<exists>e\<in>set envs. pollExpired dl (env_clock e) \<Longrightarrow> wait_loop attempt nb dl envs st \<noteq> None"
proof (induction envs arbitrary: st)
  case (Cons e es)
  show ?case
  proof (cases "pollExpired dl (env_clock e)")
    case True
    then show ?thesis
      by (subst wait_loop.simps) (auto split: prod.splits option.splits)
  next
    case False
    then have "wait_loop attempt nb dl es st' \<noteq> None" for st'
      using Cons by auto
    then show ?thesis
      by (cases nb) (simp_all add: wait_loop.simps[of attempt _ dl "e # es" st] Let_def
          del: not_None_eq split: prod.splits option.splits)
  qed
qed simp

lemma wait_loop_result:
  "wait_loop attempt nb dl envs st = Some (r, st') \<Longrightarrow>
   r \<in> {Inl EAGAIN, Inl EINTR} \<or> (\<exists>st0. attempt st0 = (Some r, st'))"
proof (induction envs arbitrary: st)
  case Nil
  then show ?case
    by (subst (asm) wait_loop.simps) (auto split: prod.splits option.splits if_splits)
next
  case (Cons e es)
  show ?case
  proof (cases "attempt st")
    case (Pair a st1)
    with Cons show ?thesis
      by (subst (asm) wait_loop.simps)
        (auto simp: Let_def split: prod.splits option.splits if_splits)
  qed
qed

lemma writeAttempt_EAGAIN: "fst (writeAttempt i src st) \<noteq> Some (Inl EAGAIN)"
  by (auto simp: writeAttempt_def split: prod.splits)

lemma readAttempt_eq:
  "i < length st \<Longrightarrow> pipe_ok (st ! i) \<Longrightarrow> readAttempt i n st =
    (if pipe_data (st ! i) \<noteq> [] then
       (Some (Inr (take n (pipe_data (st ! i)))), st[i := snd (ringRead (st ! i) n)])
     else if pipe_eof (st ! i) then (Some (Inr []), st) else (None, st))"
  by (simp add: readAttempt_def Let_def ringRead_eq)

definition pipe_of :: "pipe_store \<Rightarrow> pipe_handle \<Rightarrow> nat \<Rightarrow> bool" where
  "pipe_of st h i \<longleftrightarrow> \<not> is_root h \<and> h_pipe h = Some i \<and> i < length st \<and> pipe_ok (st ! i)"

text \<open>C25: an interleaving of any reads and writes on a pipe loses, duplicates and reorders
  nothing: what was buffered plus everything accepted from writers is everything handed to
  readers plus what is still buffered.\<close>

theorem pipe_stream:
  assumes "pipe_ok p" and "fifo_run ringPut ringRead ops p = (written, got, p')"
  shows "pipe_data p @ written = got @ pipe_data p' \<and> data_len p' \<le> length (pipe_buf p)"
  using pipe_ring.run_stream[OF assms] pipe_ring.run_keeps[OF assms] by (auto simp: pipe_ok_def)

theorem pipe_stream_witness:
  "let p = (pipe_zero 4)\<lparr>active := True\<rparr>;
       ops = [Put [1, 2, 3], Get 2, Put [4, 5, 6, 7], Get 9] in
   pipe_ok p \<and> fst (fifo_run ringPut ringRead ops p) = [1, 2, 3, 4, 5, 6] \<and>
   pipe_data p @ fst (fifo_run ringPut ringRead ops p) =
     fst (snd (fifo_run ringPut ringRead ops p)) @ pipe_data (snd (snd (fifo_run ringPut ringRead ops p)))"
proof -
  have ok: "pipe_ok ((pipe_zero 4)\<lparr>active := True\<rparr>)" by (simp add: pipe_ok_def pipe_zero_def)
  have "fst (fifo_run ringPut ringRead [Put [1, 2, 3], Get 2, Put [4, 5, 6, 7], Get 9]
     ((pipe_zero 4)\<lparr>active := True\<rparr>)) = [1, 2, 3, 4, 5, 6]"
    by code_simp
  then show ?thesis
    using ok pipe_stream[OF ok, of "[Put [1, 2, 3], Get 2, Put [4, 5, 6, 7], Get 9]"]
    by (metis prod.collapse)
qed

text \<open>C26: a blocking pipe call returns once the clock reading of one of its waits is at or
  past the deadline, whatever the peers do, for the four blocking calls of the driver.\<close>

theorem pipe_calls_return:
  assumes "\<exists>e\<in>set envs. pollExpired (pollDeadline clk) (env_clock e)"
  shows "PipeDriver_Read clk envs st h n \<noteq> None \<and> PipeDriver_Write clk envs st h src \<noteq> None \<and>
    pcRead clk envs st c b n \<noteq> None \<and> pcWrite clk envs st c buf \<noteq> None"
  using assms
  by (simp add: wait_loop_returns PipeDriver_Read_def PipeDriver_Write_def pcRead_def pcWrite_def
      del: not_None_eq split: option.splits)

theorem pipe_calls_return_witness:
  "let e = \<lparr>env_peers = id, env_clock = Some 5000000007, env_eintr = False, env_wake = False\<rparr>;
       h = \<lparr>h_pipe = Some 0, h_flags = 0, is_root = False\<rparr> in
   PipeDriver_Read (Some 7) [e] [(pipe_zero 4)\<lparr>active := True\<rparr>] (Some h) 1 \<noteq> None"
  using pipe_calls_return[of "[\<lparr>env_peers = id, env_clock = Some 5000000007, env_eintr = False,
      env_wake = False\<rparr>]" "Some 7"]
  by (simp add: pollExpired_def pollDeadline_def PIPE_POLL_MAX_NS_def)

text \<open>C27: readiness mirrors what a read or write would do: on a reader, IN is reported exactly
  when a non-blocking read does not answer EAGAIN, and HUP exactly when it answers end of stream;
  on a writer, OUT exactly when a non-blocking write of at least one byte is taken.\<close>

theorem poll_mirrors_io:
  assumes "pipe_of st h i" "is_nonblock (h_flags h)" "n > 0" "src \<noteq> []"
  shows "(\<exists>bits. fst (pipePoll st (Some h) a) = Inr bits \<and>
     (if is_writer (h_flags h) then
        bits AND VFS_POLL_OUT \<noteq> 0 \<longleftrightarrow>
          map_option fst (PipeDriver_Write clk envs st (Some h) src) \<noteq> Some (Inl EAGAIN)
      else
        (bits AND VFS_POLL_IN \<noteq> 0 \<longleftrightarrow>
           map_option fst (PipeDriver_Read clk envs st (Some h) n) \<noteq> Some (Inl EAGAIN)) \<and>
        (bits AND VFS_POLL_HUP \<noteq> 0 \<longleftrightarrow>
           map_option fst (PipeDriver_Read clk envs st (Some h) n) = Some (Inr []))))"
proof -
  let ?p = "st ! i"
  from assms have h: "\<not> is_root h" "h_pipe h = Some i" "i < length st" "pipe_ok ?p"
    by (auto simp: pipe_of_def)
  have rd: "map_option fst (PipeDriver_Read clk envs st (Some h) n) =
      Some (if data_len ?p > 0 then Inr (take n (pipe_data ?p)) else
            if pipe_eof ?p then Inr [] else Inl EAGAIN)"
    using h assms(2) by (auto simp: PipeDriver_Read_def readAttempt_eq wait_loop_done
        wait_loop_nonblock)
  have wr: "map_option fst (PipeDriver_Write clk envs st (Some h) src) =
      Some (if data_len ?p < length (pipe_buf ?p) then
              Inr (min (length src) (length (pipe_buf ?p) - data_len ?p)) else Inl EAGAIN)"
    using h assms(2,4) ringWrite_eq[OF h(4), of src]
    by (auto simp: PipeDriver_Write_def writeAttempt_def Let_def wait_loop_done
        wait_loop_nonblock pipe_ok_def min_def)
  show ?thesis
    unfolding rd wr using h assms(3) by (auto simp: pipePoll_def ringPoll_def poll_consts)
qed

theorem poll_mirrors_io_witness:
  "let st = [(pipe_zero 4)\<lparr>active := True, writer_seen := True\<rparr>];
       h = \<lparr>h_pipe = Some 0, h_flags = 2048, is_root = False\<rparr> in
   pipe_of st h 0 \<and> \<not> is_writer (h_flags h) \<and>
   map_option fst (PipeDriver_Read None [] st (Some h) 1) = Some (Inr []) \<and>
   fst (pipePoll st (Some h) 0) = Inr 5"
proof -
  have "pipe_of [(pipe_zero 4)\<lparr>active := True, writer_seen := True\<rparr>]
     \<lparr>h_pipe = Some 0, h_flags = 2048, is_root = False\<rparr> 0"
    by (simp add: pipe_of_def pipe_ok_def pipe_zero_def)
  then show ?thesis
    using poll_mirrors_io[of "[(pipe_zero 4)\<lparr>active := True, writer_seen := True\<rparr>]"
      "\<lparr>h_pipe = Some 0, h_flags = 2048, is_root = False\<rparr>" 0 1 "[0]" 0 None "[]"]
    by (simp add: is_nonblock_def is_writer_def vfs_consts pipePoll_def ringPoll_def pipe_eof_def
        pipe_zero_def poll_consts)
qed

text \<open>A write of no bytes is never taken: whatever the ring holds, it answers EAGAIN or
  EINTR, and on a blocking handle only after the wait.\<close>

theorem pipe_zero_write_refused:
  assumes "PipeDriver_Write clk envs st (Some h) [] = Some (r, st')"
  shows "r \<in> {Inl EBADF, Inl EAGAIN, Inl EINTR}"
proof -
  have "writeAttempt i [] s = (None, s[i := s ! i])" for i s
    by (simp add: writeAttempt_def ringWrite_def Let_def)
  then show ?thesis using assms
    by (auto simp: PipeDriver_Write_def split: option.splits if_splits dest!: wait_loop_result)
qed

theorem pipe_zero_write_refused_witness:
  "let st = [(pipe_zero 4)\<lparr>active := True\<rparr>];
       h = \<lparr>h_pipe = Some 0, h_flags = 2049, is_root = False\<rparr> in
   map_option fst (PipeDriver_Write None [] st (Some h) []) = Some (Inl EAGAIN) \<and>
   fst (pipePoll st (Some h) 0) = Inr VFS_POLL_OUT"
proof -
  let ?st = "[(pipe_zero 4)\<lparr>active := True\<rparr>]"
  let ?h = "\<lparr>h_pipe = Some 0, h_flags = 2049, is_root = False\<rparr>"
  have "PipeDriver_Write None [] ?st (Some ?h) [] = Some (Inl EAGAIN, ?st)"
    by (simp add: PipeDriver_Write_def is_nonblock_def VFS_O_NONBLOCK_def wait_loop.simps
        writeAttempt_def ringWrite_def Let_def pipe_zero_def)
  moreover from pipe_zero_write_refused[OF this] have "Inl EAGAIN \<in> {Inl EBADF, Inl EAGAIN, Inl EINTR :: errno + nat}" .
  ultimately show ?thesis
    by (simp add: pipePoll_def ringPoll_def is_writer_def vfs_consts pipe_zero_def)
qed

section \<open>Handles and consoles keep their pipe\<close>

text \<open>
  The pipe store with every handle open on it in any wapp, each with the name it was
  opened by, and every console attached to it.  A step is one critical section.
\<close>

record pipe_sys =
  sys_store :: pipe_store
  sys_handles :: "(string \<times> pipe_handle) list"
  sys_consoles :: "pipe_console list"

inductive pipe_step :: "pipe_sys \<Rightarrow> pipe_sys \<Rightarrow> bool" where
  open_step: "PipeDriver_Open True st (Some nm) fl = (Inr h, st') \<Longrightarrow> \<not> is_root h \<Longrightarrow>
     length nm < MAX_ENTRY_NAME_LEN \<Longrightarrow>
     pipe_step \<lparr>sys_store = st, sys_handles = hs, sys_consoles = cs\<rparr>
       \<lparr>sys_store = st', sys_handles = (nm, h) # hs, sys_consoles = cs\<rparr>"
| close_step: "PipeDriver_Close st (Some h) = (Inr (), st') \<Longrightarrow>
     pipe_step \<lparr>sys_store = st, sys_handles = hs1 @ (nm, h) # hs2, sys_consoles = cs\<rparr>
       \<lparr>sys_store = st', sys_handles = hs1 @ hs2, sys_consoles = cs\<rparr>"
| read_step: "(nm, h) \<in> set hs \<Longrightarrow> h_pipe h = Some i \<Longrightarrow> readAttempt i n st = (r, st') \<Longrightarrow>
     pipe_step \<lparr>sys_store = st, sys_handles = hs, sys_consoles = cs\<rparr>
       \<lparr>sys_store = st', sys_handles = hs, sys_consoles = cs\<rparr>"
| write_step: "(nm, h) \<in> set hs \<Longrightarrow> h_pipe h = Some i \<Longrightarrow> writeAttempt i src st = (w, st') \<Longrightarrow>
     pipe_step \<lparr>sys_store = st, sys_handles = hs, sys_consoles = cs\<rparr>
       \<lparr>sys_store = st', sys_handles = hs, sys_consoles = cs\<rparr>"
| flags_step:
     "pipe_step \<lparr>sys_store = st, sys_handles = hs1 @ (nm, h) # hs2, sys_consoles = cs\<rparr>
       \<lparr>sys_store = st, sys_handles = hs1 @ (nm, h\<lparr>h_flags := set_nonblock (h_flags h) fl\<rparr>) # hs2,
        sys_consoles = cs\<rparr>"
| console_step: "VfsPipeConsoleCreate True True (Some st) (Some nm) rd fl = (Some c, Some st') \<Longrightarrow>
     findPipe st' (c_name c) \<noteq> None \<Longrightarrow>
     pipe_step \<lparr>sys_store = st, sys_handles = hs, sys_consoles = cs\<rparr>
       \<lparr>sys_store = st', sys_handles = hs, sys_consoles = c # cs\<rparr>"
| console_read_step: "c \<in> set cs \<Longrightarrow> pcReadAttempt (c_name c) n st = (r, st') \<Longrightarrow>
     pipe_step \<lparr>sys_store = st, sys_handles = hs, sys_consoles = cs\<rparr>
       \<lparr>sys_store = st', sys_handles = hs, sys_consoles = cs\<rparr>"
| console_write_step: "c \<in> set cs \<Longrightarrow> pcWriteAttempt (c_name c) src st = (w, st') \<Longrightarrow>
     pipe_step \<lparr>sys_store = st, sys_handles = hs, sys_consoles = cs\<rparr>
       \<lparr>sys_store = st', sys_handles = hs, sys_consoles = cs\<rparr>"
| destroy_step:
     "pipe_step \<lparr>sys_store = st, sys_handles = hs, sys_consoles = cs1 @ c # cs2\<rparr>
       \<lparr>sys_store = pcDestroy st (Some c), sys_handles = hs, sys_consoles = cs1 @ cs2\<rparr>"

inductive pipe_reach :: "nat \<Rightarrow> nat \<Rightarrow> pipe_sys \<Rightarrow> bool" for bufsize maxpipes where
  start: "PipeStoreNew True bufsize maxpipes = Some st \<Longrightarrow>
     pipe_reach bufsize maxpipes \<lparr>sys_store = st, sys_handles = [], sys_consoles = []\<rparr>"
| step: "pipe_reach bufsize maxpipes s \<Longrightarrow> pipe_step s t \<Longrightarrow> pipe_reach bufsize maxpipes t"

text \<open>How many handles and consoles hold slot \<open>i\<close> at its writing or reading end.\<close>

definition hcount :: "(string \<times> pipe_handle) list \<Rightarrow> nat \<Rightarrow> bool \<Rightarrow> nat" where
  "hcount hs i w = length (filter (\<lambda>(nm, h). h_pipe h = Some i \<and> is_writer (h_flags h) = w) hs)"

definition ccount :: "pipe_console list \<Rightarrow> string \<Rightarrow> bool \<Rightarrow> nat" where
  "ccount cs nm w = length (filter (\<lambda>c. c_name c = nm \<and> forRead c = (\<not> w)) cs)"

lemma hcount_simps [simp]:
  "hcount [] i w = 0"
  "hcount ((nm, h) # hs) i w = (if h_pipe h = Some i \<and> is_writer (h_flags h) = w then 1 else 0) + hcount hs i w"
  "hcount (hs1 @ hs2) i w = hcount hs1 i w + hcount hs2 i w"
  by (auto simp: hcount_def)

lemma ccount_simps [simp]:
  "ccount [] nm w = 0"
  "ccount (c # cs) nm w = (if c_name c = nm \<and> forRead c = (\<not> w) then 1 else 0) + ccount cs nm w"
  "ccount (cs1 @ cs2) nm w = ccount cs1 nm w + ccount cs2 nm w"
  by (auto simp: ccount_def)

definition slot_inv :: "(string \<times> pipe_handle) list \<Rightarrow> pipe_console list \<Rightarrow> nat \<Rightarrow> named_pipe \<Rightarrow> bool" where
  "slot_inv hs cs i p \<longleftrightarrow> pipe_ok p \<and>
     (active p \<longrightarrow> length (pipe_name p) < MAX_ENTRY_NAME_LEN \<and>
        writers p = int (hcount hs i True + ccount cs (pipe_name p) True) \<and>
        readers p = int (hcount hs i False + ccount cs (pipe_name p) False))"

definition handle_inv :: "pipe_store \<Rightarrow> string \<times> pipe_handle \<Rightarrow> bool" where
  "handle_inv st x \<longleftrightarrow> (case x of (nm, h) \<Rightarrow> \<not> is_root h \<and>
     (\<exists>i < length st. h_pipe h = Some i \<and> active (st ! i) \<and> pipe_name (st ! i) = nm))"

definition console_inv :: "pipe_store \<Rightarrow> pipe_console \<Rightarrow> bool" where
  "console_inv st c \<longleftrightarrow> (\<exists>i < length st. active (st ! i) \<and> pipe_name (st ! i) = c_name c)"

definition names_distinct :: "pipe_store \<Rightarrow> bool" where
  "names_distinct st \<longleftrightarrow> (\<forall>i < length st. \<forall>j < length st. active (st ! i) \<and> active (st ! j) \<and>
     pipe_name (st ! i) = pipe_name (st ! j) \<longrightarrow> i = j)"

definition store_inv :: "pipe_store \<Rightarrow> (string \<times> pipe_handle) list \<Rightarrow> pipe_console list \<Rightarrow> bool" where
  "store_inv st hs cs \<longleftrightarrow>
     (\<forall>i < length st. slot_inv hs cs i (st ! i)) \<and>
     list_all (handle_inv st) hs \<and> list_all (console_inv st) cs \<and> names_distinct st"

definition pipe_inv :: "pipe_sys \<Rightarrow> bool" where
  "pipe_inv s \<longleftrightarrow> store_inv (sys_store s) (sys_handles s) (sys_consoles s)"

lemmas inv_defs = store_inv_def slot_inv_def handle_inv_def console_inv_def names_distinct_def

lemma findPipe_SomeD:
  assumes "store_inv st hs cs" "findPipe st nm = Some i"
  shows "i < length st" "active (st ! i)" "pipe_name (st ! i) = nm"
proof -
  note f = find_idx_SomeD[OF assms(2)[unfolded findPipe_def]]
  then show "i < length st" "active (st ! i)" by auto
  with f assms(1) show "pipe_name (st ! i) = nm"
    by (auto simp: store_inv_def slot_inv_def strncmp_buf_eq)
qed

lemma findPipe_NoneD:
  "findPipe st nm = None \<Longrightarrow> i < length st \<Longrightarrow> active (st ! i) \<Longrightarrow> pipe_name (st ! i) \<noteq> nm"
  by (auto simp: findPipe_def find_idx_None)

lemma hcount_inactive: "list_all (handle_inv st) hs \<Longrightarrow> i < length st \<Longrightarrow> \<not> active (st ! i) \<Longrightarrow>
    hcount hs i w = 0"
  by (auto simp: hcount_def handle_inv_def list_all_iff filter_empty_conv)

lemma ccount_unnamed: "list_all (console_inv st) cs \<Longrightarrow>
    (\<And>i. i < length st \<Longrightarrow> active (st ! i) \<Longrightarrow> pipe_name (st ! i) \<noteq> nm) \<Longrightarrow> ccount cs nm w = 0"
  by (auto simp: ccount_def console_inv_def list_all_iff filter_empty_conv)

text \<open>Stores whose slots agree on name and activity hold the same handles and consoles.\<close>

definition same_shape :: "pipe_store \<Rightarrow> pipe_store \<Rightarrow> bool" where
  "same_shape st st' \<longleftrightarrow> length st' = length st \<and>
     (\<forall>j < length st. active (st' ! j) = active (st ! j) \<and> pipe_name (st' ! j) = pipe_name (st ! j))"

lemma same_shape_upd:
  "i < length st \<Longrightarrow> active p = active (st ! i) \<Longrightarrow> pipe_name p = pipe_name (st ! i) \<Longrightarrow>
   same_shape st (st[i := p])"
  by (simp add: same_shape_def nth_list_update)

lemma same_shape_inv:
  assumes "same_shape st st'"
  shows "handle_inv st' x = handle_inv st x" "console_inv st' c = console_inv st c"
    "names_distinct st' = names_distinct st"
  using assms by (auto simp: same_shape_def handle_inv_def console_inv_def names_distinct_def
      split: prod.splits)

lemma store_inv_shape:
  assumes "same_shape st st'"
  shows "store_inv st' hs cs \<longleftrightarrow> (\<forall>i < length st. slot_inv hs cs i (st' ! i)) \<and>
     list_all (handle_inv st) hs \<and> list_all (console_inv st) cs \<and> names_distinct st"
proof -
  have "handle_inv st' = handle_inv st" "console_inv st' = console_inv st"
    using same_shape_inv[OF assms] by (auto intro!: ext)
  moreover have "length st' = length st" using assms by (simp add: same_shape_def)
  ultimately show ?thesis using same_shape_inv(3)[OF assms] by (simp add: store_inv_def)
qed

lemma store_inv_data:
  assumes "store_inv st hs cs" "i < length st" "pipe_ok p"
    "pipe_name p = pipe_name (st ! i)" "active p = active (st ! i)"
    "writers p = writers (st ! i)" "readers p = readers (st ! i)"
  shows "store_inv (st[i := p]) hs cs"
  unfolding store_inv_shape[OF same_shape_upd[OF assms(2,5,4)]]
  using assms by (auto simp: store_inv_def slot_inv_def nth_list_update)

lemma pipe_attach_fields [simp]:
  "pipe_name (pipe_attach w p) = pipe_name p" "active (pipe_attach w p) = active p"
  "pipe_ok (pipe_attach w p) = pipe_ok p"
  "writers (pipe_attach w p) = writers p + (if w then 1 else 0)"
  "readers (pipe_attach w p) = readers p + (if w then 0 else 1)"
  by (simp_all add: pipe_attach_def pipe_ok_def)

lemma store_inv_attach_handle:
  assumes "store_inv st hs cs" "i < length st" "active (st ! i)" "pipe_name (st ! i) = nm"
    "h_pipe h = Some i" "\<not> is_root h"
  shows "store_inv (st[i := pipe_attach (is_writer (h_flags h)) (st ! i)]) ((nm, h) # hs) cs"
  unfolding store_inv_shape[OF same_shape_upd[OF assms(2) pipe_attach_fields(2,1)]]
  using assms by (auto simp: store_inv_def slot_inv_def handle_inv_def nth_list_update)

lemma store_inv_attach_console:
  assumes "store_inv st hs cs" "i < length st" "active (st ! i)" "pipe_name (st ! i) = c_name c"
    "p = pipe_attach (\<not> forRead c) ((st ! i)\<lparr>persistent := True\<rparr>)"
  shows "store_inv (st[i := p]) hs (c # cs)"
proof -
  have p: "active p = active (st ! i)" "pipe_name p = pipe_name (st ! i)"
    "pipe_ok p = pipe_ok (st ! i)" "writers p = writers (st ! i) + (if forRead c then 0 else 1)"
    "readers p = readers (st ! i) + (if forRead c then 1 else 0)"
    using assms(5) by (simp_all add: pipe_ok_def pipe_attach_def)
  have "pipe_name (st ! j) \<noteq> c_name c" if "j < length st" "j \<noteq> i" "active (st ! j)" for j
    using assms that by (auto simp: store_inv_def names_distinct_def)
  note other = this
  have "slot_inv hs (c # cs) j (st[i := p] ! j)" if "j < length st" for j
    using that assms(1-4) p other[of j]
    by (cases "j = i") (auto simp: store_inv_def slot_inv_def)
  then show ?thesis
    unfolding store_inv_shape[OF same_shape_upd[OF assms(2) p(1,2)]]
    using assms(1-4) by (auto simp: store_inv_def console_inv_def)
qed

lemma allocPipe_inv:
  assumes inv: "store_inv st hs cs" and new: "findPipe st nm = None"
    and al: "allocPipe st nm = Some (i, st')" and nm: "length nm < MAX_ENTRY_NAME_LEN"
  shows "store_inv st' hs cs" "i < length st'" "active (st' ! i)" "pipe_name (st' ! i) = nm"
proof -
  from al have i: "i < length st" "\<not> active (st ! i)"
    and st': "st' = st[i := (pipe_zero (length (pipe_buf (st ! i))))\<lparr>pipe_name := nm, active := True\<rparr>]"
    using nm by (auto simp: allocPipe_def strncpy_buf_fits split: option.splits dest!: find_idx_SomeD)
  then show "i < length st'" "active (st' ! i)" "pipe_name (st' ! i) = nm" by auto
  have h0: "hcount hs i w = 0" and c0: "ccount cs nm w = 0" for w
    using inv i hcount_inactive[of st hs i w] ccount_unnamed[of st cs nm w]
      findPipe_NoneD[OF new] by (auto simp: store_inv_def)
  have slots: "slot_inv hs cs j (st' ! j)" if "j < length st" for j
    using that inv i h0 c0 nm pipe_ok_buf[of "st ! i"]
    by (auto simp: st' nth_list_update store_inv_def slot_inv_def pipe_ok_def pipe_zero_def)
  have keep: "active (st' ! j) \<and> pipe_name (st' ! j) = pipe_name (st ! j)"
    if "j < length st" "active (st ! j)" for j
    using that i by (auto simp: st' nth_list_update)
  have len: "length st' = length st" by (simp add: st')
  have "handle_inv st x \<Longrightarrow> handle_inv st' x" for x
    using keep len by (fastforce simp: handle_inv_def split: prod.splits)
  moreover have "console_inv st c \<Longrightarrow> console_inv st' c" for c
    using keep len by (fastforce simp: console_inv_def)
  moreover have "names_distinct st'"
    using inv findPipe_NoneD[OF new] i
    by (auto simp: store_inv_def names_distinct_def st' nth_list_update)
  ultimately show "store_inv st' hs cs"
    using inv slots len by (auto simp: store_inv_def list_all_iff)
qed

lemma findOrAlloc_inv:
  assumes "store_inv st hs cs" "findOrAlloc st nm = Some (i, st')" "length nm < MAX_ENTRY_NAME_LEN"
  shows "store_inv st' hs cs" "i < length st'" "active (st' ! i)" "pipe_name (st' ! i) = nm"
  using assms findPipe_SomeD[OF assms(1), of nm i] allocPipe_inv[OF assms(1) _ _ assms(3), of i st']
  by (auto simp: findOrAlloc_def split: option.splits)

text \<open>A detach that leaves no holder and no data frees the slot; nobody names it any more.\<close>

lemma store_inv_release:
  assumes slots: "\<And>j. j < length st \<Longrightarrow> slot_inv hs cs j (st ! j)"
    and hs: "list_all (handle_inv st) hs" and cs: "list_all (console_inv st) cs"
    and dist: "names_distinct st" and i: "i < length st" "active (st ! i)"
  shows "store_inv (st[i := pipe_release (st ! i)]) hs cs"
proof (cases "writers (st ! i) \<le> 0 \<and> readers (st ! i) \<le> 0 \<and> data_len (st ! i) = 0")
  case False
  then show ?thesis using assms by (auto simp: pipe_release_def store_inv_def)
next
  case True
  let ?st = "st[i := (st ! i)\<lparr>active := False\<rparr>]"
  have z: "hcount hs i w = 0" "ccount cs (pipe_name (st ! i)) w = 0" for w
    using True slots[OF i(1)] i by (cases w; auto simp: slot_inv_def)+
  have slots': "slot_inv hs cs j (?st ! j)" if "j < length st" for j
    using slots[OF that] i by (cases "j = i") (auto simp: slot_inv_def pipe_ok_def)
  have nh: "h_pipe h \<noteq> Some i" if "(nm, h) \<in> set hs" for nm h
    using z(1)[of "is_writer (h_flags h)"] that by (auto simp: hcount_def filter_empty_conv)
  have nc: "c_name c \<noteq> pipe_name (st ! i)" if "c \<in> set cs" for c
    using z(2)[of "\<not> forRead c"] that by (auto simp: ccount_def filter_empty_conv)
  have "handle_inv ?st x" if xin: "x \<in> set hs" for x
  proof -
    obtain nm h where x: "x = (nm, h)" by (cases x)
    then obtain k where "k < length st" "h_pipe h = Some k" "active (st ! k)" "pipe_name (st ! k) = nm"
      "\<not> is_root h" using bspec[OF hs[unfolded list_all_iff] xin] by (auto simp: handle_inv_def)
    with nh[of nm h] xin x show ?thesis by (auto simp: handle_inv_def nth_list_update)
  qed
  moreover have "console_inv ?st c" if cin: "c \<in> set cs" for c
  proof -
    obtain k where "k < length st" "active (st ! k)" "pipe_name (st ! k) = c_name c"
      using bspec[OF cs[unfolded list_all_iff] cin] by (auto simp: console_inv_def)
    moreover from this nc[OF cin] have "k \<noteq> i" by auto
    ultimately show ?thesis unfolding console_inv_def by (intro exI[of _ k]) simp
  qed
  moreover have "names_distinct ?st"
    using dist i(1) unfolding names_distinct_def by (simp add: nth_list_update)
  ultimately show ?thesis
    using True slots' by (simp add: pipe_release_def store_inv_def list_all_iff)
qed

lemma store_inv_detach:
  assumes inv: "store_inv st hs cs" and i: "i < length st" "active (st ! i)"
    and p: "active p" "pipe_name p = pipe_name (st ! i)" "pipe_ok p"
    and slots: "\<And>j. j < length st \<Longrightarrow> slot_inv hs' cs' j (st[i := p] ! j)"
    and sub: "set hs' \<subseteq> set hs" "set cs' \<subseteq> set cs"
  shows "store_inv (st[i := pipe_release p]) hs' cs'"
proof -
  have act: "active p = active (st ! i)" using p(1) i by simp
  note sh = same_shape_inv[OF same_shape_upd[OF i(1) act p(2)]]
  have "store_inv ((st[i := p])[i := pipe_release (st[i := p] ! i)]) hs' cs'"
    by (rule store_inv_release) (use inv i p slots sub sh in \<open>auto simp: store_inv_def list_all_iff\<close>)
  then show ?thesis using i by simp
qed

lemma close_handle_inv:
  assumes inv: "store_inv st (hs1 @ (nm, h) # hs2) cs"
    and cl: "PipeDriver_Close st (Some h) = (Inr (), st')"
  shows "store_inv st' (hs1 @ hs2) cs"
proof -
  obtain i where i: "i < length st" "h_pipe h = Some i" "active (st ! i)" "\<not> is_root h"
    using inv by (auto simp: store_inv_def handle_inv_def)
  let ?p = "if is_writer (h_flags h) then (st ! i)\<lparr>writers := writers (st ! i) - 1\<rparr>
            else (st ! i)\<lparr>readers := readers (st ! i) - 1\<rparr>"
  have "store_inv (st[i := pipe_release ?p]) (hs1 @ hs2) cs"
  proof (rule store_inv_detach[OF inv i(1,3)])
    fix j assume j: "j < length st"
    then have "slot_inv (hs1 @ (nm, h) # hs2) cs j (st ! j)" using inv by (simp add: store_inv_def)
    then show "slot_inv (hs1 @ hs2) cs j (st[i := ?p] ! j)"
      using i j by (cases "j = i") (auto simp: slot_inv_def pipe_ok_def)
  qed (use inv i in \<open>auto simp: store_inv_def slot_inv_def pipe_ok_def\<close>)
  then show ?thesis using cl i by (auto simp: PipeDriver_Close_def pipe_detach_def upd_nth_def)
qed

lemma findPipe_console:
  assumes inv: "store_inv st hs cs" and "c \<in> set cs"
  obtains i where "findPipe st (c_name c) = Some i"
proof -
  obtain k where "k < length st" "active (st ! k)" "pipe_name (st ! k) = c_name c"
    using assms by (auto simp: store_inv_def list_all_iff console_inv_def)
  then show thesis using findPipe_NoneD[of st "c_name c" k] that by (cases "findPipe st (c_name c)") auto
qed

lemma consoleDetach_inv:
  assumes inv: "store_inv st hs (cs1 @ c # cs2)"
  shows "store_inv (consoleDetach st c) hs (cs1 @ cs2)"
proof -
  obtain i where fi: "findPipe st (c_name c) = Some i"
    using findPipe_console[OF inv, of c] by auto
  note i = findPipe_SomeD[OF inv fi]
  have si: "slot_inv hs (cs1 @ c # cs2) i (st ! i)" using inv i by (simp add: store_inv_def)
  let ?q = "\<lambda>p. if forRead c then (if readers p > 0 then p\<lparr>readers := readers p - 1\<rparr> else p)
     else if writers p > 0 then p\<lparr>writers := writers p - 1\<rparr> else p"
  have "store_inv (st[i := pipe_release (?q (st ! i))]) hs (cs1 @ cs2)"
  proof (rule store_inv_detach[OF inv i(1,2)])
    fix j assume j: "j < length st"
    then have sj: "slot_inv hs (cs1 @ c # cs2) j (st ! j)" using inv by (simp add: store_inv_def)
    show "slot_inv hs (cs1 @ cs2) j (st[i := ?q (st ! i)] ! j)"
    proof (cases "j = i")
      case True then show ?thesis using si i by (auto simp: slot_inv_def pipe_ok_def)
    next
      case False
      then have "active (st ! j) \<Longrightarrow> c_name c \<noteq> pipe_name (st ! j)"
        using inv i j by (auto simp: store_inv_def names_distinct_def)
      then show ?thesis using False sj by (auto simp: slot_inv_def)
    qed
  qed (use si i in \<open>auto simp: slot_inv_def pipe_ok_def\<close>)
  then show ?thesis using fi i by (simp add: consoleDetach_def upd_nth_def)
qed

lemma ring_fields:
  "pipe_name (snd (ringRead p n)) = pipe_name p" "active (snd (ringRead p n)) = active p"
  "writers (snd (ringRead p n)) = writers p" "readers (snd (ringRead p n)) = readers p"
  "pipe_name (snd (ringWrite p src)) = pipe_name p" "active (snd (ringWrite p src)) = active p"
  "writers (snd (ringWrite p src)) = writers p" "readers (snd (ringWrite p src)) = readers p"
  by (simp_all add: ringRead_def ringWrite_def Let_def)

lemma io_inv:
  assumes "store_inv st hs cs" "i < length st"
  shows "store_inv (snd (readAttempt i n st)) hs cs" "store_inv (snd (writeAttempt i src st)) hs cs"
proof -
  have ok: "pipe_ok (st ! i)" using assms by (simp add: store_inv_def slot_inv_def)
  show "store_inv (snd (readAttempt i n st)) hs cs"
    using assms store_inv_data[OF assms ringRead_ok[OF ok]]
    by (simp add: readAttempt_def split_beta Let_def ring_fields)
  show "store_inv (snd (writeAttempt i src st)) hs cs"
    using store_inv_data[OF assms ringWrite_ok[OF ok]]
    by (simp add: writeAttempt_def split_beta ring_fields)
qed

lemma is_writer_set_nonblock [simp]: "is_writer (set_nonblock fl fl') = is_writer fl"
proof -
  have "set_nonblock fl fl' AND 3 = fl AND 3"
    by (rule bit_word_eqI) (auto simp: set_nonblock_def vfs_consts bit_simps bit_numeral_rec split: nat.splits)
  then show ?thesis by (simp add: is_writer_def)
qed

lemma flags_inv:
  assumes "store_inv st (hs1 @ (nm, h) # hs2) cs"
  shows "store_inv st (hs1 @ (nm, h\<lparr>h_flags := set_nonblock (h_flags h) fl\<rparr>) # hs2) cs"
  using assms by (simp add: inv_defs)
 
lemma pipe_step_inv:
  assumes "pipe_step s t" "pipe_inv s"
  shows "pipe_inv t"
  using assms
proof (cases rule: pipe_step.cases)
  case (open_step st nm fl h st' hs cs)
  then obtain i st1 where fa: "findOrAlloc st nm = Some (i, st1)"
    and h: "h = \<lparr>h_pipe = Some i, h_flags = fl, is_root = False\<rparr>"
    and st': "st' = upd_nth i (pipe_attach (is_writer fl)) st1"
    by (auto simp: PipeDriver_Open_def split: if_splits option.splits)
  have inv: "store_inv st hs cs" using assms(2) open_step by (simp add: pipe_inv_def)
  note f = findOrAlloc_inv[OF inv fa open_step(5)]
  show ?thesis
    using store_inv_attach_handle[OF f, of h] f(2) h open_step(2) by (simp add: pipe_inv_def st' upd_nth_def)
next
  case (close_step st h st' hs1 nm hs2 cs)
  then show ?thesis using assms(2) close_handle_inv by (simp add: pipe_inv_def)
next
  case (read_step nm h hs i n st r st' cs)
  then show ?thesis using assms(2) io_inv(1)[of st hs cs i n]
    by (fastforce simp: pipe_inv_def store_inv_def list_all_iff handle_inv_def)
next
  case (write_step nm h hs i src st w st' cs)
  then show ?thesis using assms(2) io_inv(2)[of st hs cs i src]
    by (fastforce simp: pipe_inv_def store_inv_def list_all_iff handle_inv_def)
next
  case (flags_step st hs1 nm h hs2 cs fl)
  then show ?thesis using assms(2) flags_inv by (simp add: pipe_inv_def)
next
  case (console_step st nm rd fl c st' hs cs)
  have inv: "store_inv st hs cs" using assms(2) console_step by (simp add: pipe_inv_def)
  obtain i st1 where fa: "findOrAlloc st (c_name c) = Some (i, st1)"
    and st': "st' = upd_nth i (\<lambda>p. pipe_attach (\<not> rd) (p\<lparr>persistent := True\<rparr>)) st1"
    and c: "forRead c = rd" "length (c_name c) < MAX_ENTRY_NAME_LEN"
    using console_step(3,4)
    by (auto simp: VfsPipeConsoleCreate_def Let_def findOrAlloc_def length_strncpy_buf MAX_ENTRY_NAME_LEN_def
        split: if_splits option.splits)
  note f = findOrAlloc_inv[OF inv fa c(2)]
  show ?thesis using store_inv_attach_console[OF f refl] f(2) c console_step(2)
    by (simp add: pipe_inv_def st' upd_nth_def)
next
  case (console_read_step c cs n st r st' hs)
  then have inv: "store_inv st hs cs" using assms(2) by (simp add: pipe_inv_def)
  show ?thesis using console_read_step inv io_inv(1)[OF inv] findPipe_SomeD(1)[OF inv]
    by (auto simp: pipe_inv_def pcReadAttempt_def split: option.splits) (metis snd_conv)
next
  case (console_write_step c cs src st w st' hs)
  then have inv: "store_inv st hs cs" using assms(2) by (simp add: pipe_inv_def)
  obtain i where "findPipe st (c_name c) = Some i" 
    using findPipe_console[OF inv console_write_step(3)] by blast
  then show ?thesis using console_write_step inv io_inv(2)[OF inv] findPipe_SomeD(1)[OF inv]
    by (auto simp: pipe_inv_def pcWriteAttempt_def findOrAlloc_def) (metis snd_conv)
next
  case (destroy_step st hs cs1 c cs2)
  then show ?thesis using assms(2) consoleDetach_inv by (simp add: pipe_inv_def pcDestroy_def)
qed

lemma pipe_reach_inv: "pipe_reach bufsize maxpipes s \<Longrightarrow> bufsize > 0 \<Longrightarrow> pipe_inv s"
proof (induction rule: pipe_reach.induct)
  case (start st)
  then show ?case by (auto simp: pipe_inv_def inv_defs PipeStoreNew_def pipe_zero_def pipe_ok_def split: if_splits)
next
  case (step s t)
  then show ?case using pipe_step_inv by blast
qed


text \<open>Two wapps open \<open>a\<close> at either end: one slot, one writer, one reader.\<close>

definition demo_handle :: "oflags \<Rightarrow> pipe_handle" where
  "demo_handle fl = \<lparr>h_pipe = Some 0, h_flags = fl, is_root = False\<rparr>"

definition demo_store1 :: pipe_store where
  "demo_store1 = snd (PipeDriver_Open True (the (PipeStoreNew True 4 2)) (Some ''a'') VFS_O_WRONLY)"

definition demo_store2 :: pipe_store where
  "demo_store2 = snd (PipeDriver_Open True demo_store1 (Some ''a'') VFS_O_RDONLY)"

definition demo_sys :: pipe_sys where
  "demo_sys = \<lparr>sys_store = demo_store2,
     sys_handles = [(''a'', demo_handle VFS_O_RDONLY), (''a'', demo_handle VFS_O_WRONLY)], sys_consoles = []\<rparr>"

lemma demo_reach: "pipe_reach 4 2 demo_sys"
proof -
  let ?st0 = "the (PipeStoreNew True 4 2)"
  have r1: "PipeDriver_Open True ?st0 (Some ''a'') VFS_O_WRONLY = (Inr (demo_handle VFS_O_WRONLY), demo_store1)"
    by code_simp
  have r2: "PipeDriver_Open True demo_store1 (Some ''a'') VFS_O_RDONLY = (Inr (demo_handle VFS_O_RDONLY), demo_store2)"
    by code_simp
  have "pipe_reach 4 2 \<lparr>sys_store = ?st0, sys_handles = [], sys_consoles = []\<rparr>"
    by (rule pipe_reach.start) (simp add: PipeStoreNew_def)
  from pipe_reach.step[OF pipe_reach.step[OF this open_step[OF r1]] open_step[OF r2]]
  show ?thesis by (simp add: demo_sys_def demo_handle_def MAX_ENTRY_NAME_LEN_def)
qed


lemma findPipe_overlong:
  assumes "length nm \<ge> MAX_ENTRY_NAME_LEN" "\<And>p. p \<in> set st \<Longrightarrow> length (pipe_name p) < MAX_ENTRY_NAME_LEN"
  shows "findPipe st nm = None"
proof -
  have "take MAX_ENTRY_NAME_LEN (pipe_name p) \<noteq> take MAX_ENTRY_NAME_LEN nm" if "p \<in> set st" for p
    using assms(1) assms(2)[OF that] by (auto dest: arg_cong[of _ _ length])
  then show ?thesis by (auto simp: findPipe_def find_idx_None strncmp_eq_0)
qed

text \<open>
  A pipe name of \<open>MAX_ENTRY_NAME_LEN\<close> characters or more never rendezvous: the slot keeps the
  truncated name, which the lookup tells apart from the full one, so the reader's open of the
  name the writer just opened gets another slot.
\<close>

theorem pipe_overlong_name_splits:
  assumes "length nm \<ge> MAX_ENTRY_NAME_LEN"
    "\<forall>p \<in> set st. length (pipe_name p) < MAX_ENTRY_NAME_LEN"
    "PipeDriver_Open True st (Some nm) VFS_O_WRONLY = (Inr hw, st1)"
    "PipeDriver_Open True st1 (Some nm) VFS_O_RDONLY = (Inr hr, st2)"
  shows "\<exists>i j. h_pipe hw = Some i \<and> h_pipe hr = Some j \<and> i \<noteq> j"
proof -
  have nm: "nm \<noteq> []" "nm \<noteq> ''/''" using assms(1) by (auto simp: MAX_ENTRY_NAME_LEN_def)
  have f1: "findPipe st nm = None" using findPipe_overlong assms(1,2) by blast
  obtain i st0 where i: "allocPipe st nm = Some (i, st0)" "h_pipe hw = Some i"
    and st1: "st1 = upd_nth i (pipe_attach (is_writer VFS_O_WRONLY)) st0"
    using assms(3) nm f1 by (auto simp: PipeDriver_Open_def findOrAlloc_def split: if_splits option.splits)
  have st0: "i < length st" "length st0 = length st" "active (st0 ! i)"
    "\<And>p. p \<in> set st0 \<Longrightarrow> length (pipe_name p) < MAX_ENTRY_NAME_LEN"
    using i(1) assms(2)
    by (auto simp: allocPipe_def cstr_simps MAX_ENTRY_NAME_LEN_def split: option.splits dest!: find_idx_SomeD set_update_subset_insert[THEN subsetD])
  have f2: "findPipe st1 nm = None"
    using st0 by (intro findPipe_overlong assms(1)) (auto simp: st1 upd_nth_def dest!: set_update_subset_insert[THEN subsetD])
  obtain j where j: "find_idx (\<lambda>p. \<not> active p) st1 = Some j" "h_pipe hr = Some j"
    using assms(4) nm f2 by (auto simp: PipeDriver_Open_def findOrAlloc_def allocPipe_def split: if_splits option.splits)
  have "active (st1 ! i)" using st0 by (simp add: st1 upd_nth_def)
  then show ?thesis using find_idx_SomeD[OF j(1)] i j by auto
qed

theorem pipe_overlong_name_splits_witness:
  "let nm = replicate 32 (CHR ''x''); st = the (PipeStoreNew True 1 2);
       (rw, st1) = PipeDriver_Open True st (Some nm) VFS_O_WRONLY;
       (rr, st2) = PipeDriver_Open True st1 (Some nm) VFS_O_RDONLY
   in \<exists>i j. h_pipe (projr rw) = Some i \<and> h_pipe (projr rr) = Some j \<and> i \<noteq> j"
proof -
  let ?nm = "replicate 32 (CHR ''x'')" and ?st = "the (PipeStoreNew True 1 2)"
  let ?o1 = "PipeDriver_Open True ?st (Some ?nm) VFS_O_WRONLY"
  let ?o2 = "PipeDriver_Open True (snd ?o1) (Some ?nm) VFS_O_RDONLY"
  have l: "length ?nm \<ge> MAX_ENTRY_NAME_LEN" by (simp add: MAX_ENTRY_NAME_LEN_def)
  have st: "\<forall>p \<in> set ?st. length (pipe_name p) < MAX_ENTRY_NAME_LEN" by code_simp
  have o1: "?o1 = (Inr (projr (fst ?o1)), snd ?o1)" by code_simp
  have o2: "?o2 = (Inr (projr (fst ?o2)), snd ?o2)" by code_simp
  show ?thesis unfolding Let_def split_beta by (rule pipe_overlong_name_splits[OF l st o1 o2])
qed

text \<open>
  A console whose attach found the store full still detaches by name when it is destroyed.
  With one slot: the console \<open>log\<close> is created while \<open>b\<close> holds the slot, \<open>b\<close> is closed, a wapp
  opens \<open>log\<close>, and destroying the console takes that wapp's reference: the slot is recycled
  for \<open>x\<close> while the wapp's handle still points at it.
\<close>

theorem pipe_unattached_console_detaches:
  "let (rb, st1) = PipeDriver_Open True (the (PipeStoreNew True 4 1)) (Some ''b'') VFS_O_WRONLY;
       (c, st2) = VfsPipeConsoleCreate True True (Some st1) (Some ''log'') False VFS_O_WRONLY;
       (_, st3) = PipeDriver_Close (the st2) (Some (projr rb));
       (rl, st4) = PipeDriver_Open True st3 (Some ''log'') VFS_O_WRONLY;
       st5 = pcDestroy st4 c;
       (rx, st6) = PipeDriver_Open True st5 (Some ''x'') VFS_O_RDONLY
   in c \<noteq> None \<and> h_pipe (projr rl) = Some 0 \<and> pipe_name (st4 ! 0) = ''log'' \<and>
      h_pipe (projr rx) = Some 0 \<and> pipe_name (st6 ! 0) = ''x''"
  by code_simp

end
