(* ===== verification/LogStore.thy ===== *)
theory LogStore
  imports RingBuffer
begin

text \<open>
  The per-wapp log rings of \<open>src/log-store.c\<close>: a table of rings keyed by wapp name with
  least-recently-used eviction, line stamps, and the engine's own log mirrored into two halves
  of memory a reset does not clear.

  The table is a list of \<open>CONFIG_WANTED_LOG_SLOTS\<close> slots, each with a buffer of
  \<open>CONFIG_WANTED_LOG_CAP\<close> characters.  \<open>pmem\<close> is the persistent region; it belongs to the platform
  and outlives the store, which touches it only while \<open>adopted\<close> (the code's \<open>phdr != NULL\<close>).
  The readings of the monotonic clock are arguments.
\<close>

section \<open>Model\<close>

definition WANTED_ENGINE_LOG_NAME :: string where "WANTED_ENGINE_LOG_NAME = ''.engine''"

definition WANTED_PREV_LOG_NAME :: string where "WANTED_PREV_LOG_NAME = ''.engine.prev''"

definition LOG_STAMP_MAX :: nat where "LOG_STAMP_MAX = 26"

definition NS_PER_MS :: u64 where "NS_PER_MS = 1000000"

definition PERSIST_MAGIC :: u32 where "PERSIST_MAGIC = 0x574c4f47"

record log_slot =
  l_name :: string
  l_buf :: string
  l_start :: nat
  l_len :: nat
  l_tick :: u64
  l_used :: bool
  l_mid_line :: bool

record persist_mem =
  pm_magic :: u32
  pm_live :: u32
  pm_len :: "u32 list"
  pm_half :: "string list"

record log_store =
  slots :: "log_slot list"
  l_clock :: u64
  adopted :: bool
  pmem :: persist_mem
  pcap :: nat
  prev_valid :: bool

definition LogStoreUptimeInit :: "u64 option \<Rightarrow> u64 \<Rightarrow> u64" where
  "LogStoreUptimeInit now origin = (case now of Some t \<Rightarrow> t | None \<Rightarrow> origin)"

definition LogStoreUptimeMs :: "u64 \<Rightarrow> u64 option \<Rightarrow> u64" where
  "LogStoreUptimeMs origin now =
     (case now of
        None \<Rightarrow> 0
      | Some t \<Rightarrow> if t < origin then 0 else (t - origin) div NS_PER_MS)"

definition stamp :: "u64 \<Rightarrow> u64 option \<Rightarrow> nat \<Rightarrow> string" where
  "stamp origin now cap =
     (let s = ''[+'' @ dec_string (unat (LogStoreUptimeMs origin now)) @ ''] ''
      in if length s < cap then s else [])"

text \<open>\<open>memset(sl, 0, sizeof(*sl))\<close> of a slot whose buffer has \<open>cap\<close> characters.\<close>

definition slot_zero :: "nat \<Rightarrow> log_slot" where
  "slot_zero cap = \<lparr>l_name = [], l_buf = replicate cap (CHR 0x00), l_start = 0, l_len = 0,
     l_tick = 0, l_used = False, l_mid_line = False\<rparr>"

text \<open>The store on its first use after a reset; the region is as the reset left it.\<close>

definition LogStore_new :: "nat \<Rightarrow> nat \<Rightarrow> persist_mem \<Rightarrow> log_store" where
  "LogStore_new nslots cap pm = \<lparr>slots = replicate nslots (slot_zero cap), l_clock = 0,
     adopted = False, pmem = pm, pcap = 0, prev_valid = False\<rparr>"

definition LogStore :: "bool \<Rightarrow> nat \<Rightarrow> nat \<Rightarrow> persist_mem \<Rightarrow> log_store option \<Rightarrow> log_store option" where
  "LogStore mem nslots cap pm store =
     (case store of
        Some s \<Rightarrow> Some s
      | None \<Rightarrow> if mem then Some (LogStore_new nslots cap pm) else None)"

text \<open>The loop of \<open>slot_for\<close>: \<open>Inl\<close> the slot that has the name, or \<open>Inr\<close> the first free slot and the
  least recently used one.\<close>

function slot_scan ::
    "log_slot list \<Rightarrow> string \<Rightarrow> nat \<Rightarrow> nat option \<Rightarrow> nat \<Rightarrow> nat + (nat option \<times> nat)" where
  "slot_scan sls name i free_idx lru_idx =
     (if i < length sls then
        if l_used (sls ! i) then
          if strncmp WAPP_MAX_NAME_LEN (l_name (sls ! i)) name = 0 then Inl i
          else slot_scan sls name (Suc i) free_idx
                 (if l_tick (sls ! i) < l_tick (sls ! lru_idx) then i else lru_idx)
        else slot_scan sls name (Suc i) (if free_idx = None then Some i else free_idx) lru_idx
      else Inr (free_idx, lru_idx))"
  by pat_completeness auto
termination by (relation "measure (\<lambda>(sls, name, i, f, l). length sls - i)") auto

definition slot_for :: "log_store \<Rightarrow> string \<Rightarrow> nat \<times> log_store" where
  "slot_for s name =
     (let tick = l_clock s + 1 in
      case slot_scan (slots s) name 0 None 0 of
        Inl i \<Rightarrow> (i, s\<lparr>slots := upd_nth i (l_tick_update (\<lambda>_. tick)) (slots s), l_clock := tick\<rparr>)
      | Inr (free_idx, lru_idx) \<Rightarrow>
          let i = (case free_idx of Some f \<Rightarrow> f | None \<Rightarrow> lru_idx) in
          (i, s\<lparr>slots := upd_nth i (\<lambda>sl. (slot_zero (length (l_buf sl)))
                 \<lparr>l_name := strncpy_buf WAPP_MAX_NAME_LEN name, l_tick := tick, l_used := True\<rparr>) (slots s),
               l_clock := tick\<rparr>))"

definition persistAppend :: "log_store \<Rightarrow> string \<Rightarrow> log_store" where
  "persistAppend s p0 =
     (if \<not> adopted s \<or> p0 = [] then s
      else
        let pm = pmem s; live = unat (pm_live pm);
            dst0 = pm_half pm ! live; used0 = unat (pm_len pm ! live); n0 = length p0;
            (p, n, used1) = (if n0 \<ge> pcap s then (drop (n0 - pcap s) p0, pcap s, 0) else (p0, n0, used0));
            (dst1, used2) =
              (if used1 + n > pcap s then
                 let cut = used1 + n - pcap s
                 in (memcpy_at dst0 0 (drop cut dst0) (used1 - cut), used1 - cut)
               else (dst0, used1))
        in s\<lparr>pmem := pm\<lparr>pm_half := (pm_half pm)[live := memcpy_at dst1 used2 p n],
                       pm_len := (pm_len pm)[live := of_nat (used2 + n)]\<rparr>\<rparr>)"

definition slotPush1 :: "log_slot \<Rightarrow> char \<Rightarrow> log_slot" where
  "slotPush1 sl c =
     (let sl1 = sl\<lparr>l_buf := (l_buf sl)[(l_start sl + l_len sl) mod length (l_buf sl) := c]\<rparr>
      in if l_len sl < length (l_buf sl) then sl1\<lparr>l_len := l_len sl + 1\<rparr>
         else sl1\<lparr>l_start := (l_start sl + 1) mod length (l_buf sl)\<rparr>)"

definition slotPush :: "log_slot \<Rightarrow> string \<Rightarrow> log_slot" where
  "slotPush sl p = foldl slotPush1 sl p"

text \<open>One \<open>slotPush\<close> with its mirroring: what the append loop does with a stamp and with a run.\<close>

definition push_piece :: "bool \<Rightarrow> nat \<Rightarrow> log_store \<Rightarrow> string \<Rightarrow> log_store" where
  "push_piece engine i s p =
     (let s1 = s\<lparr>slots := upd_nth i (\<lambda>sl. slotPush sl p) (slots s)\<rparr>
      in if engine then persistAppend s1 p else s1)"

definition set_mid_line :: "nat \<Rightarrow> bool \<Rightarrow> log_store \<Rightarrow> log_store" where
  "set_mid_line i b s = s\<lparr>slots := upd_nth i (l_mid_line_update (\<lambda>_. b)) (slots s)\<rparr>"

text \<open>The run up to and including the next newline.\<close>

definition line_run :: "string \<Rightarrow> string" where
  "line_run str = (let r = length (takeWhile (\<lambda>c. c \<noteq> CHR 0x0A) str)
                   in take (if r < length str then Suc r else r) str)"

lemma line_run_Nil [simp]: "line_run str = [] \<longleftrightarrow> str = []"
  by (cases str) (auto simp: line_run_def Let_def)

lemma line_run_less: "str \<noteq> [] \<Longrightarrow> length str - length (line_run str) < length str"
  by (simp add: diff_less del: length_greater_0_conv flip: neq0_conv)

text \<open>The append loop over the rest \<open>str\<close> of the buffer; \<open>nows k\<close> is the clock at the \<open>k\<close>-th stamp.\<close>

function append_loop ::
    "u64 \<Rightarrow> (nat \<Rightarrow> u64 option) \<Rightarrow> bool \<Rightarrow> nat \<Rightarrow> nat \<Rightarrow> string \<Rightarrow> log_store \<Rightarrow> log_store" where
  "append_loop origin nows engine i k str s =
     (if str = [] then s
      else
        let (s1, k1) =
              (if l_mid_line (slots s ! i) then (s, k)
               else (set_mid_line i True (push_piece engine i s (stamp origin (nows k) LOG_STAMP_MAX)), Suc k));
            run = line_run str;
            s2 = (if last run = CHR 0x0A then set_mid_line i False s1 else s1)
        in append_loop origin nows engine i k1 (drop (length run) str) (push_piece engine i s2 run))"
  by pat_completeness auto
termination
  by (relation "measure (\<lambda>(origin, nows, e, i, k, str, s). length str)") (auto simp: line_run_less)

declare append_loop.simps [simp del] slot_scan.simps [simp del]

definition LogStoreAppend :: "u64 \<Rightarrow> (nat \<Rightarrow> u64 option) \<Rightarrow> log_store option \<Rightarrow> string option \<Rightarrow>
    string option \<Rightarrow> log_store option" where
  "LogStoreAppend origin nows s name buf =
     (case (s, name, buf) of
        (Some st, Some nm, Some str) \<Rightarrow>
          if str = [] then s
          else
            let engine = (strncmp WAPP_MAX_NAME_LEN nm WANTED_ENGINE_LOG_NAME = 0);
                (i, st1) = slot_for st nm
            in Some (append_loop origin nows engine i 0 str st1)
      | _ \<Rightarrow> s)"

definition LogStoreRead :: "log_store option \<Rightarrow> string option \<Rightarrow> bool \<Rightarrow> nat \<Rightarrow> nat \<Rightarrow>
    string \<times> log_store option" where
  "LogStoreRead s name have_out cap offset =
     (case (s, name) of
        (Some st, Some nm) \<Rightarrow>
          if \<not> have_out \<or> cap = 0 then ([], s)
          else if strncmp WAPP_MAX_NAME_LEN nm WANTED_PREV_LOG_NAME = 0 then
            (if prev_valid st \<and> adopted st then
               let other = (if pm_live (pmem st) = 0 then 1 else 0);
                   have_n = unat (pm_len (pmem st) ! other)
               in if offset < have_n then
                    let avail = have_n - offset; copied = (if avail < cap then avail else cap)
                    in take copied (drop offset (pm_half (pmem st) ! other))
                  else []
             else [], s)
          else
            (case find_idx (\<lambda>sl. l_used sl \<and> strncmp WAPP_MAX_NAME_LEN (l_name sl) nm = 0) (slots st) of
               None \<Rightarrow> ([], s)
             | Some i \<Rightarrow>
                 let sl = slots st ! i; tick = l_clock st + 1;
                     st1 = st\<lparr>slots := upd_nth i (l_tick_update (\<lambda>_. tick)) (slots st), l_clock := tick\<rparr>
                 in (if offset < l_len sl then
                       let avail = l_len sl - offset; m = (if avail < cap then avail else cap)
                       in map (\<lambda>j. l_buf sl ! ((l_start sl + offset + j) mod length (l_buf sl))) [0..<m]
                     else [], Some st1))
      | _ \<Rightarrow> ([], s))"

definition LogStoreHas :: "log_store option \<Rightarrow> string option \<Rightarrow> bool" where
  "LogStoreHas s name =
     (case (s, name) of
        (Some st, Some nm) \<Rightarrow>
          if strncmp WAPP_MAX_NAME_LEN nm WANTED_PREV_LOG_NAME = 0 then prev_valid st \<and> adopted st
          else find_idx (\<lambda>sl. l_used sl \<and> strncmp WAPP_MAX_NAME_LEN (l_name sl) nm = 0) (slots st) \<noteq> None
      | _ \<Rightarrow> False)"

definition LogStoreList :: "log_store option \<Rightarrow> bool \<Rightarrow> nat \<Rightarrow> string list" where
  "LogStoreList s have_names max_n =
     (case s of
        None \<Rightarrow> []
      | Some st \<Rightarrow>
          if \<not> have_names \<or> max_n = 0 then []
          else
            let prev = (if prev_valid st \<and> adopted st
                        then [strncpy_buf WAPP_MAX_NAME_LEN WANTED_PREV_LOG_NAME] else [])
            in prev @ take (max_n - length prev)
                 (map (\<lambda>sl. strncpy_buf WAPP_MAX_NAME_LEN (l_name sl)) (filter l_used (slots st))))"

definition WantedLogCapture ::
    "u64 \<Rightarrow> (nat \<Rightarrow> u64 option) \<Rightarrow> log_store option \<Rightarrow> string \<Rightarrow> log_store option" where
  "WantedLogCapture origin nows s str = LogStoreAppend origin nows s (Some WANTED_ENGINE_LOG_NAME) (Some str)"

text \<open>\<open>avail\<close>: the platform has a region of the size two halves of \<open>cap\<close> need; \<open>reason\<close>: the reset
  reason, at most 23 characters in the caller's buffer.\<close>

definition LogStorePersistInit :: "u64 \<Rightarrow> (nat \<Rightarrow> u64 option) \<Rightarrow> bool \<Rightarrow> nat \<Rightarrow> string \<Rightarrow>
    log_store option \<Rightarrow> log_store option" where
  "LogStorePersistInit origin nows avail cap reason s =
     (case s of
        None \<Rightarrow> None
      | Some st \<Rightarrow>
          if adopted st \<or> cap = 0 then s
          else if \<not> avail then s
          else
            let h = pmem st;
                (h1, pv) =
                  (if pm_magic h \<noteq> PERSIST_MAGIC \<or> pm_live h > 1 then
                     (h\<lparr>pm_magic := PERSIST_MAGIC, pm_live := 0, pm_len := [0, 0]\<rparr>, False)
                   else
                     let live' = (if pm_live h = 0 then 1 else 0) in
                     (h\<lparr>pm_live := live', pm_len := (pm_len h)[unat live' := 0]\<rparr>,
                      unat (pm_len h ! unat (pm_live h)) \<le> cap));
                s1 = Some (st\<lparr>adopted := True, pmem := h1, pcap := cap, prev_valid := pv\<rparr>)
            in if reason \<noteq> [] then
                 WantedLogCapture origin nows s1
                   (''wanted: boot after '' @ strncpy_buf 24 reason @ [CHR 0x0A])
               else s1)"

definition LogStorePersistDetach :: "log_store option \<Rightarrow> log_store option" where
  "LogStorePersistDetach s =
     map_option (\<lambda>st. st\<lparr>adopted := False, pcap := 0, prev_valid := False\<rparr>) s"

section \<open>Rings keep the most recent output\<close>

definition slot_ok :: "log_slot \<Rightarrow> bool" where
  "slot_ok sl \<longleftrightarrow> l_start sl < length (l_buf sl) \<and> l_len sl \<le> length (l_buf sl)"

definition slot_data :: "log_slot \<Rightarrow> string" where
  "slot_data sl = ring_list (l_buf sl) (l_start sl) (l_len sl)"

lemma ring_list_upd_end:
  assumes "len < length buf"
  shows "ring_list (buf[(s + len) mod length buf := c]) s (Suc len) = ring_list buf s len @ [c]"
proof -
  have "(s + len) mod length buf < length buf" using assms by (intro mod_less_divisor) linarith
  moreover have "(s + len) mod length buf \<noteq> (s + i) mod length buf" if "i < len" for i
    using ring_pos_inj[of i "length buf" len s] that assms by auto
  ultimately show ?thesis
    by (auto simp: ring_list_Suc intro!: nth_equalityI)
qed

lemma ring_list_upd_full:
  assumes "s < length buf"
  shows "ring_list (buf[s := c]) ((s + 1) mod length buf) (length buf) =
    drop 1 (ring_list buf s (length buf)) @ [c]"
proof -
  obtain m where m: "length buf = Suc m" using assms by (cases "length buf") auto
  have a: "s \<noteq> Suc (s + i) mod Suc m" if "i < m" for i
    using ring_pos_inj[of "Suc i" "length buf" 0 s] that assms m by auto
  have b: "ring_list (buf[s := c]) ((s + 1) mod length buf) m = drop 1 (ring_list buf s (Suc m))"
    using a m by (auto intro!: nth_equalityI simp: mod_simps)
  have "((s + 1) mod length buf + m) mod length buf = s"
    using assms m mod_add_self2[of s "Suc m"] by (simp add: mod_simps)
  then show ?thesis using b m assms by (simp add: ring_list_Suc)
qed

lemma slotPush1_data:
  assumes "slot_ok sl"
  shows "slot_ok (slotPush1 sl c) \<and> length (l_buf (slotPush1 sl c)) = length (l_buf sl) \<and>
    slot_data (slotPush1 sl c) = lastn (length (l_buf sl)) (slot_data sl @ [c])"
proof (cases "l_len sl < length (l_buf sl)")
  case True
  then show ?thesis using assms ring_list_upd_end[OF True, of "l_start sl" c]
    by (simp add: slotPush1_def slot_ok_def slot_data_def Let_def)
next
  case False
  then have l: "l_len sl = length (l_buf sl)" "l_start sl < length (l_buf sl)" "length (l_buf sl) > 0"
    using assms by (auto simp: slot_ok_def)
  then have "(l_start sl + 1) mod length (l_buf sl) < length (l_buf sl)" by (intro mod_less_divisor)
  then show ?thesis using l ring_list_upd_full[OF l(2), of c]
    by (simp add: slotPush1_def slot_ok_def slot_data_def Let_def lastn_def)
qed

lemma slotPush_data:
  assumes "slot_ok sl"
  shows "slot_ok (slotPush sl p) \<and> length (l_buf (slotPush sl p)) = length (l_buf sl) \<and>
    slot_data (slotPush sl p) = lastn (length (l_buf sl)) (slot_data sl @ p)"
  using assms
proof (induction p arbitrary: sl)
  case Nil
  then show ?case by (simp add: slotPush_def slot_data_def slot_ok_def)
next
  case (Cons c p)
  have eq: "slotPush sl (c # p) = slotPush (slotPush1 sl c) p" by (simp add: slotPush_def)
  show ?case unfolding eq
    using Cons.IH[of "slotPush1 sl c"] slotPush1_data[OF Cons.prems, of c]
    by (simp add: lastn_lastn_append)
qed

interpretation slot_log: tail_log slot_ok slot_data "\<lambda>sl. length (l_buf sl)" slotPush
  by unfold_locales (auto simp: slotPush_data, simp add: slot_ok_def slot_data_def)

text \<open>The engine's log in the live half of the persistent region.\<close>

definition persist_ok :: "log_store \<Rightarrow> bool" where
  "persist_ok s \<longleftrightarrow> adopted s \<and> pm_live (pmem s) \<le> 1 \<and> pm_magic (pmem s) = PERSIST_MAGIC \<and>
     length (pm_len (pmem s)) = 2 \<and> length (pm_half (pmem s)) = 2 \<and>
     (\<forall>h \<in> set (pm_half (pmem s)). length h = pcap s) \<and>
     unat (pm_len (pmem s) ! unat (pm_live (pmem s))) \<le> pcap s \<and> 0 < pcap s \<and> pcap s < 2 ^ 32"

definition engine_log :: "log_store \<Rightarrow> string" where
  "engine_log s = take (unat (pm_len (pmem s) ! unat (pm_live (pmem s))))
                       (pm_half (pmem s) ! unat (pm_live (pmem s)))"

lemma persist_live: "persist_ok s \<Longrightarrow> unat (pm_live (pmem s)) < 2"
  by (auto simp: persist_ok_def word_le_nat_alt)

lemma memcpy_append:
  "used \<le> length dst \<Longrightarrow> used + length p \<le> length dst \<Longrightarrow>
   take (used + length p) (memcpy_at dst used p (length p)) = take used dst @ p"
  by (simp add: memcpy_at_def)

text \<open>The live half after an append, for both the overlong and the shifting branch.\<close>

lemma persistAppend_half:
  assumes "persist_ok s" "p \<noteq> []"
  shows "\<exists>dst used q. length dst = pcap s \<and> used + length q \<le> pcap s \<and>
     take used dst @ q = lastn (pcap s) (engine_log s @ p) \<and>
     persistAppend s p = s\<lparr>pmem := (pmem s)
       \<lparr>pm_half := (pm_half (pmem s))[unat (pm_live (pmem s)) := memcpy_at dst used q (length q)],
        pm_len := (pm_len (pmem s))[unat (pm_live (pmem s)) := of_nat (used + length q)]\<rparr>\<rparr>"
proof -
  define L where "L = unat (pm_live (pmem s))"
  define D where "D = pm_half (pmem s) ! L"
  define U where "U = unat (pm_len (pmem s) ! L)"
  have d: "length D = pcap s" "U \<le> pcap s"
    using assms(1) persist_live[OF assms(1)] by (auto simp: persist_ok_def D_def U_def L_def)
  have el: "engine_log s = take U D" by (simp add: engine_log_def D_def U_def L_def)
  have ad: "adopted s" using assms(1) by (simp add: persist_ok_def)
  let ?upd = "\<lambda>dst used q. s\<lparr>pmem := (pmem s)
       \<lparr>pm_half := (pm_half (pmem s))[L := memcpy_at dst used q (length q)],
        pm_len := (pm_len (pmem s))[L := of_nat (used + length q)]\<rparr>\<rparr>"
  consider (over) "length p \<ge> pcap s" | (shift) "length p < pcap s" "U + length p > pcap s"
    | (fits) "length p < pcap s" "U + length p \<le> pcap s" by linarith
  then show ?thesis unfolding L_def[symmetric]
  proof cases
    case over
    then have "persistAppend s p = ?upd D 0 (drop (length p - pcap s) p)"
      using assms(2) ad by (simp add: persistAppend_def Let_def L_def D_def)
    then show "\<exists>dst used q. length dst = pcap s \<and> used + length q \<le> pcap s \<and>
       take used dst @ q = lastn (pcap s) (engine_log s @ p) \<and> persistAppend s p = ?upd dst used q"
      using over d by (intro exI[of _ D] exI[of _ 0] exI[of _ "drop (length p - pcap s) p"])
        (simp add: el lastn_def)
  next
    case shift
    define C where "C = U + length p - pcap s"
    have "persistAppend s p = ?upd (memcpy_at D 0 (drop C D) (U - C)) (U - C) p"
      using shift assms(2) ad unfolding persistAppend_def Let_def L_def[symmetric] D_def[symmetric] U_def[symmetric]
      by (simp add: C_def)
    moreover have "take (U - C) (memcpy_at D 0 (drop C D) (U - C)) = drop C (take U D)"
    proof -
      have "U - C \<le> length (drop C D)" using d by simp
      then show ?thesis by (simp add: memcpy_at_def drop_take)
    qed
    moreover have "length (memcpy_at D 0 (drop C D) (U - C)) = pcap s"
      using shift d by (simp add: C_def)
    ultimately show "\<exists>dst used q. length dst = pcap s \<and> used + length q \<le> pcap s \<and>
       take used dst @ q = lastn (pcap s) (engine_log s @ p) \<and> persistAppend s p = ?upd dst used q"
      using shift d by (intro exI[of _ "memcpy_at D 0 (drop C D) (U - C)"] exI[of _ "U - C"] exI[of _ p])
        (simp add: el lastn_def C_def)
  next
    case fits
    then have "persistAppend s p = ?upd D U p"
      using assms(2) ad by (simp add: persistAppend_def Let_def L_def D_def U_def)
    then show "\<exists>dst used q. length dst = pcap s \<and> used + length q \<le> pcap s \<and>
       take used dst @ q = lastn (pcap s) (engine_log s @ p) \<and> persistAppend s p = ?upd dst used q"
      using fits d by (intro exI[of _ D] exI[of _ U] exI[of _ p]) (simp add: el)
  qed
qed

lemma persistAppend_log:
  assumes "persist_ok s"
  shows "persist_ok (persistAppend s p) \<and> pcap (persistAppend s p) = pcap s \<and>
    engine_log (persistAppend s p) = lastn (pcap s) (engine_log s @ p)"
proof (cases "p = []")
  case True
  have "length (engine_log s) \<le> pcap s" using assms by (auto simp: engine_log_def persist_ok_def)
  then show ?thesis using True assms by (simp add: persistAppend_def)
next
  case False
  obtain dst used q where h: "length dst = pcap s" "used + length q \<le> pcap s"
    "take used dst @ q = lastn (pcap s) (engine_log s @ p)"
    and eq: "persistAppend s p = s\<lparr>pmem := (pmem s)
       \<lparr>pm_half := (pm_half (pmem s))[unat (pm_live (pmem s)) := memcpy_at dst used q (length q)],
        pm_len := (pm_len (pmem s))[unat (pm_live (pmem s)) := of_nat (used + length q)]\<rparr>\<rparr>"
    using persistAppend_half[OF assms False] by blast
  have l: "unat (of_nat (used + length q) :: u32) = used + length q"
    using h(2) assms by (simp add: unat_of_nat take_bit_nat_eq_self persist_ok_def del: of_nat_add)
  have h': "used \<le> length dst" "used + length q \<le> length dst" using h by auto
  have len: "length (pm_half (pmem s)) = 2" "length (pm_len (pmem s)) = 2"
    using assms by (auto simp: persist_ok_def)
  have lv: "unat (pm_live (pmem s)) < 2" by (rule persist_live[OF assms])
  have "persist_ok (persistAppend s p)"
    unfolding eq using assms h(2) h' lv len l h(1)
    by (auto simp: persist_ok_def dest!: set_update_subset_insert[THEN subsetD])
  moreover have "engine_log (persistAppend s p) = take used dst @ q"
    unfolding eq using lv len l memcpy_append[OF h'] by (simp add: engine_log_def)
  ultimately show ?thesis using h(3) by (simp add: eq)
qed

interpretation engine_ring: tail_log persist_ok engine_log pcap persistAppend
  by unfold_locales (auto simp: persistAppend_log, auto simp: engine_log_def persist_ok_def)

text \<open>
  What a log should hold after a write: every line, also one that spans several writes, is
  prefixed with one stamp, taken when its first character arrives.
\<close>

fun stamped :: "u64 \<Rightarrow> (nat \<Rightarrow> u64 option) \<Rightarrow> nat \<Rightarrow> bool \<Rightarrow> string \<Rightarrow> string" where
  "stamped origin nows k mid [] = []"
| "stamped origin nows k mid (c # cs) =
     (if mid then [] else stamp origin (nows k) LOG_STAMP_MAX) @
     c # stamped origin nows (if mid then k else Suc k) (c \<noteq> CHR 0x0A) cs"

function pieces :: "u64 \<Rightarrow> (nat \<Rightarrow> u64 option) \<Rightarrow> nat \<Rightarrow> bool \<Rightarrow> string \<Rightarrow> string list" where
  "pieces origin nows k mid str =
     (if str = [] then []
      else (if mid then [] else [stamp origin (nows k) LOG_STAMP_MAX]) @ line_run str #
        pieces origin nows (if mid then k else Suc k) (last (line_run str) \<noteq> CHR 0x0A)
          (drop (length (line_run str)) str))"
  by pat_completeness auto
termination by (relation "measure (\<lambda>(o', n, k, m, str). length str)") (auto simp: line_run_less)

declare pieces.simps [simp del]

lemma line_run_Cons:
  "line_run (c # cs) = (if c = CHR 0x0A then [c] else c # line_run cs)"
  by (auto simp: line_run_def Let_def)

lemma line_run_prefix: "str = line_run str @ drop (length (line_run str)) str"
  by (simp add: line_run_def Let_def)

lemma stamped_line:
  "str \<noteq> [] \<Longrightarrow> stamped origin nows k mid str =
     (if mid then [] else stamp origin (nows k) LOG_STAMP_MAX) @ line_run str @
     stamped origin nows (if mid then k else Suc k) (last (line_run str) \<noteq> CHR 0x0A)
       (drop (length (line_run str)) str)"
proof (induction str arbitrary: k mid)
  case (Cons c cs)
  show ?case
  proof (cases "c = CHR 0x0A \<or> cs = []")
    case False
    then show ?thesis using Cons.IH[of "if mid then k else Suc k" True] by (simp add: line_run_Cons)
  qed (auto simp: line_run_Cons line_run_def)
qed simp

lemma concat_pieces: "concat (pieces origin nows k mid str) = stamped origin nows k mid str"
proof (induction origin nows k mid str rule: pieces.induct)
  case (1 origin nows k mid str)
  then show ?case
    by (cases "str = []") (simp_all add: pieces.simps[of _ _ _ _ str] pieces.simps[of _ _ _ _ "[]"] stamped_line[of str])
qed

lemma slotPush1_mid [simp]:
  "slotPush1 (sl\<lparr>l_mid_line := b\<rparr>) c = (slotPush1 sl c)\<lparr>l_mid_line := b\<rparr>"
  "l_mid_line (slotPush1 sl c) = l_mid_line sl" "l_name (slotPush1 sl c) = l_name sl"
  "l_used (slotPush1 sl c) = l_used sl" "l_tick (slotPush1 sl c) = l_tick sl"
  by (simp_all add: slotPush1_def Let_def)

lemma slotPush_fields [simp]:
  "slotPush (sl\<lparr>l_mid_line := b\<rparr>) p = (slotPush sl p)\<lparr>l_mid_line := b\<rparr>"
  "l_mid_line (slotPush sl p) = l_mid_line sl" "l_name (slotPush sl p) = l_name sl"
  "l_used (slotPush sl p) = l_used sl" "l_tick (slotPush sl p) = l_tick sl"
  by (induction p arbitrary: sl; simp add: slotPush_def)+

lemma persistAppend_slots [simp]:
  "slots (persistAppend s p) = slots s" "l_clock (persistAppend s p) = l_clock s"
  "adopted (persistAppend s p) = adopted s" "prev_valid (persistAppend s p) = prev_valid s"
  "persistAppend (s\<lparr>slots := x\<rparr>) p = (persistAppend s p)\<lparr>slots := x\<rparr>"
  by (simp_all add: persistAppend_def Let_def split_beta)

lemma upd_nth_twice [simp]: "upd_nth i f (upd_nth i g xs) = upd_nth i (f \<circ> g) xs"
  by (simp add: upd_nth_def)

lemma upd_nth_id [simp]: "upd_nth i (\<lambda>x. x) xs = xs"
  by (simp add: upd_nth_def)

lemma push_pieces:
  "foldl (push_piece e i) s ps =
    (if e then foldl persistAppend s ps else s)
      \<lparr>slots := upd_nth i (\<lambda>sl. foldl slotPush sl ps) (slots s)\<rparr>"
proof (induction ps arbitrary: s)
  case (Cons p ps)
  have sl: "foldl persistAppend (t\<lparr>slots := x\<rparr>) ps = (foldl persistAppend t ps)\<lparr>slots := x\<rparr>" for t x
    by (induction ps arbitrary: t) simp_all
  show ?case using Cons.IH by (simp add: push_piece_def Let_def sl comp_def)
qed simp

lemma set_mid_push: "push_piece e i (set_mid_line i b s) p = set_mid_line i b (push_piece e i s p)"
  by (simp add: push_piece_def set_mid_line_def Let_def comp_def)

lemma set_mid_pieces:
  "foldl (push_piece e i) (set_mid_line i b s) ps = set_mid_line i b (foldl (push_piece e i) s ps)"
  by (induction ps arbitrary: s) (simp_all add: set_mid_push)

lemma set_mid_simps [simp]:
  "set_mid_line i a (set_mid_line i b s) = set_mid_line i a s"
  "i < length (slots s) \<Longrightarrow> set_mid_line i (l_mid_line (slots s ! i)) s = s"
  "i < length (slots s) \<Longrightarrow> l_mid_line (slots (set_mid_line i b s) ! i) = b"
  "length (slots (set_mid_line i b s)) = length (slots s)"
  by (simp_all add: set_mid_line_def comp_def upd_nth_def)

lemma push_piece_simps [simp]:
  "length (slots (push_piece e i s p)) = length (slots s)"
  "i < length (slots s) \<Longrightarrow> l_mid_line (slots (push_piece e i s p) ! i) = l_mid_line (slots s ! i)"
  by (simp_all add: push_piece_def Let_def nth_upd_nth)

lemma append_loop_step:
  assumes "str \<noteq> []" "i < length (slots s)"
  shows "append_loop origin nows e i k str s =
    append_loop origin nows e i (if l_mid_line (slots s ! i) then k else Suc k) (drop (length (line_run str)) str)
      (set_mid_line i (last (line_run str) \<noteq> CHR 0x0A)
        (push_piece e i (if l_mid_line (slots s ! i) then s
           else push_piece e i s (stamp origin (nows k) LOG_STAMP_MAX)) (line_run str)))"
proof (cases "l_mid_line (slots s ! i)")
  case True
  have "set_mid_line i True s = s" using set_mid_simps(2)[OF assms(2)] True by simp
  then show ?thesis using assms True
    by (simp add: append_loop.simps[of _ _ _ _ _ str] Let_def set_mid_push[symmetric])
next
  case False
  then show ?thesis using assms
    by (simp add: append_loop.simps[of _ _ _ _ _ str] Let_def set_mid_push[symmetric])
qed

text \<open>The append loop pushes the pieces and leaves the line open unless the text ended it.\<close>

lemma append_loop_eq:
  "i < length (slots s) \<Longrightarrow> append_loop origin nows e i k str s =
     set_mid_line i (if str = [] then l_mid_line (slots s ! i) else last str \<noteq> CHR 0x0A)
       (foldl (push_piece e i) s (pieces origin nows k (l_mid_line (slots s ! i)) str))"
proof (induction str arbitrary: k s rule: length_induct)
  case (1 str)
  show ?case
  proof (cases "str = []")
    case True then show ?thesis using 1 by (simp add: append_loop.simps pieces.simps)
  next
    case False
    define run where "run = line_run str"
    define rest where "rest = drop (length run) str"
    have str: "str = run @ rest" "run \<noteq> []" using line_run_prefix[of str] False by (simp_all add: run_def rest_def)
    have p: "pieces origin nows k mid str = (if mid then [] else [stamp origin (nows k) LOG_STAMP_MAX]) @ run #
        pieces origin nows (if mid then k else Suc k) (last run \<noteq> CHR 0x0A) rest" for mid
      using False by (simp add: pieces.simps[of _ _ _ _ str] run_def rest_def)
    have IH: "i < length (slots t) \<Longrightarrow> append_loop origin nows e i k' rest t =
       set_mid_line i (if rest = [] then l_mid_line (slots t ! i) else last rest \<noteq> CHR 0x0A)
         (foldl (push_piece e i) t (pieces origin nows k' (l_mid_line (slots t ! i)) rest))" for k' t
      using 1(1) line_run_less[OF False] by (simp add: rest_def run_def)
    show ?thesis
      unfolding append_loop_step[OF False 1(2)] run_def[symmetric] rest_def[symmetric] p
      by (subst IH) (use 1(2) str in \<open>simp_all add: set_mid_pieces\<close>)
  qed
qed

definition log_slot_of :: "log_store \<Rightarrow> string \<Rightarrow> log_slot option" where
  "log_slot_of s nm = find (\<lambda>sl. l_used sl \<and> l_name sl = nm) (slots s)"

definition log_contents :: "log_store \<Rightarrow> string \<Rightarrow> string" where
  "log_contents s nm = (case log_slot_of s nm of None \<Rightarrow> [] | Some sl \<Rightarrow> slot_data sl)"

definition log_mid_line :: "log_store \<Rightarrow> string \<Rightarrow> bool" where
  "log_mid_line s nm = (case log_slot_of s nm of None \<Rightarrow> False | Some sl \<Rightarrow> l_mid_line sl)"

definition log_slots_wf :: "nat \<Rightarrow> log_slot list \<Rightarrow> bool" where
  "log_slots_wf cap sls \<longleftrightarrow> sls \<noteq> [] \<and>
     (\<forall>i < length sls. slot_ok (sls ! i) \<and> length (l_buf (sls ! i)) = cap \<and>
        length (l_name (sls ! i)) < WAPP_MAX_NAME_LEN) \<and>
     (\<forall>i < length sls. \<forall>j < length sls. l_used (sls ! i) \<and> l_used (sls ! j) \<and>
        l_name (sls ! i) = l_name (sls ! j) \<longrightarrow> i = j)"

definition log_wf :: "nat \<Rightarrow> log_store \<Rightarrow> bool" where
  "log_wf cap s \<longleftrightarrow> log_slots_wf cap (slots s) \<and> (adopted s \<longrightarrow> persist_ok s)"

lemma log_slot_of_Some:
  assumes "log_slots_wf cap (slots s)" "i < length (slots s)" "l_used (slots s ! i)" "l_name (slots s ! i) = nm"
  shows "log_slot_of s nm = Some (slots s ! i)"
proof -
  have "\<not> (l_used (slots s ! j) \<and> l_name (slots s ! j) = nm)" if "j < i" for j
  proof
    assume a: "l_used (slots s ! j) \<and> l_name (slots s ! j) = nm"
    have "j < length (slots s)" using that assms(2) by simp
    then have "j = i" using assms a unfolding log_slots_wf_def by blast
    then show False using that by simp
  qed
  then show ?thesis unfolding log_slot_of_def find_Some_iff using assms by blast
qed

lemma log_slot_of_SomeD:
  "log_slot_of s nm = Some sl \<Longrightarrow> \<exists>i < length (slots s). slots s ! i = sl \<and> l_used sl \<and> l_name sl = nm"
  by (auto simp: log_slot_of_def find_Some_iff)

lemma log_slot_of_None:
  "log_slot_of s nm = None \<longleftrightarrow> (\<forall>i < length (slots s). l_used (slots s ! i) \<longrightarrow> l_name (slots s ! i) \<noteq> nm)"
  by (auto simp: log_slot_of_def find_None_iff in_set_conv_nth)

lemma slot_scan_Inl:
  "slot_scan sls nm i f l = Inl j \<Longrightarrow>
   j < length sls \<and> l_used (sls ! j) \<and> strncmp WAPP_MAX_NAME_LEN (l_name (sls ! j)) nm = 0"
proof (induction sls nm i f l rule: slot_scan.induct)
  case (1 sls nm i f l)
  from 1(3) show ?case
    by (subst (asm) slot_scan.simps) (use 1(1,2) in \<open>simp split: if_split_asm\<close>)
qed

lemma slot_scan_lru:
  "slot_scan sls nm i f l = Inr (f', l') \<Longrightarrow> l_tick (sls ! l') \<le> l_tick (sls ! l) \<and> (l' = l \<or> l' < length sls)"
proof (induction sls nm i f l rule: slot_scan.induct)
  case (1 sls nm i f l)
  from 1(3) show ?case
    by (subst (asm) slot_scan.simps) (use 1(1,2) in \<open>fastforce split: if_split_asm\<close>)
qed

lemma slot_scan_all:
  "slot_scan sls nm i f l = Inr (f', l') \<Longrightarrow> i \<le> j \<Longrightarrow> j < length sls \<Longrightarrow> l_used (sls ! j) \<Longrightarrow>
   strncmp WAPP_MAX_NAME_LEN (l_name (sls ! j)) nm \<noteq> 0 \<and> l_tick (sls ! l') \<le> l_tick (sls ! j)"
proof (induction sls nm i f l rule: slot_scan.induct)
  case (1 sls nm i f l)
  have lt: "j = i \<or> Suc i \<le> j" using 1(4) by auto
  from 1(3) show ?case
    by (subst (asm) slot_scan.simps)
      (use 1(1,2,5,6) lt in \<open>auto split: if_split_asm dest!: slot_scan_lru simp: not_less intro: order_trans\<close>)
qed

lemma slot_scan_free:
  "slot_scan sls nm i f l = Inr (f', l') \<Longrightarrow>
   (case f' of None \<Rightarrow> f = None \<and> (\<forall>j. i \<le> j \<and> j < length sls \<longrightarrow> l_used (sls ! j))
    | Some x \<Rightarrow> f = Some x \<or> x < length sls \<and> \<not> l_used (sls ! x))"
proof (induction sls nm i f l rule: slot_scan.induct)
  case (1 sls nm i f l)
  have lt: "i \<le> j \<longleftrightarrow> j = i \<or> Suc i \<le> j" for j by auto
  from 1(3) show ?case
    by (subst (asm) slot_scan.simps)
      (use 1(1,2) in \<open>auto simp: lt split: if_split_asm option.splits\<close>)
qed

text \<open>The slot an access works on: the wapp's own, else an empty one in a free slot or in the place of
  the least recently used log.\<close>

lemma slot_for_fields:
  assumes "slot_for s nm = (i, s1)"
  shows "s1 = s\<lparr>slots := slots s1, l_clock := l_clock s + 1\<rparr>" "length (slots s1) = length (slots s)"
    "j \<noteq> i \<Longrightarrow> j < length (slots s) \<Longrightarrow> slots s1 ! j = slots s ! j"
  using assms by (auto simp: slot_for_def Let_def nth_upd_nth split: sum.splits prod.splits)

lemma slot_for_spec:
  assumes wf: "log_slots_wf cap (slots s)" and nm: "length nm < WAPP_MAX_NAME_LEN"
    and sf: "slot_for s nm = (i, s1)"
  shows "i < length (slots s) \<and>
    (case log_slot_of s nm of
       Some sl \<Rightarrow> slots s ! i = sl \<and> slots s1 ! i = sl\<lparr>l_tick := l_clock s + 1\<rparr>
     | None \<Rightarrow> slots s1 ! i = (slot_zero cap)\<lparr>l_name := nm, l_tick := l_clock s + 1, l_used := True\<rparr> \<and>
         (l_used (slots s ! i) \<longrightarrow> (\<forall>j < length (slots s). l_used (slots s ! j) \<and>
            l_tick (slots s ! i) \<le> l_tick (slots s ! j))))"
proof (cases "slot_scan (slots s) nm 0 None 0")
  case (Inl j)
  have j: "j < length (slots s)" "l_used (slots s ! j)" "l_name (slots s ! j) = nm"
    using slot_scan_Inl[OF Inl] wf nm by (auto simp: strncmp_buf_eq log_slots_wf_def)
  show ?thesis using sf j log_slot_of_Some[OF wf j] by (auto simp: slot_for_def Let_def Inl nth_upd_nth)
next
  case (Inr fl)
  obtain f l where fl: "fl = (f, l)" by (cases fl)
  note scan = Inr[unfolded fl]
  have no: "log_slot_of s nm = None"
    unfolding log_slot_of_None using slot_scan_all[OF scan] by (metis le0 strncmp_refl)
  have l: "l < length (slots s)"
    using slot_scan_lru[OF scan] wf by (auto simp: log_slots_wf_def)
  have i: "i = (case f of Some x \<Rightarrow> x | None \<Rightarrow> l)"
    using sf by (auto simp: slot_for_def Let_def Inr fl)
  have il: "i < length (slots s)" using slot_scan_free[OF scan] l by (auto simp: i split: option.splits)
  have "slots s1 ! i = (slot_zero cap)\<lparr>l_name := nm, l_tick := l_clock s + 1, l_used := True\<rparr>"
    using sf il nm wf by (auto simp: slot_for_def Let_def Inr fl nth_upd_nth strncpy_buf_fits log_slots_wf_def)
  moreover have "l_used (slots s ! j) \<and> l_tick (slots s ! i) \<le> l_tick (slots s ! j)"
    if "l_used (slots s ! i)" "j < length (slots s)" for j
    using slot_scan_free[OF scan] slot_scan_all[OF scan, of j] that i by (auto split: option.splits)
  ultimately show ?thesis using no il by simp
qed

lemma foldl_slotPush_fields [simp]:
  "l_name (foldl slotPush sl ps) = l_name sl" "l_used (foldl slotPush sl ps) = l_used sl"
  "l_tick (foldl slotPush sl ps) = l_tick sl"
  by (induction ps arbitrary: sl) simp_all

lemma foldl_persistAppend_fields [simp]:
  "slots (foldl persistAppend s ps) = slots s" "l_clock (foldl persistAppend s ps) = l_clock s"
  "adopted (foldl persistAppend s ps) = adopted s" "prev_valid (foldl persistAppend s ps) = prev_valid s"
  by (induction ps arbitrary: s) simp_all

lemma persistAppend_clock [simp]:
  "persistAppend (s\<lparr>l_clock := c\<rparr>) p = (persistAppend s p)\<lparr>l_clock := c\<rparr>"
  by (simp add: persistAppend_def Let_def split_beta)

lemma foldl_persistAppend_upd [simp]:
  "foldl persistAppend (s\<lparr>slots := x\<rparr>) ps = (foldl persistAppend s ps)\<lparr>slots := x\<rparr>"
  "foldl persistAppend (s\<lparr>l_clock := c\<rparr>) ps = (foldl persistAppend s ps)\<lparr>l_clock := c\<rparr>"
  by (induction ps arbitrary: s) simp_all

lemma slot_ok_updates [simp]:
  "slot_ok (sl\<lparr>l_tick := t\<rparr>) = slot_ok sl" "slot_ok (sl\<lparr>l_mid_line := b\<rparr>) = slot_ok sl"
  "slot_data (sl\<lparr>l_tick := t\<rparr>) = slot_data sl" "slot_data (sl\<lparr>l_mid_line := b\<rparr>) = slot_data sl"
  by (simp_all add: slot_ok_def slot_data_def)

lemma persist_ok_slots [simp]:
  "persist_ok (s\<lparr>slots := x\<rparr>) = persist_ok s" "persist_ok (s\<lparr>l_clock := c\<rparr>) = persist_ok s"
  "engine_log (s\<lparr>slots := x\<rparr>) = engine_log s" "engine_log (s\<lparr>l_clock := c\<rparr>) = engine_log s"
  by (simp_all add: persist_ok_def engine_log_def)

text \<open>The slot of \<open>nm\<close> after an append, and the rest of the store.\<close>

lemma append_slot:
  assumes wf: "log_slots_wf cap (slots s)" and nm: "length nm < WAPP_MAX_NAME_LEN" and str: "str \<noteq> []"
    and ap: "LogStoreAppend origin nows (Some s) (Some nm) (Some str) = Some s'"
  obtains i sl where "i < length (slots s)" "slots s' = (slots s)[i := sl]"
    "l_name sl = nm" "l_used sl" "slot_ok sl" "length (l_buf sl) = cap"
    "slot_data sl = lastn cap (log_contents s nm @ stamped origin nows 0 (log_mid_line s nm) str)"
    "l_mid_line sl \<longleftrightarrow> last str \<noteq> CHR 0x0A"
    "case log_slot_of s nm of Some sl0 \<Rightarrow> slots s ! i = sl0
      | None \<Rightarrow> l_used (slots s ! i) \<longrightarrow> (\<forall>j < length (slots s). l_used (slots s ! j) \<and>
            l_tick (slots s ! i) \<le> l_tick (slots s ! j))"
    "s' = (if nm = WANTED_ENGINE_LOG_NAME
           then foldl persistAppend s (pieces origin nows 0 (log_mid_line s nm) str) else s)
            \<lparr>slots := slots s', l_clock := l_clock s + 1\<rparr>"
proof -
  obtain i s1 where sf: "slot_for s nm = (i, s1)" by fastforce
  note f = slot_for_fields[OF sf]
  have sp: "i < length (slots s)" using slot_for_spec[OF wf nm sf] by simp
  let ?e = "strncmp WAPP_MAX_NAME_LEN nm WANTED_ENGINE_LOG_NAME = 0"
  have e: "?e = (nm = WANTED_ENGINE_LOG_NAME)"
    using nm by (intro strncmp_buf_eq) (auto simp: WANTED_ENGINE_LOG_NAME_def WAPP_MAX_NAME_LEN_def)
  have s1: "slot_ok (slots s1 ! i)" "length (l_buf (slots s1 ! i)) = cap" "l_name (slots s1 ! i) = nm"
      "l_used (slots s1 ! i)" "slot_data (slots s1 ! i) = log_contents s nm"
      "l_mid_line (slots s1 ! i) = log_mid_line s nm"
    using slot_for_spec[OF wf nm sf] wf
    by (auto simp: log_contents_def log_mid_line_def log_slots_wf_def slot_zero_def slot_ok_def slot_data_def
        split: option.splits dest!: log_slot_of_SomeD)
  let ?ps = "pieces origin nows 0 (log_mid_line s nm) str"
  let ?sl = "(foldl slotPush (slots s1 ! i) ?ps)\<lparr>l_mid_line := (last str \<noteq> CHR 0x0A)\<rparr>"
  have s': "s' = set_mid_line i (last str \<noteq> CHR 0x0A) (foldl (push_piece (nm = WANTED_ENGINE_LOG_NAME) i) s1 ?ps)"
    using ap str sp f(2) s1(6) by (simp add: LogStoreAppend_def sf e append_loop_eq)
  have sl: "slots s' = (slots s)[i := ?sl]"
  proof (rule nth_equalityI)
    show "length (slots s') = length ((slots s)[i := ?sl])"
      using f(2) by (simp add: s' set_mid_line_def push_pieces)
  next
    fix j assume "j < length (slots s')"
    then have j: "j < length (slots s)" using f(2) by (simp add: s' set_mid_line_def push_pieces)
    show "slots s' ! j = (slots s)[i := ?sl] ! j"
      using f(2) f(3)[of j] j sp
      by (cases "j = i") (simp_all add: s' set_mid_line_def push_pieces nth_upd_nth)
  qed
  have pa: "foldl persistAppend s1 ?ps = (foldl persistAppend s ?ps)\<lparr>slots := slots s1, l_clock := l_clock s + 1\<rparr>"
    by (subst f(1)) simp
  show thesis
  proof (rule that[OF sp sl])
    show "slot_data ?sl = lastn cap (log_contents s nm @ stamped origin nows 0 (log_mid_line s nm) str)"
      using slot_log.apps_contents[OF s1(1), of ?ps] s1 by (simp add: concat_pieces)
    show "slot_ok ?sl" "length (l_buf ?sl) = cap"
      using slot_log.apps_ok[OF s1(1), of ?ps] s1 by simp_all
    show "s' = (if nm = WANTED_ENGINE_LOG_NAME then foldl persistAppend s ?ps else s)
            \<lparr>slots := slots s', l_clock := l_clock s + 1\<rparr>"
    proof (cases "nm = WANTED_ENGINE_LOG_NAME")
      case True
      then show ?thesis unfolding s' using pa by (simp add: set_mid_line_def push_pieces)
    next
      case False
      then show ?thesis unfolding s' by (subst f(1)) (simp add: set_mid_line_def push_pieces)
    qed
    show "case log_slot_of s nm of Some sl0 \<Rightarrow> slots s ! i = sl0
      | None \<Rightarrow> l_used (slots s ! i) \<longrightarrow> (\<forall>j < length (slots s). l_used (slots s ! j) \<and>
            l_tick (slots s ! i) \<le> l_tick (slots s ! j))"
      using slot_for_spec[OF wf nm sf] by (simp split: option.splits)
  qed (use s1 in simp_all)
qed

lemma append_spec:
  assumes "log_wf cap s" "length nm < WAPP_MAX_NAME_LEN" "str \<noteq> []"
    "LogStoreAppend origin nows (Some s) (Some nm) (Some str) = Some s'"
  shows "log_contents s' nm = lastn cap (log_contents s nm @ stamped origin nows 0 (log_mid_line s nm) str) \<and>
    log_mid_line s' nm = (last str \<noteq> CHR 0x0A) \<and> log_wf cap s'"
proof -
  have wf: "log_slots_wf cap (slots s)" using assms(1) by (simp add: log_wf_def)
  obtain i sl where sl: "i < length (slots s)" "slots s' = (slots s)[i := sl]"
    "l_name sl = nm" "l_used sl" "slot_ok sl" "length (l_buf sl) = cap"
    "slot_data sl = lastn cap (log_contents s nm @ stamped origin nows 0 (log_mid_line s nm) str)"
    "l_mid_line sl \<longleftrightarrow> last str \<noteq> CHR 0x0A"
    and old: "case log_slot_of s nm of Some sl0 \<Rightarrow> slots s ! i = sl0 | None \<Rightarrow> True"
    and s': "s' = (if nm = WANTED_ENGINE_LOG_NAME
           then foldl persistAppend s (pieces origin nows 0 (log_mid_line s nm) str) else s)
            \<lparr>slots := slots s', l_clock := l_clock s + 1\<rparr>"
    by (rule append_slot[OF wf assms(2-4)]) (auto split: option.splits)
  have others: "l_name (slots s ! j) \<noteq> nm" if j: "j < length (slots s)" "j \<noteq> i" "l_used (slots s ! j)" for j
  proof
    assume e: "l_name (slots s ! j) = nm"
    then have so: "log_slot_of s nm = Some (slots s ! j)" by (intro log_slot_of_Some[OF wf] j)
    then have "l_used (slots s ! i) \<and> l_name (slots s ! i) = l_name (slots s ! j)" using old j e by simp
    then show False using wf sl(1) j unfolding log_slots_wf_def by blast
  qed
  have wf': "log_slots_wf cap (slots s')"
    using wf sl(1,3-6) others assms(2) unfolding log_slots_wf_def sl(2) by (simp add: nth_list_update) metis
  have pw: "persist_ok s" if "adopted s" using assms(1) that by (simp add: log_wf_def)
  have "adopted s' \<longrightarrow> persist_ok s'"
    by (subst (1 2) s') (use pw engine_ring.apps_ok in \<open>auto\<close>)
  moreover have "log_slot_of s' nm = Some sl"
    using log_slot_of_Some[OF wf', of i nm] sl by simp
  ultimately show ?thesis using wf' sl by (simp add: log_contents_def log_mid_line_def log_wf_def)
qed

text \<open>
  C28: After a write to a log that is not evicted in between, the log holds the most recent
  \<open>CONFIG_WANTED_LOG_CAP\<close> characters of its old contents followed by the text with every line stamped
  once, whether or not the line was opened by an earlier write.
\<close>

theorem log_append_tail:
  assumes "log_wf cap s" "length nm < WAPP_MAX_NAME_LEN" "str \<noteq> []"
    "LogStoreAppend origin nows (Some s) (Some nm) (Some str) = Some s'"
  shows "log_contents s' nm = lastn cap (log_contents s nm @ stamped origin nows 0 (log_mid_line s nm) str) \<and>
    log_mid_line s' nm = (last str \<noteq> CHR 0x0A)"
  using append_spec[OF assms] by blast

definition demo_region :: "nat \<Rightarrow> persist_mem" where
  "demo_region cap = \<lparr>pm_magic = 0, pm_live = 0, pm_len = [0, 0],
     pm_half = [replicate cap (CHR 0x00), replicate cap (CHR 0x00)]\<rparr>"

lemma LogStore_new_wf: "0 < n \<Longrightarrow> 0 < cap \<Longrightarrow> log_wf cap (LogStore_new n cap pm)"
  by (simp add: log_wf_def LogStore_new_def log_slots_wf_def slot_zero_def slot_ok_def WAPP_MAX_NAME_LEN_def)

lemma LogStore_new_empty [simp]:
  "log_slot_of (LogStore_new n cap pm) nm = None" "log_contents (LogStore_new n cap pm) nm = []"
  "log_mid_line (LogStore_new n cap pm) nm = False"
proof -
  show "log_slot_of (LogStore_new n cap pm) nm = None"
    by (simp add: log_slot_of_None LogStore_new_def slot_zero_def)
  then show "log_contents (LogStore_new n cap pm) nm = []" "log_mid_line (LogStore_new n cap pm) nm = False"
    by (simp_all add: log_contents_def log_mid_line_def)
qed

lemma LogStoreAppend_the:
  "LogStoreAppend origin nows (Some s) (Some nm) (Some str) =
   Some (the (LogStoreAppend origin nows (Some s) (Some nm) (Some str)))"
  by (simp add: LogStoreAppend_def split_beta)

theorem log_append_tail_witness:
  "let s1 = the (LogStoreAppend 0 (\<lambda>k. Some 3000000) (Some (LogStore_new 2 7 (demo_region 4)))
              (Some ''w'') (Some ''a\<newline>b''))
   in log_contents s1 ''w'' = ''\<newline>[+3] b'' \<and> log_mid_line s1 ''w''"
proof -
  have "lastn 7 (stamped 0 (\<lambda>k. Some 3000000) 0 False ''a\<newline>b'') = ''\<newline>[+3] b''" by code_simp
  then show ?thesis
    using log_append_tail[OF LogStore_new_wf[of 2 7 "demo_region 4"] _ _ LogStoreAppend_the,
        of "''w''" "''a\<newline>b''" 0 "\<lambda>k. Some 3000000"]
    by (simp add: WAPP_MAX_NAME_LEN_def del: stamped.simps)
qed

text \<open>
  C29: A write never disturbs another wapp's log, unless the table is full and the writer has no log
  yet: then exactly the least recently used log is given up.
\<close>

theorem log_append_others:
  assumes "log_wf cap s" "length nm < WAPP_MAX_NAME_LEN" "str \<noteq> []"
    "LogStoreAppend origin nows (Some s) (Some nm) (Some str) = Some s'"
    "nm' \<noteq> nm" "log_slot_of s nm' = Some sl'"
  shows "log_slot_of s' nm' = Some sl' \<or>
    (log_slot_of s nm = None \<and> log_slot_of s' nm' = None \<and>
     list_all (\<lambda>sl. l_used sl \<and> l_tick sl' \<le> l_tick sl) (slots s))"
proof -
  have wf: "log_slots_wf cap (slots s)" using assms(1) by (simp add: log_wf_def)
  have wf': "log_slots_wf cap (slots s')" using append_spec[OF assms(1-4)] by (simp add: log_wf_def)
  obtain i sl where sl: "i < length (slots s)" "slots s' = (slots s)[i := sl]" "l_name sl = nm" "l_used sl"
    and old: "case log_slot_of s nm of Some sl0 \<Rightarrow> slots s ! i = sl0
      | None \<Rightarrow> l_used (slots s ! i) \<longrightarrow> (\<forall>j < length (slots s). l_used (slots s ! j) \<and>
            l_tick (slots s ! i) \<le> l_tick (slots s ! j))"
    by (rule append_slot[OF wf assms(2-4)]) (rule that)
  obtain k where k: "k < length (slots s)" "slots s ! k = sl'" "l_used sl'" "l_name sl' = nm'"
    using log_slot_of_SomeD[OF assms(6)] by blast
  show ?thesis
  proof (cases "k = i")
    case False
    then show ?thesis using log_slot_of_Some[OF wf', of k nm'] k sl by simp
  next
    case True
    have none: "log_slot_of s nm = None"
    proof (cases "log_slot_of s nm")
      case (Some sl0)
      then have "l_name (slots s ! i) = nm" using log_slot_of_SomeD[OF Some] old by auto
      then show ?thesis using True k assms(5) by simp
    qed
    have lru: "list_all (\<lambda>sl. l_used sl \<and> l_tick sl' \<le> l_tick sl) (slots s)"
      using old none True k by (auto simp: list_all_length)
    have "l_name (slots s' ! j) \<noteq> nm'" if "j < length (slots s')" "l_used (slots s' ! j)" for j
    proof (cases "j = i")
      case False
      then have j: "j < length (slots s)" "l_used (slots s ! j)" "slots s' ! j = slots s ! j"
        using that by (simp_all add: sl(2))
      have "l_name (slots s ! j) = nm' \<Longrightarrow> j = i"
        using wf k(3,4) sl(1) j(1,2) unfolding True k(2)[symmetric] log_slots_wf_def by metis
      then show ?thesis using False j(3) by auto
    qed (use sl assms(5) in simp)
    then have "log_slot_of s' nm' = None" unfolding log_slot_of_None by blast
    then show ?thesis using none lru by simp
  qed
qed

definition demo_log1 :: log_store where
  "demo_log1 = the (LogStoreAppend 0 (\<lambda>k. None) (Some (LogStore_new 1 9 (demo_region 4))) (Some ''a'') (Some ''x''))"

definition demo_log2 :: log_store where
  "demo_log2 = the (LogStoreAppend 0 (\<lambda>k. None) (Some demo_log1) (Some ''b'') (Some ''y''))"

lemma demo_log1_spec: "log_wf 9 demo_log1" "log_contents demo_log1 ''a'' = ''[+0] x''"
proof -
  have st: "stamped 0 (\<lambda>k. None) 0 False ''x'' = ''[+0] x''" by code_simp
  show "log_wf 9 demo_log1" "log_contents demo_log1 ''a'' = ''[+0] x''"
    using append_spec[OF LogStore_new_wf[of 1 9 "demo_region 4"] _ _ LogStoreAppend_the, of "''a''" "''x''" 0 "\<lambda>k. None"]
    by (simp_all add: WAPP_MAX_NAME_LEN_def st demo_log1_def del: stamped.simps)
qed

theorem log_append_others_witness:
  "\<exists>sl. log_slot_of demo_log1 ''a'' = Some sl \<and> slot_data sl = ''[+0] x'' \<and>
     (log_slot_of demo_log2 ''a'' = Some sl \<or>
      log_slot_of demo_log1 ''b'' = None \<and> log_slot_of demo_log2 ''a'' = None \<and>
      list_all (\<lambda>sl'. l_used sl' \<and> l_tick sl \<le> l_tick sl') (slots demo_log1))"
proof -
  obtain sl where sl: "log_slot_of demo_log1 ''a'' = Some sl" "slot_data sl = ''[+0] x''"
    using demo_log1_spec(2) by (auto simp: log_contents_def split: option.splits)
  show ?thesis
    using log_append_others[OF demo_log1_spec(1) _ _ LogStoreAppend_the _ sl(1), of "''b''" "''y''" 0 "\<lambda>k. None"] sl
    by (simp add: WAPP_MAX_NAME_LEN_def demo_log2_def)
qed

text \<open>What the previous boot left, as long as the region was readable.\<close>

definition prev_log :: "log_store \<Rightarrow> string" where
  "prev_log s = (if prev_valid s \<and> adopted s then
     let other = (if pm_live (pmem s) = 0 then 1 else 0)
     in take (unat (pm_len (pmem s) ! other)) (pm_half (pmem s) ! other) else [])"

lemma prev_name_eq:
  "length nm < WAPP_MAX_NAME_LEN \<Longrightarrow> strncmp WAPP_MAX_NAME_LEN nm WANTED_PREV_LOG_NAME = 0 \<longleftrightarrow> nm = WANTED_PREV_LOG_NAME"
  by (rule strncmp_buf_eq)

lemma find_slot_idx:
  assumes wf: "log_slots_wf cap (slots s)" and nm: "length nm < WAPP_MAX_NAME_LEN"
  shows "(case find_idx (\<lambda>sl. l_used sl \<and> strncmp WAPP_MAX_NAME_LEN (l_name sl) nm = 0) (slots s) of
     None \<Rightarrow> log_slot_of s nm = None
   | Some i \<Rightarrow> i < length (slots s) \<and> log_slot_of s nm = Some (slots s ! i))"
proof (cases "find_idx (\<lambda>sl. l_used sl \<and> strncmp WAPP_MAX_NAME_LEN (l_name sl) nm = 0) (slots s)")
  case None
  then have "\<forall>sl \<in> set (slots s). \<not> (l_used sl \<and> strncmp WAPP_MAX_NAME_LEN (l_name sl) nm = 0)"
    by (simp add: find_idx_None)
  then have "log_slot_of s nm = None"
    unfolding log_slot_of_None by (metis nth_mem strncmp_refl)
  then show ?thesis using None by simp
next
  case (Some i)
  have i: "i < length (slots s)" "l_used (slots s ! i)" "l_name (slots s ! i) = nm"
    using find_idx_SomeD[OF Some] wf by (auto simp: log_slots_wf_def strncmp_buf_eq)
  then show ?thesis using Some log_slot_of_Some[OF wf i] by simp
qed

lemma ring_read_window:
  assumes "slot_ok sl" "n > 0"
  shows "(if off < l_len sl then
      let avail = l_len sl - off; m = (if avail < n then avail else n)
      in map (\<lambda>j. l_buf sl ! ((l_start sl + off + j) mod length (l_buf sl))) [0..<m] else [])
    = take n (drop off (slot_data sl))"
proof (cases "off < l_len sl")
  case True
  have "take n (drop off (slot_data sl)) =
      map (\<lambda>j. l_buf sl ! ((l_start sl + off + j) mod length (l_buf sl))) [0..<min n (l_len sl - off)]"
  proof (rule nth_equalityI)
    fix i assume "i < length (take n (drop off (slot_data sl)))"
    then have "off + i < l_len sl" "i < n" "i < min n (l_len sl - off)" by (auto simp: slot_data_def)
    then show "take n (drop off (slot_data sl)) ! i =
      map (\<lambda>j. l_buf sl ! ((l_start sl + off + j) mod length (l_buf sl))) [0..<min n (l_len sl - off)] ! i"
      by (simp add: slot_data_def add.assoc)
  qed (simp add: slot_data_def)
  moreover have "(if l_len sl - off < n then l_len sl - off else n) = min n (l_len sl - off)" by simp
  ultimately show ?thesis using True by (simp only: Let_def if_True)
qed (simp add: slot_data_def)

lemma tick_slot_of:
  assumes "log_slots_wf cap (slots s)" "i < length (slots s)"
    "s' = s\<lparr>slots := upd_nth i (l_tick_update (\<lambda>_. t)) (slots s), l_clock := c\<rparr>"
  shows "log_slots_wf cap (slots s')" "log_contents s' nm = log_contents s nm"
proof -
  have len: "length (slots s') = length (slots s)" by (simp add: assms(3))
  then have ne: "slots s' = [] \<longleftrightarrow> slots s = []" by (metis length_0_conv)
  have f: "l_used (slots s' ! j) = l_used (slots s ! j)" "l_name (slots s' ! j) = l_name (slots s ! j)"
    "l_buf (slots s' ! j) = l_buf (slots s ! j)" "slot_ok (slots s' ! j) = slot_ok (slots s ! j)"
    "slot_data (slots s' ! j) = slot_data (slots s ! j)" if "j < length (slots s)" for j
    using that by (simp_all add: assms(3) nth_upd_nth)
  show wf': "log_slots_wf cap (slots s')"
    using assms(1) unfolding log_slots_wf_def len ne by (simp add: f)
  show "log_contents s' nm = log_contents s nm"
  proof (cases "log_slot_of s nm")
    case None
    then have "log_slot_of s' nm = None" unfolding log_slot_of_None len by (simp add: f)
    then show ?thesis using None by (simp add: log_contents_def)
  next
    case (Some sl)
    then obtain k where "k < length (slots s)" "slots s ! k = sl" "l_used sl" "l_name sl = nm"
      using log_slot_of_SomeD by blast
    then have "log_slot_of s' nm = Some (slots s' ! k)" "slot_data (slots s' ! k) = slot_data sl"
      using log_slot_of_Some[OF wf', of k nm] f[of k] len by auto
    then show ?thesis using Some by (simp add: log_contents_def)
  qed
qed

lemma read_spec:
  assumes wf: "log_wf cap s" and nm: "length nm < WAPP_MAX_NAME_LEN"
    and rd: "LogStoreRead (Some s) (Some nm) True n off = (out, s')"
  shows "out = take n (drop off (if nm = WANTED_PREV_LOG_NAME then prev_log s else log_contents s nm)) \<and>
    (\<exists>t. s' = Some t \<and> log_wf cap t \<and> pmem t = pmem s \<and> adopted t = adopted s \<and> pcap t = pcap s \<and>
       (\<forall>nm'. log_contents t nm' = log_contents s nm'))"
proof -
  have slots: "log_slots_wf cap (slots s)" using wf by (simp add: log_wf_def)
  show ?thesis
  proof (cases "n = 0 \<or> nm = WANTED_PREV_LOG_NAME")
    case True
    then show ?thesis using rd nm wf
      by (auto simp: LogStoreRead_def prev_name_eq prev_log_def Let_def drop_take min_def split: if_splits)
  next
    case False
    show ?thesis
    proof (cases "find_idx (\<lambda>sl. l_used sl \<and> strncmp WAPP_MAX_NAME_LEN (l_name sl) nm = 0) (slots s)")
      case None
      then show ?thesis using False rd wf find_slot_idx[OF slots nm]
        by (auto simp: LogStoreRead_def prev_name_eq[OF nm] log_contents_def)
    next
      case (Some i)
      let ?t = "s\<lparr>slots := upd_nth i (l_tick_update (\<lambda>_. l_clock s + 1)) (slots s), l_clock := l_clock s + 1\<rparr>"
      have i: "i < length (slots s)" "log_slot_of s nm = Some (slots s ! i)"
        using find_slot_idx[OF slots nm] Some by auto
      have ok: "slot_ok (slots s ! i)" using slots i by (simp add: log_slots_wf_def)
      have out: "out = take n (drop off (slot_data (slots s ! i)))" "s' = Some ?t"
        using rd False Some ring_read_window[OF ok, of n off]
        by (auto simp: LogStoreRead_def prev_name_eq[OF nm] Let_def)
      have "log_wf cap ?t" using tick_slot_of(1)[OF slots i(1)] wf by (simp add: log_wf_def)
      then show ?thesis using out i False tick_slot_of(2)[OF slots i(1)] by (simp add: log_contents_def)
    qed
  qed
qed

text \<open>
  C30: Reading is non-destructive and windowed: a read of \<open>n\<close> characters at \<open>off\<close> returns exactly that
  window of the log (of the previous boot's log under its reserved name), and leaves the contents of
  every log as they were.
\<close>

theorem log_read_window:
  assumes "log_wf cap s" "length nm < WAPP_MAX_NAME_LEN"
    "LogStoreRead (Some s) (Some nm) True n off = (out, Some t)"
  shows "out = take n (drop off (if nm = WANTED_PREV_LOG_NAME then prev_log s else log_contents s nm)) \<and>
    (\<forall>nm'. log_contents t nm' = log_contents s nm')"
  using read_spec[OF assms] by simp

theorem log_read_window_witness:
  "fst (LogStoreRead (Some demo_log1) (Some ''a'') True 3 2) = ''0] ''"
proof -
  obtain out t where rd: "LogStoreRead (Some demo_log1) (Some ''a'') True 3 2 = (out, Some t)"
    using read_spec[OF demo_log1_spec(1), of "''a''" 3 2]
    by (cases "LogStoreRead (Some demo_log1) (Some ''a'') True 3 2") (auto simp: WAPP_MAX_NAME_LEN_def)
  show ?thesis
    using log_read_window[OF demo_log1_spec(1) _ rd] rd
    by (simp add: WAPP_MAX_NAME_LEN_def WANTED_PREV_LOG_NAME_def demo_log1_spec(2))
qed

text \<open>A mirrored append leaves the other half alone.\<close>

lemma persistAppend_other:
  assumes "other \<noteq> unat (pm_live (pmem s))"
  shows "pm_half (pmem (persistAppend s p)) ! other = pm_half (pmem s) ! other"
    "pm_len (pmem (persistAppend s p)) ! other = pm_len (pmem s) ! other"
    "pm_live (pmem (persistAppend s p)) = pm_live (pmem s)"
  using assms by (simp_all add: persistAppend_def Let_def split_beta)

lemma persistAppends_other:
  assumes "other \<noteq> unat (pm_live (pmem s))"
  shows "pm_half (pmem (foldl persistAppend s ps)) ! other = pm_half (pmem s) ! other \<and>
    pm_len (pmem (foldl persistAppend s ps)) ! other = pm_len (pmem s) ! other \<and>
    pm_live (pmem (foldl persistAppend s ps)) = pm_live (pmem s)"
  using assms by (induction ps arbitrary: s) (simp_all add: persistAppend_other)

lemma persistAppends_pcap [simp]: "pcap (foldl persistAppend s ps) = pcap s"
  by (induction ps arbitrary: s) (simp_all add: persistAppend_def Let_def split_beta)

lemma persistAppends_prev: "persist_ok s \<Longrightarrow> prev_log (foldl persistAppend s ps) = prev_log s"
proof -
  assume "persist_ok s"
  then have "(if pm_live (pmem s) = 0 then 1 else 0) \<noteq> unat (pm_live (pmem s))" by (auto simp: unat_gt_0)
  from persistAppends_other[OF this, of ps] show ?thesis by (simp add: prev_log_def Let_def)
qed

lemma persistAppends_detached: "\<not> adopted s \<Longrightarrow> foldl persistAppend s ps = s"
  by (induction ps arbitrary: s) (simp_all add: persistAppend_def)

lemma prev_log_slots [simp]:
  "prev_log (s\<lparr>slots := x\<rparr>) = prev_log s" "prev_log (s\<lparr>l_clock := c\<rparr>) = prev_log s"
  by (simp_all add: prev_log_def)

lemma append_engine:
  assumes wf: "log_wf cap s" and nm: "length nm < WAPP_MAX_NAME_LEN" "str \<noteq> []"
    "LogStoreAppend origin nows (Some s) (Some nm) (Some str) = Some s'"
  shows "adopted s' = adopted s \<and> pcap s' = pcap s \<and> prev_log s' = prev_log s \<and>
    (adopted s \<longrightarrow> engine_log s' = (if nm = WANTED_ENGINE_LOG_NAME
       then lastn (pcap s) (engine_log s @ stamped origin nows 0 (log_mid_line s nm) str) else engine_log s)) \<and>
    (\<not> adopted s \<longrightarrow> pmem s' = pmem s)"
proof -
  have sw: "log_slots_wf cap (slots s)" using wf by (simp add: log_wf_def)
  let ?ps = "pieces origin nows 0 (log_mid_line s nm) str"
  have s': "s' = (if nm = WANTED_ENGINE_LOG_NAME then foldl persistAppend s ?ps else s)
            \<lparr>slots := slots s', l_clock := l_clock s + 1\<rparr>"
    by (rule append_slot[OF sw nm])
  define t where "t = (if nm = WANTED_ENGINE_LOG_NAME then foldl persistAppend s ?ps else s)"
  have t: "adopted t = adopted s" "pcap t = pcap s" by (simp_all add: t_def)
  have "prev_log t = prev_log s" "\<not> adopted s \<longrightarrow> pmem t = pmem s"
    using persistAppends_prev[of s] persistAppends_detached[of s] wf
    by (cases "adopted s"; simp add: t_def log_wf_def)+
  moreover have "adopted s \<longrightarrow> engine_log t = (if nm = WANTED_ENGINE_LOG_NAME
       then lastn (pcap s) (engine_log s @ stamped origin nows 0 (log_mid_line s nm) str) else engine_log s)"
    using engine_ring.apps_contents[of s ?ps] wf
    by (cases "nm = WANTED_ENGINE_LOG_NAME") (auto simp: t_def log_wf_def concat_pieces)
  moreover have eq: "s' = t\<lparr>slots := slots s', l_clock := l_clock s + 1\<rparr>" using s' by (simp add: t_def)
  moreover have "adopted s' = adopted t" "pcap s' = pcap t" "prev_log s' = prev_log t"
    "engine_log s' = engine_log t" "pmem s' = pmem t"
    by (subst eq, simp)+
  ultimately show ?thesis using t by (simp only:)
qed

text \<open>The store as a boot finds the region the previous one left, and adopts it.\<close>

definition region_ok :: "nat \<Rightarrow> persist_mem \<Rightarrow> bool" where
  "region_ok pc pm \<longleftrightarrow> length (pm_len pm) = 2 \<and> length (pm_half pm) = 2 \<and> (\<forall>h \<in> set (pm_half pm). length h = pc)"

definition adopt :: "nat \<Rightarrow> log_store \<Rightarrow> log_store" where
  "adopt pc s = the (LogStorePersistInit 0 (\<lambda>k. None) True pc [] (Some s))"

lemma persistInit_eq:
  assumes "\<not> adopted s" "pc > 0"
  shows "LogStorePersistInit origin nows True pc reason (Some s) =
    (if reason = [] then Some (adopt pc s)
     else LogStoreAppend origin nows (Some (adopt pc s)) (Some WANTED_ENGINE_LOG_NAME)
            (Some (''wanted: boot after '' @ strncpy_buf 24 reason @ [CHR 0x0A])))"
  using assms by (simp add: LogStorePersistInit_def adopt_def Let_def split_beta WantedLogCapture_def)

lemma adopt_fields:
  assumes "\<not> adopted s" "pc > 0"
  shows "slots (adopt pc s) = slots s" "adopted (adopt pc s)" "pcap (adopt pc s) = pc" "l_clock (adopt pc s) = l_clock s"
  using assms by (simp_all add: adopt_def LogStorePersistInit_def Let_def split_beta)

lemma u32_le_1: "(x :: u32) \<le> 1 \<longleftrightarrow> x = 0 \<or> x = 1"
  by (auto simp: word_le_nat_alt word_unat_eq_iff)

lemma adopt_ok:
  assumes "\<not> adopted s" "pc > 0" "region_ok pc (pmem s)" "pc < 2 ^ 32"
  shows "persist_ok (adopt pc s) \<and> engine_log (adopt pc s) = [] \<and> region_ok pc (pmem (adopt pc s))"
proof (cases "pm_magic (pmem s) \<noteq> PERSIST_MAGIC \<or> pm_live (pmem s) > 1")
  case True
  then show ?thesis using assms
    by (auto simp: adopt_def LogStorePersistInit_def Let_def persist_ok_def engine_log_def region_ok_def)
next
  case False
  then have "pm_live (pmem s) = 0 \<or> pm_live (pmem s) = 1" by (simp add: not_less u32_le_1)
  then show ?thesis using assms False
    by (auto simp: adopt_def LogStorePersistInit_def Let_def persist_ok_def engine_log_def region_ok_def)
qed

lemma adopt_prev:
  assumes "\<not> adopted s" "pm_magic (pmem s) = PERSIST_MAGIC" "pm_live (pmem s) \<le> 1"
    "unat (pm_len (pmem s) ! unat (pm_live (pmem s))) \<le> pc" "pc > 0"
  shows "prev_log (adopt pc s) = engine_log s"
  using assms
  by (auto simp: adopt_def LogStorePersistInit_def Let_def prev_log_def engine_log_def u32_le_1)

text \<open>
  C31: The engine's log survives a reset: whatever the engine logged before the reset, the next boot
  that adopts the same region reads it back, windowed as any log, under the reserved name of the
  previous boot's log, cut to the most recent characters that fit a half; and the new boot's own log
  starts over.
\<close>

theorem log_survives_reset:
  assumes "log_wf cap s" "adopted s" "region_ok (pcap s) (pmem s)" "str \<noteq> []"
    "LogStoreAppend origin nows (Some s) (Some WANTED_ENGINE_LOG_NAME) (Some str) = Some s1"
    "0 < nslots" "0 < cap'"
    "LogStorePersistInit origin' nows' True (pcap s) reason (Some (LogStore_new nslots cap' (pmem s1))) = Some s2"
  shows "fst (LogStoreRead (Some s2) (Some WANTED_PREV_LOG_NAME) True n off) =
      take n (drop off (lastn (pcap s)
        (engine_log s @ stamped origin nows 0 (log_mid_line s WANTED_ENGINE_LOG_NAME) str)))"
proof -
  let ?s0 = "LogStore_new nslots cap' (pmem s1)" and ?pc = "pcap s"
  have e: "length WANTED_ENGINE_LOG_NAME < WAPP_MAX_NAME_LEN" "length WANTED_PREV_LOG_NAME < WAPP_MAX_NAME_LEN"
    by (simp_all add: WANTED_ENGINE_LOG_NAME_def WANTED_PREV_LOG_NAME_def WAPP_MAX_NAME_LEN_def)
  have s1: "persist_ok s1" "engine_log s1 = lastn ?pc (engine_log s @
      stamped origin nows 0 (log_mid_line s WANTED_ENGINE_LOG_NAME) str)" "pcap s1 = ?pc"
    using append_spec[OF assms(1) e(1) assms(4,5)] append_engine[OF assms(1) e(1) assms(4,5)] assms(2)
    by (auto simp: log_wf_def)
  have s0: "\<not> adopted ?s0" "?pc > 0" "region_ok ?pc (pmem ?s0)" "?pc < 2 ^ 32" "pmem ?s0 = pmem s1"
    using s1(1,3) by (auto simp: LogStore_new_def region_ok_def persist_ok_def)
  let ?a = "adopt ?pc ?s0"
  have a: "persist_ok ?a" using adopt_ok[OF s0(1-4)] by simp
  have awf: "log_wf cap' ?a"
    using LogStore_new_wf[OF assms(6,7), of "pmem s1"] a adopt_fields[OF s0(1,2)] by (simp add: log_wf_def)
  have prev: "prev_log ?a = engine_log s1"
    using adopt_prev[OF s0(1), of ?pc] s1 s0(2) by (simp add: s0(5) persist_ok_def engine_log_def)
  have s2: "log_wf cap' s2 \<and> prev_log s2 = prev_log ?a"
  proof (cases "reason = []")
    case True
    then show ?thesis using assms(8) awf by (simp add: persistInit_eq[OF s0(1,2)])
  next
    case False
    let ?line = "''wanted: boot after '' @ strncpy_buf 24 reason @ [CHR 0x0A]"
    have ap: "LogStoreAppend origin' nows' (Some ?a) (Some WANTED_ENGINE_LOG_NAME) (Some ?line) = Some s2"
      using assms(8) False by (simp add: persistInit_eq[OF s0(1,2)])
    have "?line \<noteq> []" by simp
    show ?thesis using append_spec[OF awf e(1) \<open>?line \<noteq> []\<close> ap] append_engine[OF awf e(1) \<open>?line \<noteq> []\<close> ap] by blast
  qed
  then show ?thesis
    using read_spec[OF _ e(2), of cap' s2 n off] prev s1(2)
    by (cases "LogStoreRead (Some s2) (Some WANTED_PREV_LOG_NAME) True n off") auto
qed

text \<open>A first boot on blank memory that logged \<open>hi\<close>, and the boot after its reset.\<close>

definition demo_boot :: log_store where
  "demo_boot = adopt 8 (LogStore_new 2 9 (demo_region 8))"

lemma demo_boot_ok:
  "log_wf 9 demo_boot \<and> adopted demo_boot \<and> pcap demo_boot = 8 \<and> region_ok 8 (pmem demo_boot) \<and>
   engine_log demo_boot = [] \<and> log_mid_line demo_boot nm = False"
proof -
  have s: "\<not> adopted (LogStore_new 2 9 (demo_region 8))" "(8::nat) > 0" "region_ok 8 (pmem (LogStore_new 2 9 (demo_region 8)))"
    "(8::nat) < 2 ^ 32" by (simp_all add: LogStore_new_def demo_region_def region_ok_def)
  have "log_mid_line demo_boot nm = log_mid_line (LogStore_new 2 9 (demo_region 8)) nm"
    by (simp add: demo_boot_def log_mid_line_def log_slot_of_def adopt_fields[OF s(1,2)])
  then show ?thesis
    using adopt_ok[OF s] adopt_fields[OF s(1,2)] LogStore_new_wf[of 2 9 "demo_region 8"]
    by (simp add: demo_boot_def log_wf_def)
qed

theorem log_survives_reset_witness:
  "let s1 = the (LogStoreAppend 0 (\<lambda>k. None) (Some demo_boot) (Some WANTED_ENGINE_LOG_NAME) (Some ''hello''));
       s2 = the (LogStorePersistInit 0 (\<lambda>k. None) True 8 [] (Some (LogStore_new 1 9 (pmem s1))))
   in fst (LogStoreRead (Some s2) (Some WANTED_PREV_LOG_NAME) True 4 3) = ''hell''"
proof -
  let ?s1 = "the (LogStoreAppend 0 (\<lambda>k. None) (Some demo_boot) (Some WANTED_ENGINE_LOG_NAME) (Some ''hello''))"
  let ?s0 = "LogStore_new 1 9 (pmem ?s1)"
  have pc: "pcap demo_boot = 8" "region_ok (pcap demo_boot) (pmem demo_boot)" "log_wf 9 demo_boot" "adopted demo_boot"
    using demo_boot_ok by auto
  have "\<not> adopted ?s0" by (simp add: LogStore_new_def)
  then have i: "LogStorePersistInit 0 (\<lambda>k. None) True (pcap demo_boot) [] (Some ?s0) =
      Some (the (LogStorePersistInit 0 (\<lambda>k. None) True 8 [] (Some ?s0)))" by (simp add: persistInit_eq pc)
  have st: "take 4 (drop 3 (lastn 8 (stamped 0 (\<lambda>k. None) 0 False ''hello''))) = ''hell''" by code_simp
  show ?thesis
    using log_survives_reset[OF pc(3,4,2) _ LogStoreAppend_the _ _ i, of 4 3] demo_boot_ok st
    by (simp del: stamped.simps)
qed

text \<open>
  The buffer of \<open>LOG_STAMP_MAX\<close> characters is enough for every uptime a 64-bit clock can give: a
  line's stamp is never dropped.
\<close>

theorem stamp_never_dropped:
  "stamp origin now LOG_STAMP_MAX = ''[+'' @ dec_string (unat (LogStoreUptimeMs origin now)) @ ''] ''"
proof -
  have "unat (LogStoreUptimeMs origin now) < 2 ^ LENGTH(64)" by (rule unsigned_less)
  then have "unat (LogStoreUptimeMs origin now) < 10 ^ 20" by simp
  then have "length (dec_string (unat (LogStoreUptimeMs origin now))) \<le> 20"
    by (rule length_dec_string) simp
  then show ?thesis by (simp add: stamp_def Let_def LOG_STAMP_MAX_def)
qed

section \<open>Every reachable store\<close>

text \<open>
  The stores a boot can reach: names are wapp names, which are shorter than their buffer and never
  the reserved name of the previous boot's log.  A reset gives a fresh store on the region as it was.
\<close>

inductive log_reach :: "nat \<Rightarrow> nat \<Rightarrow> nat \<Rightarrow> log_store \<Rightarrow> bool" for n cap pc where
  boot: "region_ok pc pm \<Longrightarrow> log_reach n cap pc (LogStore_new n cap pm)"
| append: "log_reach n cap pc s \<Longrightarrow> length nm < WAPP_MAX_NAME_LEN \<Longrightarrow> nm \<noteq> WANTED_PREV_LOG_NAME \<Longrightarrow>
    LogStoreAppend origin nows (Some s) (Some nm) str = Some s' \<Longrightarrow> log_reach n cap pc s'"
| read: "log_reach n cap pc s \<Longrightarrow> length nm < WAPP_MAX_NAME_LEN \<Longrightarrow>
    LogStoreRead (Some s) (Some nm) True m off = (out, Some s') \<Longrightarrow> log_reach n cap pc s'"
| init: "log_reach n cap pc s \<Longrightarrow>
    LogStorePersistInit origin nows avail pc reason (Some s) = Some s' \<Longrightarrow> log_reach n cap pc s'"
| detach: "log_reach n cap pc s \<Longrightarrow> LogStorePersistDetach (Some s) = Some s' \<Longrightarrow> log_reach n cap pc s'"
| reset: "log_reach n cap pc s \<Longrightarrow> log_reach n cap pc (LogStore_new n cap (pmem s))"

definition log_inv :: "nat \<Rightarrow> nat \<Rightarrow> nat \<Rightarrow> log_store \<Rightarrow> bool" where
  "log_inv n cap pc s \<longleftrightarrow> log_wf cap s \<and> region_ok pc (pmem s) \<and> (adopted s \<longrightarrow> pcap s = pc) \<and>
     length (slots s) = n \<and> log_slot_of s WANTED_PREV_LOG_NAME = None"

lemma region_ok_append: "region_ok (pcap s) (pmem s) \<Longrightarrow> persist_ok s \<Longrightarrow> region_ok (pcap s) (pmem (persistAppend s p))"
  using persistAppend_log[of s p] by (auto simp: persist_ok_def region_ok_def)

lemma region_ok_persist: "persist_ok s \<Longrightarrow> region_ok (pcap s) (pmem s)"
  by (simp add: persist_ok_def region_ok_def)

lemma append_inv:
  assumes inv: "log_inv n cap pc s" and nm: "length nm < WAPP_MAX_NAME_LEN" "nm \<noteq> WANTED_PREV_LOG_NAME"
    and str: "str \<noteq> []" and ap: "LogStoreAppend origin nows (Some s) (Some nm) (Some str) = Some s'"
  shows "log_inv n cap pc s'"
proof -
  have wf: "log_wf cap s" and sw: "log_slots_wf cap (slots s)" using inv by (auto simp: log_inv_def log_wf_def)
  note sp = append_spec[OF wf nm(1) str ap] and en = append_engine[OF wf nm(1) str ap]
  obtain i sl where sl: "i < length (slots s)" "slots s' = (slots s)[i := sl]" "l_name sl = nm"
    by (rule append_slot[OF sw nm(1) str ap])
  have "log_slot_of s' WANTED_PREV_LOG_NAME = None"
    using inv sl nm(2) unfolding log_inv_def log_slot_of_None by (simp add: nth_list_update)
  moreover have "region_ok pc (pmem s')"
    using inv sp en region_ok_persist[of s'] by (cases "adopted s") (auto simp: log_inv_def log_wf_def)
  ultimately show ?thesis using sp en inv sl by (simp add: log_inv_def)
qed

lemma log_inv_new: "0 < n \<Longrightarrow> 0 < cap \<Longrightarrow> region_ok pc pm \<Longrightarrow> log_inv n cap pc (LogStore_new n cap pm)"
  using LogStore_new_wf[of n cap pm] by (simp add: log_inv_def) (simp add: LogStore_new_def)

lemma adopt_inv:
  assumes "log_inv n cap pc s" "\<not> adopted s" "pc > 0" "pc < 2 ^ 32"
  shows "log_inv n cap pc (adopt pc s)"
  using assms adopt_ok[OF assms(2,3) _ assms(4)] adopt_fields[OF assms(2,3)]
  by (simp add: log_inv_def log_wf_def log_slot_of_def)

lemma log_reach_inv:
  assumes "log_reach n cap pc s" "0 < n" "0 < cap" "pc < 2 ^ 32"
  shows "log_inv n cap pc s"
  using assms(1)
proof induction
  case (boot pm) then show ?case using assms by (simp add: log_inv_new)
next
  case (append s nm origin nows str s')
  then show ?case
    by (cases "str = None \<or> str = Some []") (auto simp: LogStoreAppend_def dest: append_inv)
next
  case (read s nm m off out s')
  then have wf: "log_wf cap s" by (simp add: log_inv_def)
  have sl: "length (slots s') = length (slots s)"
    "log_slot_of s WANTED_PREV_LOG_NAME = None \<Longrightarrow> log_slot_of s' WANTED_PREV_LOG_NAME = None"
    using read(3) by (auto simp: LogStoreRead_def Let_def log_slot_of_None nth_upd_nth split: if_splits option.splits)
  then show ?case using read_spec[OF wf read(2,3)] read(4) by (auto simp: log_inv_def)
next
  case (init s origin nows avail reason s')
  show ?case
  proof (cases "adopted s \<or> pc = 0 \<or> \<not> avail")
    case True then show ?thesis using init by (auto simp: LogStorePersistInit_def split: if_splits)
  next
    case False
    have e: "length WANTED_ENGINE_LOG_NAME < WAPP_MAX_NAME_LEN" "WANTED_ENGINE_LOG_NAME \<noteq> WANTED_PREV_LOG_NAME"
      by (simp_all add: WANTED_ENGINE_LOG_NAME_def WANTED_PREV_LOG_NAME_def WAPP_MAX_NAME_LEN_def)
    have "log_inv n cap pc (adopt pc s)" using adopt_inv init False assms(4) by simp
    note a = append_inv[OF this e]
    show ?thesis
      using init(2) False a[of "''wanted: boot after '' @ strncpy_buf 24 reason @ [CHR 0x0A]" origin nows s']
        \<open>log_inv n cap pc (adopt pc s)\<close>
      by (cases "reason = []") (simp_all add: persistInit_eq)
  qed
next
  case (detach s s')
  then show ?case by (auto simp: log_inv_def log_wf_def LogStorePersistDetach_def log_slot_of_def)
next
  case (reset s) then show ?case using assms by (simp add: log_inv_new log_inv_def[of _ _ _ s])
qed

lemma log_list_names:
  assumes "log_inv n cap pc s" "n < max_n"
  shows "LogStoreList (Some s) True max_n =
    (if prev_valid s \<and> adopted s then [WANTED_PREV_LOG_NAME] else []) @ map l_name (filter l_used (slots s))"
proof -
  have nm: "strncpy_buf WAPP_MAX_NAME_LEN (l_name sl) = l_name sl" if "sl \<in> set (slots s)" for sl
    using assms(1) that by (auto simp: log_inv_def log_wf_def log_slots_wf_def in_set_conv_nth intro!: strncpy_buf_fits)
  have p: "strncpy_buf WAPP_MAX_NAME_LEN WANTED_PREV_LOG_NAME = WANTED_PREV_LOG_NAME"
    by (simp add: strncpy_buf_def WAPP_MAX_NAME_LEN_def WANTED_PREV_LOG_NAME_def)
  have l: "length (filter l_used (slots s)) < max_n"
    using assms length_filter_le[of l_used "slots s"] by (simp add: log_inv_def)
  show ?thesis using l p nm by (auto simp: LogStoreList_def Let_def)
qed


lemma demo_log_reach: "log_reach 1 9 4 demo_log1"
proof -
  have r: "region_ok 4 (demo_region 4)" by (simp add: region_ok_def demo_region_def)
  have "WANTED_PREV_LOG_NAME \<noteq> ''a''" by (simp add: WANTED_PREV_LOG_NAME_def)
  then show ?thesis unfolding demo_log1_def
    by (intro log_reach.append[OF log_reach.boot[OF r] _ _ LogStoreAppend_the]) (auto simp: WAPP_MAX_NAME_LEN_def)
qed


end
