(* ===== verification/RtcTime.thy ===== *)
theory RtcTime
  imports CBase
begin

text \<open>
  Calendar time of the real-time clock (\<open>src/rtc/rtc-time.c\<close>) and the two PCF clock chips over a
  register bus (\<open>src/rtc/pcf8563.c\<close>, \<open>src/rtc/pcf85063.c\<close>, \<open>src/rtc/rtc-chip.c\<close>).

  Unix times are 32-bit words.  The fields of a broken-down time are naturals; a cast of the code to
  a narrower type is written out where a value could exceed it.  \<open>None\<close> of an option result stands
  for a read outside the month table.  The bus is a parameter: reads and writes of consecutive
  registers on a device state.
\<close>

section \<open>Model\<close>

definition RTC_UNIX_MIN :: nat where "RTC_UNIX_MIN = 946684800"

definition RTC_UNIX_MAX :: nat where "RTC_UNIX_MAX = 4102444799"

record rtc_tm =
  tm_year :: nat
  tm_mon :: nat
  tm_mday :: nat
  tm_hour :: nat
  tm_min :: nat
  tm_sec :: nat
  tm_wday :: nat

definition monthDays :: "nat list" where
  "monthDays = [31, 28, 31, 30, 31, 30, 31, 31, 30, 31, 30, 31]"

definition isLeap :: "nat \<Rightarrow> bool" where
  "isLeap year \<longleftrightarrow> year mod 4 = 0"

definition daysInMonth :: "nat \<Rightarrow> nat \<Rightarrow> nat option" where
  "daysInMonth year mon =
     (if mon < 1 \<or> mon > length monthDays then None
      else let d = monthDays ! (mon - 1) in Some (if mon = 2 \<and> isLeap year then d + 1 else d))"

function month_loop :: "nat \<Rightarrow> nat \<Rightarrow> nat \<Rightarrow> (nat \<times> nat) option" where
  "month_loop year mon doy =
     (case daysInMonth year mon of
        None \<Rightarrow> None
      | Some d \<Rightarrow> if doy \<ge> d then month_loop year (mon + 1) (doy - d) else Some (mon, doy))"
  by pat_completeness auto
termination
  by (relation "measure (\<lambda>(year, mon, doy). Suc (length monthDays) - mon)")
    (auto simp: daysInMonth_def split: if_splits)

declare month_loop.simps [simp del]

definition RtcUnixToTm :: "u32 \<Rightarrow> (errno + rtc_tm) option" where
  "RtcUnixToTm t =
     (if unat t < RTC_UNIX_MIN \<or> unat t > RTC_UNIX_MAX then Some (Inl EINVAL)
      else
        let secs = unat t - RTC_UNIX_MIN; days = secs div 86400; r = secs mod 86400;
            year0 = 2000 + 4 * (days div 1461); doy0 = days mod 1461;
            (year, doy) = (if doy0 \<ge> 366
                           then (year0 + (1 + (doy0 - 366) div 365), (doy0 - 366) mod 365)
                           else (year0, doy0))
        in case month_loop year 1 doy of
             None \<Rightarrow> None
           | Some (mon, d) \<Rightarrow> Some (Inr
               \<lparr>tm_year = year mod 2 ^ 16, tm_mon = mon mod 2 ^ 8, tm_mday = (d + 1) mod 2 ^ 8,
                tm_hour = r div 3600 mod 2 ^ 8, tm_min = r mod 3600 div 60 mod 2 ^ 8, tm_sec = r mod 60 mod 2 ^ 8,
                tm_wday = (6 + days) mod 7 mod 2 ^ 8\<rparr>))"

text \<open>The sum over the months before \<open>mon\<close> in \<open>RtcTmToUnix\<close>.\<close>

fun month_sum :: "nat \<Rightarrow> nat \<Rightarrow> nat \<Rightarrow> nat option" where
  "month_sum year days 0 = Some days"
| "month_sum year days (Suc m) =
     (case month_sum year days m of
        None \<Rightarrow> None
      | Some s \<Rightarrow> map_option (\<lambda>d. s + d) (daysInMonth year (Suc m)))"

definition RtcTmToUnix :: "rtc_tm \<Rightarrow> (errno + u32) option" where
  "RtcTmToUnix tm =
     (if tm_year tm < 2000 \<or> tm_year tm > 2099 \<or> tm_mon tm < 1 \<or> tm_mon tm > 12 then Some (Inl EINVAL)
      else
        case daysInMonth (tm_year tm) (tm_mon tm) of
          None \<Rightarrow> None
        | Some dim \<Rightarrow>
            if tm_mday tm < 1 \<or> tm_mday tm > dim \<or> tm_hour tm \<ge> 24 \<or> tm_min tm \<ge> 60 \<or> tm_sec tm \<ge> 60
            then Some (Inl EINVAL)
            else
              let years = tm_year tm - 2000; days0 = years * 365 + (years + 4 - 1) div 4
              in case month_sum (tm_year tm) days0 (tm_mon tm - 1) of
                   None \<Rightarrow> None
                 | Some days1 \<Rightarrow>
                     let days = days1 + (tm_mday tm - 1)
                     in Some (Inr (of_nat (RTC_UNIX_MIN + days * 86400 + tm_hour tm * 3600 +
                                           tm_min tm * 60 + tm_sec tm))))"

datatype rtc_source = RTC_SRC_NONE | RTC_SRC_RTC | RTC_SRC_SNTP | RTC_SRC_SERVER | RTC_SRC_MANUAL

fun RtcSourceName :: "rtc_source \<Rightarrow> string" where
  "RtcSourceName RTC_SRC_NONE = ''none''"
| "RtcSourceName RTC_SRC_RTC = ''rtc''"
| "RtcSourceName RTC_SRC_SNTP = ''sntp''"
| "RtcSourceName RTC_SRC_SERVER = ''server''"
| "RtcSourceName RTC_SRC_MANUAL = ''manual''"

fun RtcSourceQuality :: "rtc_source \<Rightarrow> nat" where
  "RtcSourceQuality RTC_SRC_NONE = 3"
| "RtcSourceQuality RTC_SRC_RTC = 0"
| "RtcSourceQuality RTC_SRC_SNTP = 1"
| "RtcSourceQuality RTC_SRC_SERVER = 2"
| "RtcSourceQuality RTC_SRC_MANUAL = 2"

definition findSource :: "string \<Rightarrow> errno + rtc_source" where
  "findSource word =
     (case find (\<lambda>s. length (RtcSourceName s) = length word \<and> RtcSourceName s = word)
             [RTC_SRC_RTC, RTC_SRC_SNTP, RTC_SRC_SERVER, RTC_SRC_MANUAL] of
        Some s \<Rightarrow> Inr s
      | None \<Rightarrow> Inl EINVAL)"

definition is_digit :: "char \<Rightarrow> bool" where
  "is_digit c \<longleftrightarrow> 48 \<le> (of_char c :: nat) \<and> (of_char c :: nat) \<le> 57"

text \<open>The digit loop from position \<open>n\<close> on, with the value so far: the digits read, their value and
  the rest; at most ten digits, so the 64-bit accumulator does not wrap.\<close>

fun digits_loop :: "nat \<Rightarrow> nat \<Rightarrow> string \<Rightarrow> errno + (nat \<times> nat \<times> string)" where
  "digits_loop n v [] = Inr (n, v, [])"
| "digits_loop n v (c # cs) =
     (if is_digit c then
        if n = 10 then Inl EINVAL else digits_loop (Suc n) (v * 10 + (of_char c - 48)) cs
      else Inr (n, v, c # cs))"

definition RtcParseWrite :: "string \<Rightarrow> errno + (u32 \<times> rtc_source)" where
  "RtcParseWrite buf0 =
     (let buf = (if buf0 \<noteq> [] \<and> last buf0 = CHR 0x0A then butlast buf0 else buf0) in
      case digits_loop 0 0 buf of
        Inl e \<Rightarrow> Inl e
      | Inr (n, v, rest) \<Rightarrow>
          if n = 0 \<or> v < RTC_UNIX_MIN \<or> v > RTC_UNIX_MAX then Inl EINVAL
          else case rest of
                 [] \<Rightarrow> Inr (of_nat v, RTC_SRC_MANUAL)
               | c # word \<Rightarrow>
                   if c \<noteq> CHR '' '' then Inl EINVAL
                   else (case findSource word of Inl e \<Rightarrow> Inl EINVAL | Inr s \<Rightarrow> Inr (of_nat v, s)))"

section \<open>Calendar conversions\<close>

definition dim :: "nat \<Rightarrow> nat \<Rightarrow> nat" where
  "dim y m = the (daysInMonth y m)"

definition before :: "nat \<Rightarrow> nat \<Rightarrow> nat" where
  "before y m = (\<Sum>k = 1..<m. dim y k)"

lemma daysInMonth_Some: "1 \<le> m \<Longrightarrow> m \<le> 12 \<Longrightarrow> daysInMonth y m = Some (dim y m)"
  by (simp add: dim_def daysInMonth_def monthDays_def Let_def)

lemma before_Suc: "1 \<le> m \<Longrightarrow> before y (Suc m) = before y m + dim y m"
  by (simp add: before_def)

lemma before_1 [simp]: "before y 1 = 0" "before y (Suc 0) = 0"
  by (simp_all add: before_def)

lemma dim_bound: "1 \<le> m \<Longrightarrow> m \<le> 12 \<Longrightarrow> 28 \<le> dim y m \<and> dim y m \<le> 31"
proof -
  assume "1 \<le> m" "m \<le> 12"
  then have "m = 1 \<or> m = 2 \<or> m = 3 \<or> m = 4 \<or> m = 5 \<or> m = 6 \<or> m = 7 \<or> m = 8 \<or> m = 9 \<or> m = 10 \<or> m = 11 \<or> m = 12"
    by presburger
  then show ?thesis by (auto simp: dim_def daysInMonth_def monthDays_def)
qed

lemma year_days: "before y 13 = (if isLeap y then 366 else 365)"
  by (simp add: before_def dim_def daysInMonth_def monthDays_def numeral_eq_Suc)

lemma month_loop_spec:
  "1 \<le> mon \<Longrightarrow> mon \<le> 12 \<Longrightarrow> before y mon + doy < before y 13 \<Longrightarrow>
   \<exists>m d. month_loop y mon doy = Some (m, d) \<and> mon \<le> m \<and> m \<le> 12 \<and> d < dim y m \<and>
     before y mon + doy = before y m + d"
proof (induction y mon doy rule: month_loop.induct)
  case (1 y mon doy)
  note dm = daysInMonth_Some[OF 1(2,3), of y]
  show ?case
  proof (cases "doy \<ge> dim y mon")
    case False then show ?thesis using 1(2,3) by (auto simp: month_loop.simps[of y mon] dm)
  next
    case True
    have lt: "mon \<noteq> 12" using True 1(4) before_Suc[of 12 y] by (auto simp: numeral_eq_Suc)
    have "\<exists>m d. month_loop y (mon + 1) (doy - dim y mon) = Some (m, d) \<and> mon + 1 \<le> m \<and> m \<le> 12 \<and>
        d < dim y m \<and> before y (mon + 1) + (doy - dim y mon) = before y m + d"
      by (rule 1(1)[OF dm True]) (use 1(2,3,4) lt True before_Suc[OF 1(2), of y] in auto)
    then show ?thesis using True before_Suc[OF 1(2), of y] by (auto simp: month_loop.simps[of y mon] dm)
  qed
qed

lemma before_mono: "1 \<le> a \<Longrightarrow> a \<le> b \<Longrightarrow> before y a \<le> before y b"
  unfolding before_def by (rule sum_mono2) auto

lemma month_day_unique:
  assumes "1 \<le> m" "1 \<le> m'" "d < dim y m" "d' < dim y m'" "before y m + d = before y m' + d'"
  shows "m = m' \<and> d = d'"
proof -
  have *: "\<not> a < b" if "1 \<le> a" "e < dim y a" "before y a + e = before y b + e'" for a b e e'
  proof
    assume "a < b"
    then have "before y (Suc a) \<le> before y b" using that(1) by (intro before_mono) auto
    then show False using that before_Suc[OF that(1), of y] by linarith
  qed
  have "m = m'" using *[OF assms(1,3,5)] *[OF assms(2,4) assms(5)[symmetric]] by simp
  then show ?thesis using assms by simp
qed

lemma month_sum_eq: "m \<le> 12 \<Longrightarrow> month_sum y days m = Some (days + before y (Suc m))"
proof (induction m)
  case (Suc m)
  then show ?case using before_Suc[of "Suc m" y] by (simp add: daysInMonth_Some)
qed simp

text \<open>Days since 2000-01-01 of a day of a year, and back.\<close>

definition year_start :: "nat \<Rightarrow> nat" where
  "year_start y = (y - 2000) * 365 + (y - 2000 + 4 - 1) div 4"

lemma year_start_Suc: "2000 \<le> y \<Longrightarrow> year_start (Suc y) = year_start y + before y 13"
proof -
  assume "2000 \<le> y"
  then obtain k where k: "y = 2000 + k" by (metis le_Suc_ex)
  have leap: "isLeap y \<longleftrightarrow> k mod 4 = 0" unfolding k isLeap_def by presburger
  have "(k + 4) div 4 = (k + 3) div 4 + (if k mod 4 = 0 then 1 else 0)" by presburger
  then show ?thesis unfolding year_days leap by (simp add: year_start_def k add.commute)
qed

lemma year_of_days:
  assumes "days < 36525"
  shows "\<exists>year doy. (let year0 = 2000 + 4 * (days div 1461); doy0 = days mod 1461
     in if doy0 \<ge> 366 then (year0 + (1 + (doy0 - 366) div 365), (doy0 - 366) mod 365) else (year0, doy0)) = (year, doy) \<and>
     2000 \<le> year \<and> year \<le> 2099 \<and> doy < before year 13 \<and> days = year_start year + doy"
proof -
  define q where "q = days div 1461"
  define r where "r = days mod 1461"
  have d: "days = 1461 * q + r" "r < 1461" by (simp_all add: q_def r_def)
  have q: "q < 25" using assms by (simp add: q_def less_mult_imp_div_less)
  show ?thesis
  proof (cases "r \<ge> 366")
    case True
    define k where "k = (r - 366) div 365"
    define e where "e = (r - 366) mod 365"
    have k: "k \<le> 2" "r - 366 = 365 * k + e" "e < 365" using d(2) by (auto simp: k_def e_def)
    have nl: "\<not> isLeap (2000 + 4 * q + (1 + k))" using k(1) by (simp add: isLeap_def) presburger
    have "year_start (2000 + 4 * q + (1 + k)) = 1461 * q + 366 + 365 * k"
      using k(1) by (simp add: year_start_def)
    then show ?thesis using True d k q nl
      by (auto simp: Let_def q_def[symmetric] r_def[symmetric] k_def[symmetric] e_def[symmetric] year_days)
  next
    case False
    have l: "isLeap (2000 + 4 * q)" by (simp add: isLeap_def)
    have "year_start (2000 + 4 * q) = 1461 * q" by (simp add: year_start_def) 
    then show ?thesis using False d q l
      by (auto simp: Let_def q_def[symmetric] r_def[symmetric] year_days)
  qed
qed

definition tm_valid :: "rtc_tm \<Rightarrow> bool" where
  "tm_valid tm \<longleftrightarrow> 2000 \<le> tm_year tm \<and> tm_year tm \<le> 2099 \<and> 1 \<le> tm_mon tm \<and> tm_mon tm \<le> 12 \<and>
     1 \<le> tm_mday tm \<and> tm_mday tm \<le> dim (tm_year tm) (tm_mon tm) \<and>
     tm_hour tm < 24 \<and> tm_min tm < 60 \<and> tm_sec tm < 60"

definition tm_days :: "rtc_tm \<Rightarrow> nat" where
  "tm_days tm = year_start (tm_year tm) + (before (tm_year tm) (tm_mon tm) + (tm_mday tm - 1))"

definition tm_rem :: "rtc_tm \<Rightarrow> nat" where
  "tm_rem tm = tm_hour tm * 3600 + tm_min tm * 60 + tm_sec tm"

lemma RtcTmToUnix_eq:
  "RtcTmToUnix tm = Some (if tm_valid tm then Inr (of_nat (RTC_UNIX_MIN + tm_days tm * 86400 + tm_rem tm)) else Inl EINVAL)"
proof (cases "2000 \<le> tm_year tm \<and> tm_year tm \<le> 2099 \<and> 1 \<le> tm_mon tm \<and> tm_mon tm \<le> 12")
  case True
  then have m: "daysInMonth (tm_year tm) (tm_mon tm) = Some (dim (tm_year tm) (tm_mon tm))"
    "month_sum (tm_year tm) d (tm_mon tm - 1) = Some (d + before (tm_year tm) (tm_mon tm))" for d
    by (auto simp: daysInMonth_Some month_sum_eq)
  show ?thesis
  proof (cases "tm_valid tm")
    case v: True
    then have "RtcTmToUnix tm = Some (Inr (of_nat (RTC_UNIX_MIN + (year_start (tm_year tm) +
        before (tm_year tm) (tm_mon tm) + (tm_mday tm - 1)) * 86400 + tm_hour tm * 3600 + tm_min tm * 60 + tm_sec tm)))"
      unfolding RtcTmToUnix_def m Let_def year_start_def
      by (simp add: tm_valid_def m(2)[simplified] del: of_nat_add of_nat_mult)
    then show ?thesis using v by (simp only: tm_days_def tm_rem_def add.assoc if_True)
  next
    case False
    then show ?thesis using True by (auto simp: RtcTmToUnix_def m tm_valid_def)
  qed
qed (auto simp: RtcTmToUnix_def tm_valid_def)

lemma doy_less: "tm_valid tm \<Longrightarrow> before (tm_year tm) (tm_mon tm) + (tm_mday tm - 1) < before (tm_year tm) 13"
  using before_Suc[of "tm_mon tm" "tm_year tm"] before_mono[of "Suc (tm_mon tm)" 13 "tm_year tm"]
  by (auto simp: tm_valid_def)

lemma year_start_mono: "a \<le> b \<Longrightarrow> year_start a \<le> year_start b"
  unfolding year_start_def by (intro add_mono mult_le_mono1 div_le_mono) auto

lemma tm_days_less: "tm_valid tm \<Longrightarrow> tm_days tm < 36525"
proof -
  assume v: "tm_valid tm"
  then have y: "2000 \<le> tm_year tm" "Suc (tm_year tm) \<le> 2100" by (auto simp: tm_valid_def)
  have "year_start 2100 = 36525" by (simp add: year_start_def)
  then show ?thesis using year_start_Suc[OF y(1)] year_start_mono[OF y(2)] doy_less[OF v] by (simp add: tm_days_def)
qed

lemma tm_rem_less: "tm_valid tm \<Longrightarrow> tm_rem tm < 86400"
  by (auto simp: tm_valid_def tm_rem_def)

lemma year_doy_unique:
  assumes "2000 \<le> y" "2000 \<le> y'" "d < before y 13" "d' < before y' 13" "year_start y + d = year_start y' + d'"
  shows "y = y' \<and> d = d'"
proof -
  have *: "\<not> a < b" if "2000 \<le> a" "e < before a 13" "year_start a + e = year_start b + e'" for a b e e'
    using year_start_mono[of "Suc a" b] year_start_Suc[OF that(1)] that by auto
  have "y = y'" using *[OF assms(1,3,5)] *[OF assms(2,4) assms(5)[symmetric]] by simp
  then show ?thesis using assms by simp
qed

lemma tm_unique:
  assumes "tm_valid a" "tm_valid b" "tm_days a = tm_days b" "tm_rem a = tm_rem b"
  shows "a = b\<lparr>tm_wday := tm_wday a\<rparr>"
proof -
  have y: "tm_year a = tm_year b \<and> before (tm_year a) (tm_mon a) + (tm_mday a - 1) =
      before (tm_year b) (tm_mon b) + (tm_mday b - 1)"
    using assms by (intro year_doy_unique doy_less) (auto simp: tm_valid_def tm_days_def)
  have "tm_mon a = tm_mon b \<and> tm_mday a - 1 = tm_mday b - 1"
    by (rule month_day_unique[of _ _ _ "tm_year a"]) (use y assms in \<open>auto simp: tm_valid_def\<close>)
  moreover have "tm_hour a = tm_hour b \<and> tm_min a = tm_min b \<and> tm_sec a = tm_sec b"
  proof -
    have b: "tm_min a < 60" "tm_sec a < 60" "tm_min b < 60" "tm_sec b < 60" using assms by (auto simp: tm_valid_def)
    have e: "tm_hour a * 3600 + tm_min a * 60 + tm_sec a = tm_hour b * 3600 + tm_min b * 60 + tm_sec b"
      using assms(4) by (simp add: tm_rem_def)
    have h: "tm_hour a = tm_hour b" using b e by linarith
    then have "tm_min a = tm_min b" using b e by linarith
    then show ?thesis using h e by linarith
  qed
  ultimately show ?thesis using y assms by (intro rtc_tm.equality) (auto simp: tm_valid_def)
qed

lemma RtcUnixToTm_spec:
  assumes "RTC_UNIX_MIN \<le> unat t" "unat t \<le> RTC_UNIX_MAX"
  obtains tm where "RtcUnixToTm t = Some (Inr tm)" "tm_valid tm"
    "RTC_UNIX_MIN + tm_days tm * 86400 + tm_rem tm = unat t" "tm_wday tm = (6 + tm_days tm) mod 7"
proof -
  define secs where "secs = unat t - RTC_UNIX_MIN"
  define days where "days = secs div 86400"
  define r where "r = secs mod 86400"
  have days: "days < 36525" "secs = days * 86400 + r" "r < 86400"
    using assms by (auto simp: days_def r_def secs_def RTC_UNIX_MIN_def RTC_UNIX_MAX_def less_mult_imp_div_less)
  obtain year doy where yd: "(let year0 = 2000 + 4 * (days div 1461); doy0 = days mod 1461
     in if doy0 \<ge> 366 then (year0 + (1 + (doy0 - 366) div 365), (doy0 - 366) mod 365) else (year0, doy0)) = (year, doy)"
    "2000 \<le> year" "year \<le> 2099" "doy < before year 13" "days = year_start year + doy"
    using year_of_days[OF days(1)] by blast
  obtain m d where md: "month_loop year 1 doy = Some (m, d)" "1 \<le> m" "m \<le> 12" "d < dim year m" "doy = before year m + d"
    using month_loop_spec[of 1 year doy] yd(4) by auto
  define tm where "tm = \<lparr>tm_year = year, tm_mon = m, tm_mday = d + 1, tm_hour = r div 3600,
     tm_min = r mod 3600 div 60, tm_sec = r mod 60, tm_wday = (6 + days) mod 7\<rparr>"
  have d31: "d < 31" using dim_bound[OF md(2,3), of year] md(4) by simp
  have "RtcUnixToTm t = (case month_loop year 1 doy of None \<Rightarrow> None | Some (mon, d) \<Rightarrow> Some (Inr
               \<lparr>tm_year = year mod 2 ^ 16, tm_mon = mon mod 2 ^ 8, tm_mday = (d + 1) mod 2 ^ 8,
                tm_hour = r div 3600 mod 2 ^ 8, tm_min = r mod 3600 div 60 mod 2 ^ 8, tm_sec = r mod 60 mod 2 ^ 8,
                tm_wday = (6 + days) mod 7 mod 2 ^ 8\<rparr>))"
    using yd(1) assms unfolding RtcUnixToTm_def Let_def secs_def[symmetric] days_def[symmetric] r_def[symmetric]
    by simp
  moreover have h: "r div 3600 < 24" using days(3) by (simp add: less_mult_imp_div_less)
  ultimately have eq: "RtcUnixToTm t = Some (Inr tm)"
    using md(1,3) d31 yd(3) by (simp add: tm_def)
  have v: "tm_valid tm" using yd(2,3) md(2-4) h by (simp add: tm_valid_def tm_def)
  have "r mod 3600 mod 60 = r mod 60" by (rule mod_mod_cancel) simp
  then have "r mod 3600 div 60 * 60 + r mod 60 = r mod 3600" by (metis div_mult_mod_eq)
  then have rem: "tm_rem tm = r" using div_mult_mod_eq[of r 3600] by (simp add: tm_rem_def tm_def add.assoc)
  have td: "tm_days tm = days" using yd(5) md(5) by (simp add: tm_days_def tm_def)
  show thesis
  proof (rule that[OF eq v])
    show "RTC_UNIX_MIN + tm_days tm * 86400 + tm_rem tm = unat t"
      using days(2) assms(1) by (simp add: td rem secs_def)
    show "tm_wday tm = (6 + tm_days tm) mod 7" by (simp add: td) (simp add: tm_def)
  qed
qed

text \<open>
  C33: Every Unix time of the range 2000 to 2099 converts to a calendar time, with no read past the
  month table, and that calendar time converts back to it.
\<close>

theorem rtc_unix_roundtrip:
  assumes "RTC_UNIX_MIN \<le> unat t" "unat t \<le> RTC_UNIX_MAX"
  shows "\<exists>tm. RtcUnixToTm t = Some (Inr tm) \<and> tm_wday tm < 7 \<and> RtcTmToUnix tm = Some (Inr t)"
proof -
  obtain tm where tm: "RtcUnixToTm t = Some (Inr tm)" "tm_valid tm"
    "RTC_UNIX_MIN + tm_days tm * 86400 + tm_rem tm = unat t" "tm_wday tm = (6 + tm_days tm) mod 7"
    using RtcUnixToTm_spec[OF assms] .
  show ?thesis using tm(1,2,4) by (auto simp: RtcTmToUnix_eq tm(3) simp del: of_nat_add of_nat_mult)
qed

theorem rtc_unix_roundtrip_witness:
  "\<exists>tm. RtcUnixToTm 951868799 = Some (Inr tm) \<and> tm_wday tm < 7 \<and> RtcTmToUnix tm = Some (Inr 951868799)"
  using rtc_unix_roundtrip[of 951868799] by (simp add: RTC_UNIX_MIN_def RTC_UNIX_MAX_def)


section \<open>Writes to the time file\<close>

definition digits_val :: "nat \<Rightarrow> string \<Rightarrow> nat" where
  "digits_val v ds = foldl (\<lambda>v c. v * 10 + (of_char c - 48)) v ds"

lemma digits_loop_digits:
  "list_all is_digit ds \<Longrightarrow> n + length ds \<le> 10 \<Longrightarrow>
   digits_loop n v (ds @ rest) = digits_loop (n + length ds) (digits_val v ds) rest"
  by (induction ds arbitrary: n v) (auto simp: digits_val_def)

lemma digit_char: "d < 10 \<Longrightarrow> is_digit (digit_char d) \<and> (of_char (digit_char d) :: nat) = 48 + d"
  by (simp add: is_digit_def digit_char_def)

lemma dec_string_digits:
  "list_all is_digit (dec_string n) \<and> digits_val v (dec_string n) = v * 10 ^ length (dec_string n) + n"
proof (induction n arbitrary: v rule: dec_string.induct)
  case (1 n)
  show ?case
  proof (cases "n < 10")
    case True
    then show ?thesis using digit_char[OF True] by (simp add: dec_string.simps[of n] digits_val_def)
  next
    case False
    have m: "n mod 10 < 10" by simp
    show ?thesis using 1[OF False, of v] False digit_char[OF m]
      by (simp add: dec_string.simps[of n] digits_val_def algebra_simps)
  qed
qed

lemma last_not_newline:
  "last (dec_string n) \<noteq> CHR 0x0A" "last (RtcSourceName src) \<noteq> CHR 0x0A"
proof -
  have "is_digit (last (dec_string n))"
    using dec_string_digits[of n 0] last_in_set[of "dec_string n"] by (auto simp: list_all_iff)
  then show "last (dec_string n) \<noteq> CHR 0x0A" by (auto simp: is_digit_def)
  show "last (RtcSourceName src) \<noteq> CHR 0x0A" by (cases src) auto
qed

lemma parse_number:
  assumes "RTC_UNIX_MIN \<le> s" "s \<le> RTC_UNIX_MAX" "rest = [] \<or> \<not> is_digit (hd rest)"
  shows "digits_loop 0 0 (dec_string s @ rest) = Inr (length (dec_string s), s, rest)"
proof -
  have "length (dec_string s) \<le> 10" using assms by (intro length_dec_string) (auto simp: RTC_UNIX_MAX_def)
  then show ?thesis using digits_loop_digits[of "dec_string s" 0 0 rest] dec_string_digits[of s 0] assms(3)
    by (cases rest) auto
qed

lemma findSource_name: "src \<noteq> RTC_SRC_NONE \<Longrightarrow> findSource (RtcSourceName src) = Inr src"
  by (cases src) (auto simp: findSource_def)

lemma findSource_Inr: "findSource w = Inr src \<Longrightarrow> src \<noteq> RTC_SRC_NONE"
  by (auto simp: findSource_def split: option.splits if_splits)

text \<open>
  C35: A write to the time file is accepted with the time and source it names, with or without the
  source and the final newline; and whatever is accepted lies in the supported range and never names
  the source none.
\<close>

theorem rtc_parse_write:
  assumes "RTC_UNIX_MIN \<le> s" "s \<le> RTC_UNIX_MAX" "src \<noteq> RTC_SRC_NONE"
    "RtcParseWrite buf = Inr (t', src')"
  shows "RtcParseWrite (dec_string s) = Inr (of_nat s, RTC_SRC_MANUAL) \<and>
    RtcParseWrite (dec_string s @ [CHR 0x0A]) = Inr (of_nat s, RTC_SRC_MANUAL) \<and>
    RtcParseWrite (dec_string s @ '' '' @ RtcSourceName src) = Inr (of_nat s, src) \<and>
    RtcParseWrite (dec_string s @ '' '' @ RtcSourceName src @ [CHR 0x0A]) = Inr (of_nat s, src) \<and>
    RTC_UNIX_MIN \<le> unat t' \<and> unat t' \<le> RTC_UNIX_MAX \<and> src' \<noteq> RTC_SRC_NONE"
proof -
  have ne: "RtcSourceName src \<noteq> []" by (cases src) auto
  have p0: "digits_loop 0 0 (dec_string s) = Inr (length (dec_string s), s, [])"
    using parse_number[OF assms(1,2), of "[]"] by simp
  have p1: "digits_loop 0 0 (dec_string s @ CHR '' '' # w) = Inr (length (dec_string s), s, CHR '' '' # w)" for w
    using parse_number[OF assms(1,2), of "CHR '' '' # w"] by (simp add: is_digit_def)
  have rng: "\<not> s < RTC_UNIX_MIN" "\<not> RTC_UNIX_MAX < s" using assms by auto
  have a: "RtcParseWrite (dec_string s) = Inr (of_nat s, RTC_SRC_MANUAL)"
    "RtcParseWrite (dec_string s @ [CHR 0x0A]) = Inr (of_nat s, RTC_SRC_MANUAL)"
    using p0 rng last_not_newline(1)[of s] by (simp_all add: RtcParseWrite_def Let_def)
  have b: "RtcParseWrite (dec_string s @ '' '' @ RtcSourceName src) = Inr (of_nat s, src)"
    "RtcParseWrite (dec_string s @ '' '' @ RtcSourceName src @ [CHR 0x0A]) = Inr (of_nat s, src)"
    using p1 rng last_not_newline(2)[of src] ne findSource_name[OF assms(3)]
    by (simp_all add: RtcParseWrite_def Let_def butlast_append)
  have "\<exists>v. v \<ge> RTC_UNIX_MIN \<and> v \<le> RTC_UNIX_MAX \<and> t' = of_nat v \<and> src' \<noteq> RTC_SRC_NONE"
    using assms(4) by (auto simp: RtcParseWrite_def Let_def not_less split: sum.splits if_splits list.splits)
      (blast dest: findSource_Inr)+
  then obtain v where dl: "v \<ge> RTC_UNIX_MIN" "v \<le> RTC_UNIX_MAX" "t' = of_nat v" "src' \<noteq> RTC_SRC_NONE" by blast
  have "unat t' = v" using dl(2) by (simp add: dl(3) unat_of_nat take_bit_nat_eq_self RTC_UNIX_MAX_def)
  then show ?thesis using a b dl by simp
qed

theorem rtc_parse_write_witness:
  "RtcParseWrite ''1000000000 sntp'' = Inr (1000000000, RTC_SRC_SNTP) \<and>
   RtcParseWrite ''1000000000'' = Inr (1000000000, RTC_SRC_MANUAL)"
proof -
  have d: "dec_string 1000000000 = ''1000000000''"
    by (simp add: dec_string.simps digit_char_def char_of_def bit_Suc_0_iff)
  have p: "RtcParseWrite ''946684800'' = Inr (946684800, RTC_SRC_MANUAL)"
    by (simp add: RtcParseWrite_def is_digit_def RTC_UNIX_MIN_def RTC_UNIX_MAX_def)
  show ?thesis using rtc_parse_write[OF _ _ _ p, of 1000000000 RTC_SRC_SNTP]
    by (simp add: d RTC_UNIX_MIN_def RTC_UNIX_MAX_def)
qed

end
