(* ===== verification/RtcChip.thy ===== *)
theory RtcChip
  imports RtcTime
begin

text \<open>
  The two clock chips over a register bus (\<open>src/rtc/pcf8563.c\<close>, \<open>src/rtc/pcf85063.c\<close>) and the device
  a chip on a bus makes (\<open>src/rtc/rtc-chip.c\<close>).  The bus belongs to the board: it is a parameter, a
  pair of functions on a device state, with the registers a transaction starts at and the bytes it
  carries.  A chip's \<open>get\<close> answers \<open>None\<close> when the chip cannot vouch for its time.
\<close>

section \<open>Model\<close>

record 's rtc_bus =
  bus_read :: "nat \<Rightarrow> nat \<Rightarrow> 's \<Rightarrow> (errno + byte list) \<times> 's"
  bus_write :: "nat \<Rightarrow> byte list \<Rightarrow> 's \<Rightarrow> (errno + unit) \<times> 's"

record 's rtc_chip =
  chip_init :: "'s rtc_bus \<Rightarrow> 's \<Rightarrow> (errno + unit) \<times> 's"
  chip_get :: "'s rtc_bus \<Rightarrow> 's \<Rightarrow> (errno + rtc_tm option) \<times> 's"
  chip_set :: "'s rtc_bus \<Rightarrow> rtc_tm \<Rightarrow> 's \<Rightarrow> (errno + unit) \<times> 's"

definition toBcd :: "nat \<Rightarrow> byte" where
  "toBcd v = of_nat (push_bit 4 (v div 10) OR (v mod 10))"

definition fromBcd :: "byte \<Rightarrow> int" where
  "fromBcd b =
     (let tens = unat (drop_bit 4 b); ones = unat (b AND 0x0F)
      in if tens > 9 \<or> ones > 9 then -1 else int (tens * 10 + ones))"

subsection \<open>PCF8563\<close>

definition pcf8563_init :: "'s rtc_bus \<Rightarrow> 's \<Rightarrow> (errno + unit) \<times> 's" where
  "pcf8563_init bus s =
     (case bus_read bus 0x00 1 s of
        (Inl e, s1) \<Rightarrow> (Inl e, s1)
      | (Inr r, s1) \<Rightarrow>
          let c1 = r ! 0 in
          if c1 AND 0xA0 = 0 then (Inr (), s1)
          else bus_write bus 0x00 [c1 AND NOT 0xA0] s1)"

text \<open>The seven time registers as fields; \<open>None\<close> when one cannot be trusted.\<close>

definition pcf8563_fields :: "byte list \<Rightarrow> rtc_tm option" where
  "pcf8563_fields r =
     (let sec = fromBcd (r ! 0 AND 0x7F); minute = fromBcd (r ! 1 AND 0x7F); hour = fromBcd (r ! 2 AND 0x3F);
          day = fromBcd (r ! 3 AND 0x3F); wday = uint (r ! 4 AND 0x07); mon = fromBcd (r ! 5 AND 0x1F);
          year = fromBcd (r ! 6)
      in if r ! 0 AND 0x80 = 0 \<and> r ! 5 AND 0x80 = 0 \<and> wday \<le> 6 \<and>
            (\<forall>f \<in> set [sec, minute, hour, day, wday, mon, year]. f \<ge> 0)
         then Some \<lparr>tm_year = (2000 + nat year) mod 2 ^ 16, tm_mon = nat mon mod 2 ^ 8,
                    tm_mday = nat day mod 2 ^ 8, tm_hour = nat hour mod 2 ^ 8, tm_min = nat minute mod 2 ^ 8,
                    tm_sec = nat sec mod 2 ^ 8, tm_wday = nat wday mod 2 ^ 8\<rparr>
         else None)"

definition pcf8563_get :: "'s rtc_bus \<Rightarrow> 's \<Rightarrow> (errno + rtc_tm option) \<times> 's" where
  "pcf8563_get bus s =
     (case bus_read bus 0x02 7 s of
        (Inl e, s1) \<Rightarrow> (Inl e, s1)
      | (Inr r, s1) \<Rightarrow> (Inr (pcf8563_fields r), s1))"

definition pcf_regs :: "rtc_tm \<Rightarrow> byte list" where
  "pcf_regs tm = [toBcd (tm_sec tm), toBcd (tm_min tm), toBcd (tm_hour tm), toBcd (tm_mday tm),
     of_nat (tm_wday tm), toBcd (tm_mon tm), toBcd (tm_year tm - 2000)]"

definition tm_converts :: "rtc_tm \<Rightarrow> bool" where
  "tm_converts tm \<longleftrightarrow> (case RtcTmToUnix tm of Some (Inr t) \<Rightarrow> True | _ \<Rightarrow> False)"

definition pcf8563_set :: "'s rtc_bus \<Rightarrow> rtc_tm \<Rightarrow> 's \<Rightarrow> (errno + unit) \<times> 's" where
  "pcf8563_set bus tm s =
     (if \<not> tm_converts tm \<or> tm_wday tm > 6 then (Inl EINVAL, s)
      else
        case bus_write bus 0x02 (pcf_regs tm) s of
          (Inl e, s1) \<Rightarrow> (Inl e, s1)
        | (Inr u, s1) \<Rightarrow>
            (case bus_read bus 0x02 1 s1 of
               (Inl e, s2) \<Rightarrow> (Inl e, s2)
             | (Inr r, s2) \<Rightarrow> (if r ! 0 AND 0x80 \<noteq> 0 then Inl EIO else Inr (), s2)))"

definition RtcChipPcf8563 :: "'s rtc_chip" where
  "RtcChipPcf8563 = \<lparr>chip_init = pcf8563_init, chip_get = pcf8563_get, chip_set = pcf8563_set\<rparr>"

subsection \<open>PCF85063A\<close>

definition pcf85063_init :: "'s rtc_bus \<Rightarrow> 's \<Rightarrow> (errno + unit) \<times> 's" where
  "pcf85063_init bus s =
     (case bus_read bus 0x00 1 s of
        (Inl e, s1) \<Rightarrow> (Inl e, s1)
      | (Inr r, s1) \<Rightarrow>
          let c1 = r ! 0 in
          if c1 AND 0x22 = 0 then (Inr (), s1)
          else bus_write bus 0x00 [c1 AND NOT 0x22] s1)"

definition pcf85063_fields :: "byte list \<Rightarrow> rtc_tm option" where
  "pcf85063_fields r =
     (let sec = fromBcd (r ! 0 AND 0x7F); minute = fromBcd (r ! 1 AND 0x7F); hour = fromBcd (r ! 2 AND 0x3F);
          day = fromBcd (r ! 3 AND 0x3F); wday = uint (r ! 4 AND 0x07); mon = fromBcd (r ! 5 AND 0x1F);
          year = fromBcd (r ! 6)
      in if r ! 0 AND 0x80 = 0 \<and> wday \<le> 6 \<and>
            (\<forall>f \<in> set [sec, minute, hour, day, wday, mon, year]. f \<ge> 0)
         then Some \<lparr>tm_year = (2000 + nat year) mod 2 ^ 16, tm_mon = nat mon mod 2 ^ 8,
                    tm_mday = nat day mod 2 ^ 8, tm_hour = nat hour mod 2 ^ 8, tm_min = nat minute mod 2 ^ 8,
                    tm_sec = nat sec mod 2 ^ 8, tm_wday = nat wday mod 2 ^ 8\<rparr>
         else None)"

definition pcf85063_get :: "'s rtc_bus \<Rightarrow> 's \<Rightarrow> (errno + rtc_tm option) \<times> 's" where
  "pcf85063_get bus s =
     (case bus_read bus 0x04 7 s of
        (Inl e, s1) \<Rightarrow> (Inl e, s1)
      | (Inr r, s1) \<Rightarrow> (Inr (pcf85063_fields r), s1))"

definition pcf85063_set :: "'s rtc_bus \<Rightarrow> rtc_tm \<Rightarrow> 's \<Rightarrow> (errno + unit) \<times> 's" where
  "pcf85063_set bus tm s =
     (if \<not> tm_converts tm \<or> tm_wday tm > 6 then (Inl EINVAL, s)
      else
        case bus_write bus 0x04 (pcf_regs tm) s of
          (Inl e, s1) \<Rightarrow> (Inl e, s1)
        | (Inr u, s1) \<Rightarrow>
            (case bus_read bus 0x04 1 s1 of
               (Inl e, s2) \<Rightarrow> (Inl e, s2)
             | (Inr r, s2) \<Rightarrow> (if r ! 0 AND 0x80 \<noteq> 0 then Inl EIO else Inr (), s2)))"

definition RtcChipPcf85063 :: "'s rtc_chip" where
  "RtcChipPcf85063 = \<lparr>chip_init = pcf85063_init, chip_get = pcf85063_get, chip_set = pcf85063_set\<rparr>"

text \<open>Which of the two answers at the shared address.\<close>

datatype pcf_kind = Pcf8563 | Pcf85063

definition RtcChipPcfDetect :: "'s rtc_bus \<Rightarrow> 's \<Rightarrow> (errno + unit) \<times> pcf_kind option \<times> 's" where
  "RtcChipPcfDetect bus s =
     (case bus_read bus 0x03 1 s of
        (Inl e, s1) \<Rightarrow> (Inl e, None, s1)
      | (Inr r0, s1) \<Rightarrow>
          let before = r0 ! 0 in
          (case bus_write bus 0x03 [before OR 0x80] s1 of
             (Inl e, s2) \<Rightarrow> (Inl e, None, s2)
           | (Inr u, s2) \<Rightarrow>
               (case bus_read bus 0x03 1 s2 of
                  (Inl e, s3) \<Rightarrow> (Inl e, None, s3)
                | (Inr r1, s3) \<Rightarrow>
                    if r1 ! 0 AND 0x80 = 0 then (Inr (), Some Pcf8563, s3)
                    else if before AND 0x80 \<noteq> 0 then (Inr (), Some Pcf85063, s3)
                    else (case bus_write bus 0x03 [before] s3 of (rc, s4) \<Rightarrow> (rc, Some Pcf85063, s4)))))"

subsection \<open>The device\<close>

definition chipGet :: "'s rtc_chip \<Rightarrow> 's rtc_bus \<Rightarrow> 's \<Rightarrow> (errno + u32 option) \<times> 's" where
  "chipGet chip bus s =
     (case chip_get chip bus s of
        (Inl e, s1) \<Rightarrow> (Inl e, s1)
      | (Inr None, s1) \<Rightarrow> (Inr None, s1)
      | (Inr (Some tm), s1) \<Rightarrow>
          (Inr (case RtcTmToUnix tm of Some (Inr t) \<Rightarrow> Some t | _ \<Rightarrow> None), s1))"

text \<open>The last case cannot arise: the conversion never reads past the month table.\<close>

definition chipSet :: "'s rtc_chip \<Rightarrow> 's rtc_bus \<Rightarrow> u32 \<Rightarrow> 's \<Rightarrow> (errno + unit) \<times> 's" where
  "chipSet chip bus sec s =
     (case RtcUnixToTm sec of
        Some (Inr tm) \<Rightarrow> chip_set chip bus tm s
      | Some (Inl e) \<Rightarrow> (Inl e, s)
      | None \<Rightarrow> (Inl EINVAL, s))"

section \<open>A time set is the time read\<close>

lemma bcd_table:
  "list_all (\<lambda>v. fromBcd (toBcd v) = int v) [0..<100]"
  "list_all (\<lambda>v. fromBcd (toBcd v AND 0x7F) = int v \<and> toBcd v AND 0x80 = 0) [0..<60]"
  "list_all (\<lambda>v. fromBcd (toBcd v AND 0x3F) = int v) [0..<32]"
  "list_all (\<lambda>v. fromBcd (toBcd v AND 0x1F) = int v \<and> toBcd v AND 0x80 = 0) [0..<13]"
  "list_all (\<lambda>v. uint (of_nat v AND 0x07 :: byte) = int v) [0..<7]"
  by code_simp+

lemma bcd_simps:
  "v < 100 \<Longrightarrow> fromBcd (toBcd v) = int v"
  "v < 60 \<Longrightarrow> fromBcd (toBcd v AND 0x7F) = int v"
  "v < 60 \<Longrightarrow> toBcd v AND 0x80 = 0"
  "v < 32 \<Longrightarrow> fromBcd (toBcd v AND 0x3F) = int v"
  "v < 13 \<Longrightarrow> fromBcd (toBcd v AND 0x1F) = int v"
  "v < 13 \<Longrightarrow> toBcd v AND 0x80 = 0"
  "v < 7 \<Longrightarrow> uint (of_nat v AND 0x07 :: byte) = int v"
  using bcd_table unfolding list_all_iff set_upt by auto

lemma tm_converts_valid: "tm_converts tm = tm_valid tm"
  by (simp add: tm_converts_def RtcTmToUnix_eq)

lemma pcf_fields_regs:
  assumes "tm_valid tm" "tm_wday tm \<le> 6"
  shows "pcf8563_fields (pcf_regs tm) = Some tm \<and> pcf85063_fields (pcf_regs tm) = Some tm \<and>
    pcf_regs tm ! 0 AND 0x80 = 0 \<and> length (pcf_regs tm) = 7"
proof -
  have b: "tm_sec tm < 60" "tm_min tm < 60" "tm_hour tm < 32" "tm_hour tm < 24" "tm_mday tm < 32" "tm_mon tm < 13" "tm_wday tm < 7"
    "tm_year tm - 2000 < 100" "2000 \<le> tm_year tm" "tm_year tm \<le> 2099"
    using assms dim_bound[of "tm_mon tm" "tm_year tm"] by (auto simp: tm_valid_def)
  show ?thesis
    using b by (auto simp: pcf8563_fields_def pcf85063_fields_def pcf_regs_def Let_def bcd_simps intro!: rtc_tm.equality)
qed

text \<open>
  C36: On a bus whose device keeps the registers written to it, setting either chip to a Unix time of
  the range 2000 to 2099 succeeds, and the time read back from it is the same and is vouched for.
\<close>

theorem rtc_chip_roundtrip:
  assumes "RTC_UNIX_MIN \<le> unat t" "unat t \<le> RTC_UNIX_MAX"
    "(chip, reg) = (RtcChipPcf8563, 0x02) \<or> (chip, reg) = (RtcChipPcf85063, 0x04)"
    "\<forall>bs. length bs = 7 \<longrightarrow> bus_write bus reg bs s = (Inr (), put bs) \<and>
       bus_read bus reg 1 (put bs) = (Inr (take 1 bs), put bs) \<and> bus_read bus reg 7 (put bs) = (Inr bs, put bs)"
  shows "\<exists>bs. chipSet chip bus t s = (Inr (), put bs) \<and> chipGet chip bus (put bs) = (Inr (Some t), put bs)"
proof -
  obtain tm where tm: "RtcUnixToTm t = Some (Inr tm)" "tm_valid tm"
    "RTC_UNIX_MIN + tm_days tm * 86400 + tm_rem tm = unat t" "tm_wday tm = (6 + tm_days tm) mod 7"
    using RtcUnixToTm_spec[OF assms(1,2)] .
  have w: "tm_wday tm \<le> 6" by (simp add: tm(4))
  note f = pcf_fields_regs[OF tm(2) w]
  have b: "bus_write bus reg (pcf_regs tm) s = (Inr (), put (pcf_regs tm))"
    "bus_read bus reg (Suc 0) (put (pcf_regs tm)) = (Inr (take 1 (pcf_regs tm)), put (pcf_regs tm))"
    "bus_read bus reg 7 (put (pcf_regs tm)) = (Inr (pcf_regs tm), put (pcf_regs tm))"
    using assms(4) f by auto
  have u: "RtcTmToUnix tm = Some (Inr t)"
    using tm(2) by (simp add: RtcTmToUnix_eq tm(3) del: of_nat_add of_nat_mult)
  from assms(3) show ?thesis
    by (intro exI[of _ "pcf_regs tm"])
      (use f b w tm(1,2) u in \<open>auto simp: chipSet_def chipGet_def RtcChipPcf8563_def RtcChipPcf85063_def
        pcf8563_set_def pcf85063_set_def pcf8563_get_def pcf85063_get_def tm_converts_valid\<close>)
qed

definition ram_bus :: "byte list rtc_bus" where
  "ram_bus = \<lparr>bus_read = (\<lambda>reg n s. (Inr (take n (drop reg s)), s)),
     bus_write = (\<lambda>reg bs s. (Inr (), memcpy_at s reg bs (length bs)))\<rparr>"

theorem rtc_chip_roundtrip_witness:
  "\<exists>s. chipSet RtcChipPcf8563 ram_bus 1000000000 (replicate 16 0) = (Inr (), s) \<and>
       chipGet RtcChipPcf8563 ram_bus s = (Inr (Some 1000000000), s)"
proof -
  have "\<forall>bs. length bs = 7 \<longrightarrow> bus_write ram_bus 2 bs (replicate 16 0) = (Inr (), memcpy_at (replicate 16 0) 2 bs 7) \<and>
       bus_read ram_bus 2 1 (memcpy_at (replicate 16 0) 2 bs 7) = (Inr (take 1 bs), memcpy_at (replicate 16 0) 2 bs 7) \<and>
       bus_read ram_bus 2 7 (memcpy_at (replicate 16 0) 2 bs 7) = (Inr bs, memcpy_at (replicate 16 0) 2 bs 7)"
    by (simp add: ram_bus_def memcpy_at_def)
  from rtc_chip_roundtrip[OF _ _ _ this, of 1000000000 RtcChipPcf8563] show ?thesis
    by (auto simp: RTC_UNIX_MIN_def RTC_UNIX_MAX_def)
qed

end
