(* ===== verification/RegistryRecord.thy ===== *)
theory RegistryRecord
  imports CBase
begin

text \<open>
  The per-entry registry record (\<open>src/registry-record.c\<close>, \<open>platform/include/registry-meta.h\<close>): its
  stored little-endian form, the form older builds wrote, and digests as hexadecimal text.

  The arrays of a record have one element per layer slot of the build; \<open>maxl\<close> is the build's
  \<open>REGISTRY_META_MAX_LAYERS\<close>.  The 64-bit times are kept as the words their bytes make.
\<close>

section \<open>Model\<close>

definition REGISTRY_META_MAGIC :: u32 where "REGISTRY_META_MAGIC = 0x57415034"

definition REGISTRY_META_MAGIC_V3 :: u32 where "REGISTRY_META_MAGIC_V3 = 0x57415033"

definition REGISTRY_META_DIGEST_LEN :: nat where "REGISTRY_META_DIGEST_LEN = 32"

definition REGISTRY_META_SIG_LEN :: nat where "REGISTRY_META_SIG_LEN = 64"

definition REGISTRY_META_SEEDED :: byte where "REGISTRY_META_SEEDED = 1"

definition REGISTRY_META_SIGNED :: byte where "REGISTRY_META_SIGNED = 2"

definition REGISTRY_META_CLOCK_UNSET :: byte where "REGISTRY_META_CLOCK_UNSET = 4"

definition REGISTRY_RECORD_HEADER_LEN :: nat where "REGISTRY_RECORD_HEADER_LEN = 36"

definition REGISTRY_RECORD_LAYER_LEN :: nat where "REGISTRY_RECORD_LAYER_LEN = 4 + REGISTRY_META_DIGEST_LEN"

definition REGISTRY_RECORD_ABS_MAX_LAYERS :: nat where "REGISTRY_RECORD_ABS_MAX_LAYERS = 16"

definition REGISTRY_RECORD_MAX :: nat where
  "REGISTRY_RECORD_MAX = REGISTRY_RECORD_HEADER_LEN +
     REGISTRY_RECORD_ABS_MAX_LAYERS * REGISTRY_RECORD_LAYER_LEN + REGISTRY_META_SIG_LEN"

lemmas record_consts = REGISTRY_META_DIGEST_LEN_def REGISTRY_META_SIG_LEN_def
  REGISTRY_RECORD_HEADER_LEN_def REGISTRY_RECORD_LAYER_LEN_def REGISTRY_RECORD_ABS_MAX_LAYERS_def
  REGISTRY_RECORD_MAX_def

record registry_meta =
  m_magic :: u32
  m_size :: u32
  m_keyId :: u32
  m_installSeq :: u32
  m_installed :: u64
  m_created :: u64
  m_layerCount :: byte
  m_flags :: byte
  m_layerLen :: "u32 list"
  m_layerDigest :: "byte list list"
  m_signature :: "byte list"

definition put32 :: "u32 \<Rightarrow> byte list" where
  "put32 v = [ucast v, ucast (drop_bit 8 v), ucast (drop_bit 16 v), ucast (drop_bit 24 v)]"

definition get32 :: "byte list \<Rightarrow> u32" where
  "get32 p = ucast (p ! 0) OR push_bit 8 (ucast (p ! 1)) OR push_bit 16 (ucast (p ! 2)) OR
     push_bit 24 (ucast (p ! 3))"

definition put64 :: "u64 \<Rightarrow> byte list" where
  "put64 v = put32 (ucast (v AND 0xffffffff)) @ put32 (ucast (drop_bit 32 v))"

definition get64 :: "byte list \<Rightarrow> u64" where
  "get64 p = ucast (get32 p) OR push_bit 32 (ucast (get32 (drop 4 p)))"

text \<open>The empty list stands for the result 0: nothing was written.\<close>

definition RegistryRecordEncode :: "nat \<Rightarrow> registry_meta \<Rightarrow> nat \<Rightarrow> byte list" where
  "RegistryRecordEncode maxl meta cap =
     (let n = unat (m_layerCount meta) in
      if n > maxl then []
      else if cap < REGISTRY_RECORD_HEADER_LEN + n * REGISTRY_RECORD_LAYER_LEN + REGISTRY_META_SIG_LEN then []
      else
        put32 REGISTRY_META_MAGIC @ [m_flags meta, m_layerCount meta, 0, 0] @
        put32 (m_keyId meta) @ put32 (m_installSeq meta) @ put32 (m_size meta) @
        put64 (m_installed meta) @ put64 (m_created meta) @
        concat (map (\<lambda>i. put32 (m_layerLen meta ! i) @ m_layerDigest meta ! i) [0..<n]) @
        m_signature meta)"

text \<open>\<open>memset(meta, 0, sizeof(*meta))\<close>.\<close>

definition meta_zero :: "nat \<Rightarrow> registry_meta" where
  "meta_zero maxl = \<lparr>m_magic = 0, m_size = 0, m_keyId = 0, m_installSeq = 0, m_installed = 0,
     m_created = 0, m_layerCount = 0, m_flags = 0, m_layerLen = replicate maxl 0,
     m_layerDigest = replicate maxl (replicate REGISTRY_META_DIGEST_LEN 0),
     m_signature = replicate REGISTRY_META_SIG_LEN 0\<rparr>"

definition decodeV3 :: "nat \<Rightarrow> byte list \<Rightarrow> registry_meta option" where
  "decodeV3 maxl inp =
     (if length inp < 16 + maxl * REGISTRY_META_DIGEST_LEN + REGISTRY_META_SIG_LEN then None
      else if unat (inp ! 12) > maxl then None
      else
        let z = meta_zero maxl; n = unat (inp ! 12); size = get32 (drop 4 inp) in
        Some (z\<lparr>m_magic := REGISTRY_META_MAGIC, m_size := size, m_keyId := get32 (drop 8 inp),
                m_layerCount := inp ! 12, m_flags := inp ! 13 OR REGISTRY_META_CLOCK_UNSET,
                m_layerDigest := map (\<lambda>i. take REGISTRY_META_DIGEST_LEN (drop (16 + i * REGISTRY_META_DIGEST_LEN) inp))
                  [0..<n] @ drop n (m_layerDigest z),
                m_layerLen := (if n = 1 then (m_layerLen z)[0 := size] else m_layerLen z),
                m_signature := take REGISTRY_META_SIG_LEN (drop (16 + maxl * REGISTRY_META_DIGEST_LEN) inp)\<rparr>))"

definition RegistryRecordDecode :: "nat \<Rightarrow> byte list \<Rightarrow> registry_meta option" where
  "RegistryRecordDecode maxl inp =
     (if length inp < 4 then None
      else if get32 inp = REGISTRY_META_MAGIC_V3 then decodeV3 maxl inp
      else if get32 inp \<noteq> REGISTRY_META_MAGIC \<or> length inp < REGISTRY_RECORD_HEADER_LEN then None
      else
        let n = unat (inp ! 5); off = (\<lambda>i. REGISTRY_RECORD_HEADER_LEN + i * REGISTRY_RECORD_LAYER_LEN) in
        if n > maxl then None
        else if length inp < REGISTRY_RECORD_HEADER_LEN + n * REGISTRY_RECORD_LAYER_LEN + REGISTRY_META_SIG_LEN then None
        else
          let z = meta_zero maxl in
          Some (z\<lparr>m_magic := REGISTRY_META_MAGIC, m_flags := inp ! 4, m_layerCount := inp ! 5,
                  m_keyId := get32 (drop 8 inp), m_installSeq := get32 (drop 12 inp), m_size := get32 (drop 16 inp),
                  m_installed := get64 (drop 20 inp), m_created := get64 (drop 28 inp),
                  m_layerLen := map (\<lambda>i. get32 (drop (off i) inp)) [0..<n] @ drop n (m_layerLen z),
                  m_layerDigest := map (\<lambda>i. take REGISTRY_META_DIGEST_LEN (drop (off i + 4) inp)) [0..<n] @
                    drop n (m_layerDigest z),
                  m_signature := take REGISTRY_META_SIG_LEN (drop (off n) inp)\<rparr>))"

definition hex_digit :: "byte \<Rightarrow> char" where
  "hex_digit v = ''0123456789abcdef'' ! unat v"

definition RegistryDigestToHex :: "byte list \<Rightarrow> string" where
  "RegistryDigestToHex digest = concat (map (\<lambda>b. [hex_digit (drop_bit 4 b), hex_digit (b AND 0x0f)]) digest)"

definition hexValue :: "char \<Rightarrow> int" where
  "hexValue c =
     (let v = of_char c :: int in
      if 48 \<le> v \<and> v \<le> 57 then v - 48 else if 97 \<le> v \<and> v \<le> 102 then v - 97 + 10 else -1)"

fun hex_loop :: "string \<Rightarrow> errno + byte list" where
  "hex_loop (a # b # s) =
     (if hexValue a < 0 \<or> hexValue b < 0 then Inl EINVAL
      else case hex_loop s of
             Inl e \<Rightarrow> Inl e
           | Inr bs \<Rightarrow> Inr (word_of_int (push_bit 4 (hexValue a) OR hexValue b) # bs))"
| "hex_loop s = Inr []"

definition RegistryDigestFromHex :: "string \<Rightarrow> errno + byte list" where
  "RegistryDigestFromHex hex = (if length hex \<noteq> 2 * REGISTRY_META_DIGEST_LEN then Inl EINVAL else hex_loop hex)"

section \<open>Round trips\<close>

lemma length_put [simp]: "length (put32 v) = 4" "length (put64 w) = 8"
  by (simp_all add: put32_def put64_def)

lemma get32_put32: "get32 (put32 v @ rest) = v"
proof (rule bit_word_eqI)
  fix n assume "n < LENGTH(32)"
  then show "bit (get32 (put32 v @ rest)) n = bit v n"
    by (cases "n < 16"; cases "n < 24") (auto simp: get32_def put32_def bit_simps)
qed

lemma get64_put64: "get64 (put64 v @ rest) = v"
proof -
  have m: "(0xffffffff :: u64) = mask 32" by (simp add: mask_eq_exp_minus_1)
  have a: "get32 (put64 v @ rest) = ucast (v AND mask 32)" "get32 (drop 4 (put64 v @ rest)) = ucast (drop_bit 32 v)"
    using get32_put32 by (simp_all add: put64_def m)
  show ?thesis unfolding get64_def a
    by (rule bit_word_eqI) (auto simp: bit_simps)
qed

text \<open>Reading at an offset inside a concatenation.\<close>

lemma get32_at: "length pre = n \<Longrightarrow> get32 (drop n (pre @ put32 v @ rest)) = v"
  by (simp add: get32_put32)

lemma get64_at: "length pre = n \<Longrightarrow> get64 (drop n (pre @ put64 v @ rest)) = v"
  by (simp add: get64_put64)

lemma nth_concat_const:
  assumes "\<And>x. x \<in> set xs \<Longrightarrow> length (f x) = k" "i < length xs"
  shows "drop (i * k) (concat (map f xs) @ rest) = f (xs ! i) @ drop (Suc i * k) (concat (map f xs) @ rest)"
  using assms
proof (induction xs arbitrary: i)
  case (Cons x xs)
  show ?case
  proof (cases i)
    case 0 then show ?thesis using Cons.prems(1)[of x] by simp
  next
    case (Suc j) then show ?thesis using Cons.IH[of j] Cons.prems by simp
  qed
qed simp

definition meta_ok :: "nat \<Rightarrow> registry_meta \<Rightarrow> bool" where
  "meta_ok maxl m \<longleftrightarrow> m_magic m = REGISTRY_META_MAGIC \<and> unat (m_layerCount m) \<le> maxl \<and>
     length (m_layerLen m) = maxl \<and> length (m_layerDigest m) = maxl \<and>
     (\<forall>d \<in> set (m_layerDigest m). length d = REGISTRY_META_DIGEST_LEN) \<and>
     length (m_signature m) = REGISTRY_META_SIG_LEN"

text \<open>A record as a build with \<open>maxl\<close> layer slots holds it: the layers it uses, the rest zero.\<close>

definition meta_slots :: "nat \<Rightarrow> registry_meta \<Rightarrow> registry_meta" where
  "meta_slots maxl m = (let n = unat (m_layerCount m) in
     m\<lparr>m_layerLen := take n (m_layerLen m) @ replicate (maxl - n) 0,
       m_layerDigest := take n (m_layerDigest m) @ replicate (maxl - n) (replicate REGISTRY_META_DIGEST_LEN 0)\<rparr>)"

definition enc_layers :: "registry_meta \<Rightarrow> byte list" where
  "enc_layers m = concat (map (\<lambda>i. put32 (m_layerLen m ! i) @ m_layerDigest m ! i) [0..<unat (m_layerCount m)])"

definition enc_header :: "registry_meta \<Rightarrow> byte list" where
  "enc_header m = put32 REGISTRY_META_MAGIC @ [m_flags m, m_layerCount m, 0, 0] @
        put32 (m_keyId m) @ put32 (m_installSeq m) @ put32 (m_size m) @
        put64 (m_installed m) @ put64 (m_created m)"

lemma enc_header_length [simp]: "length (enc_header m) = REGISTRY_RECORD_HEADER_LEN"
  by (simp add: enc_header_def record_consts)

lemma enc_header_fields:
  "get32 (enc_header m @ r) = REGISTRY_META_MAGIC" "(enc_header m @ r) ! 4 = m_flags m"
  "(enc_header m @ r) ! 5 = m_layerCount m" "get32 (drop 8 (enc_header m @ r)) = m_keyId m"
  "get32 (drop 12 (enc_header m @ r)) = m_installSeq m" "get32 (drop 16 (enc_header m @ r)) = m_size m"
  "get64 (drop 20 (enc_header m @ r)) = m_installed m" "get64 (drop 28 (enc_header m @ r)) = m_created m"
  by (simp_all add: enc_header_def get32_put32 get64_put64 nth_append)

lemma encode_eq:
  "RegistryRecordEncode maxl m cap =
    (if unat (m_layerCount m) > maxl \<or> cap < REGISTRY_RECORD_HEADER_LEN +
        unat (m_layerCount m) * REGISTRY_RECORD_LAYER_LEN + REGISTRY_META_SIG_LEN then []
     else enc_header m @ enc_layers m @ m_signature m)"
  by (simp add: RegistryRecordEncode_def enc_header_def enc_layers_def Let_def)

lemma layer_piece:
  "meta_ok maxl m \<Longrightarrow> i < unat (m_layerCount m) \<Longrightarrow>
   length (put32 (m_layerLen m ! i) @ m_layerDigest m ! i) = REGISTRY_RECORD_LAYER_LEN"
  by (auto simp: meta_ok_def record_consts)

lemma enc_layers_length:
  assumes "meta_ok maxl m"
  shows "length (enc_layers m) = unat (m_layerCount m) * REGISTRY_RECORD_LAYER_LEN"
proof -
  have "length (concat (map f [0..<k])) = k * c" if "\<And>i. i < k \<Longrightarrow> length (f i) = c" for f :: "nat \<Rightarrow> byte list" and k c
    using that by (induction k) auto
  from this[OF layer_piece[OF assms]] show ?thesis by (simp only: enc_layers_def)
qed

lemma decode_encode_gen:
  assumes ok: "meta_ok maxl m" and cap: "RegistryRecordEncode maxl m cap \<noteq> []"
  shows "RegistryRecordDecode maxl' (RegistryRecordEncode maxl m cap @ rest) =
    (if unat (m_layerCount m) \<le> maxl' then Some (meta_slots maxl' m) else None)"
proof -
  let ?n = "unat (m_layerCount m)" and ?L = REGISTRY_RECORD_LAYER_LEN and ?H = REGISTRY_RECORD_HEADER_LEN
  define inp where "inp = enc_header m @ enc_layers m @ m_signature m @ rest"
  have enc: "RegistryRecordEncode maxl m cap @ rest = inp" using cap by (auto simp: encode_eq inp_def split: if_splits)
  note hdr = enc_header_fields[of m "enc_layers m @ m_signature m @ rest", folded inp_def]
  have piece: "drop (?H + i * ?L) inp = (put32 (m_layerLen m ! i) @ m_layerDigest m ! i) @ drop (?H + Suc i * ?L) inp"
    if "i < ?n" for i
    using nth_concat_const[of "[0..<?n]" "\<lambda>i. put32 (m_layerLen m ! i) @ m_layerDigest m ! i" ?L i "m_signature m @ rest"]
      layer_piece[OF ok] that by (simp add: inp_def enc_layers_def)
  have len: "get32 (drop (?H + i * ?L) inp) = m_layerLen m ! i" if "i < ?n" for i
    using piece[OF that] get32_put32 by simp
  have dl: "length (m_layerDigest m ! i) = REGISTRY_META_DIGEST_LEN" if "i < ?n" for i
    using ok that by (auto simp: meta_ok_def)
  have dig: "take REGISTRY_META_DIGEST_LEN (drop (?H + i * ?L + 4) inp) = m_layerDigest m ! i" if "i < ?n" for i
  proof -
    have "drop (?H + i * ?L + 4) inp = drop 4 (drop (?H + i * ?L) inp)" by (simp add: add.commute)
    then show ?thesis unfolding piece[OF that] using dl[OF that] by simp
  qed
  have lens: "map (\<lambda>i. get32 (drop (?H + i * ?L) inp)) [0..<?n] = take ?n (m_layerLen m)"
    and digs: "map (\<lambda>i. take REGISTRY_META_DIGEST_LEN (drop (?H + i * ?L + 4) inp)) [0..<?n] = take ?n (m_layerDigest m)"
    using ok len dig by (auto simp: meta_ok_def intro!: nth_equalityI)
  have sig: "take REGISTRY_META_SIG_LEN (drop (?H + ?n * ?L) inp) = m_signature m"
    using ok enc_layers_length[OF ok] by (simp add: inp_def meta_ok_def)
  have big: "length inp \<ge> ?H + ?n * ?L + REGISTRY_META_SIG_LEN"
    using ok enc_layers_length[OF ok] by (simp add: inp_def meta_ok_def)
  then have ll: "\<not> length inp < 4" "\<not> length inp < ?H" by (auto simp: record_consts)
  have mg: "REGISTRY_META_MAGIC \<noteq> REGISTRY_META_MAGIC_V3"
    by (simp add: REGISTRY_META_MAGIC_def REGISTRY_META_MAGIC_V3_def)
  show ?thesis unfolding enc RegistryRecordDecode_def hdr Let_def lens digs sig
    using big ll mg ok by (simp add: meta_slots_def meta_zero_def Let_def meta_ok_def)
qed

lemma encode_portable:
  assumes "meta_ok maxl m" "maxl \<le> REGISTRY_RECORD_ABS_MAX_LAYERS" "REGISTRY_RECORD_MAX \<le> cap"
  shows "RegistryRecordEncode maxl m cap \<noteq> [] \<and> length (RegistryRecordEncode maxl m cap) \<le> REGISTRY_RECORD_MAX \<and>
    RegistryRecordDecode maxl' (RegistryRecordEncode maxl m cap @ rest) =
      (if unat (m_layerCount m) \<le> maxl' then Some (meta_slots maxl' m) else None)"
proof -
  have n: "unat (m_layerCount m) \<le> REGISTRY_RECORD_ABS_MAX_LAYERS" using assms(1,2) by (simp add: meta_ok_def)
  then have "REGISTRY_RECORD_HEADER_LEN + unat (m_layerCount m) * REGISTRY_RECORD_LAYER_LEN + REGISTRY_META_SIG_LEN
      \<le> REGISTRY_RECORD_MAX" by (simp add: record_consts)
  moreover have "enc_header m \<noteq> []" by (simp add: enc_header_def put32_def)
  ultimately have e: "RegistryRecordEncode maxl m cap = enc_header m @ enc_layers m @ m_signature m"
      "RegistryRecordEncode maxl m cap \<noteq> []" "length (RegistryRecordEncode maxl m cap) \<le> REGISTRY_RECORD_MAX"
    using assms enc_layers_length[OF assms(1)] by (auto simp: encode_eq meta_ok_def)
  then show ?thesis using decode_encode_gen[OF assms(1) e(2)] by simp
qed

text \<open>
  C37: A record one build writes is read by any build, whatever its own layer limit: a build with
  enough layer slots gets the same record, with the slots beyond the layers zero, whatever follows
  the record in the buffer; one with too few refuses it.  It always fits \<open>REGISTRY_RECORD_MAX\<close>.
\<close>

theorem record_portable:
  assumes "meta_ok maxl m" "maxl \<le> REGISTRY_RECORD_ABS_MAX_LAYERS" "REGISTRY_RECORD_MAX \<le> cap"
  shows "RegistryRecordEncode maxl m cap \<noteq> [] \<and> length (RegistryRecordEncode maxl m cap) \<le> REGISTRY_RECORD_MAX \<and>
    RegistryRecordDecode maxl' (RegistryRecordEncode maxl m cap @ rest) =
      (if unat (m_layerCount m) \<le> maxl' then Some (meta_slots maxl' m) else None)"
  by (rule encode_portable[OF assms])

definition demo_meta :: registry_meta where
  "demo_meta = \<lparr>m_magic = REGISTRY_META_MAGIC, m_size = 7, m_keyId = 0x01020304, m_installSeq = 5,
     m_installed = 1000000000, m_created = 0, m_layerCount = 1, m_flags = 2, m_layerLen = [7, 0],
     m_layerDigest = replicate 2 (replicate 32 0xAB), m_signature = replicate 64 9\<rparr>"

theorem record_portable_witness:
  "RegistryRecordDecode 1 (RegistryRecordEncode 2 demo_meta REGISTRY_RECORD_MAX @ [1]) = Some (meta_slots 1 demo_meta) \<and>
   RegistryRecordDecode 0 (RegistryRecordEncode 2 demo_meta REGISTRY_RECORD_MAX @ [1]) = None"
proof -
  have "meta_ok 2 demo_meta" by (simp add: meta_ok_def demo_meta_def record_consts)
  from record_portable[OF this, of REGISTRY_RECORD_MAX 1 "[1]"] record_portable[OF this, of REGISTRY_RECORD_MAX 0 "[1]"]
  show ?thesis by (simp add: record_consts demo_meta_def)
qed

lemma decode_meta_ok:
  assumes "RegistryRecordDecode maxl inp = Some m"
  shows "meta_ok maxl m"
proof (cases "get32 inp = REGISTRY_META_MAGIC_V3")
  case True
  then have d: "decodeV3 maxl inp = Some m" using assms by (simp add: RegistryRecordDecode_def split: if_splits)
  then have b: "16 + maxl * REGISTRY_META_DIGEST_LEN + REGISTRY_META_SIG_LEN \<le> length inp" "unat (inp ! 12) \<le> maxl"
    by (auto simp: decodeV3_def split: if_splits)
  have "length (take REGISTRY_META_DIGEST_LEN (drop (16 + i * REGISTRY_META_DIGEST_LEN) inp)) = REGISTRY_META_DIGEST_LEN"
    if "i < unat (inp ! 12)" for i
    using b that by (simp add: record_consts)
  then show ?thesis using d b
    by (auto simp: decodeV3_def meta_ok_def meta_zero_def Let_def dest: in_set_dropD split: if_split_asm)
next
  case False
  define n where "n = unat (inp ! 5)"
  have b: "REGISTRY_RECORD_HEADER_LEN + n * REGISTRY_RECORD_LAYER_LEN + REGISTRY_META_SIG_LEN \<le> length inp" "n \<le> maxl"
    using assms False by (auto simp: RegistryRecordDecode_def Let_def n_def split: if_split_asm)
  have "length (take REGISTRY_META_DIGEST_LEN (drop (REGISTRY_RECORD_HEADER_LEN + i * REGISTRY_RECORD_LAYER_LEN + 4) inp))
      = REGISTRY_META_DIGEST_LEN" if "i < n" for i
    using b that by (simp add: record_consts)
  then show ?thesis using assms False b
    by (auto simp: RegistryRecordDecode_def meta_ok_def meta_zero_def Let_def n_def[symmetric]
        dest: in_set_dropD split: if_split_asm)
qed

text \<open>
  C38: Whatever bytes a record is decoded from, of either format, a record that is accepted is well
  formed: it names no more layers than this build holds and every digest and the signature have
  their full length.
\<close>

theorem record_decode_wf:
  assumes "RegistryRecordDecode maxl inp = Some m"
  shows "meta_ok maxl m"
  by (rule decode_meta_ok[OF assms])

theorem record_decode_wf_witness:
  "\<exists>m. RegistryRecordDecode 1 (RegistryRecordEncode 2 demo_meta REGISTRY_RECORD_MAX @ []) = Some m \<and> meta_ok 1 m"
proof -
  have "meta_ok 2 demo_meta" by (simp add: meta_ok_def demo_meta_def record_consts)
  moreover have "RegistryRecordEncode 2 demo_meta REGISTRY_RECORD_MAX \<noteq> []"
    by (simp add: RegistryRecordEncode_def put32_def demo_meta_def record_consts)
  ultimately have d: "RegistryRecordDecode 1 (RegistryRecordEncode 2 demo_meta REGISTRY_RECORD_MAX @ []) =
      Some (meta_slots 1 demo_meta)"
    by (subst decode_encode_gen) (simp_all add: demo_meta_def)
  show ?thesis by (intro exI conjI, rule d, rule record_decode_wf[OF d])
qed

lemma hex_table:
  "list_all (\<lambda>v. hexValue (''0123456789abcdef'' ! v) = int v) [0..<16]"
  by code_simp

lemma hexValue_digit: "unat v < 16 \<Longrightarrow> hexValue (hex_digit v) = uint v"
proof -
  assume "unat v < 16"
  then have "unat v \<in> set [0..<16]" unfolding set_upt by simp
  with hex_table have "hexValue (''0123456789abcdef'' ! unat v) = int (unat v)" unfolding list_all_iff by blast
  then show ?thesis by (simp only: hex_digit_def) simp
qed

lemma hex_inv_table:
  "list_all (\<lambda>n. ''0123456789abcdef'' ! (n - 48) = char_of n) [48..<58 :: nat]"
  "list_all (\<lambda>n. ''0123456789abcdef'' ! (n - 87) = char_of n) [97..<103 :: nat]"
  by code_simp+

lemma hexValue_inv: "\<not> hexValue c < 0 \<Longrightarrow> hexValue c < 16 \<and> ''0123456789abcdef'' ! nat (hexValue c) = c"
proof -
  assume nn: "\<not> hexValue c < 0"
  define n where "n = (of_char c :: nat)"
  have c: "c = char_of n" and i: "(of_char c :: int) = int n" by (simp_all add: n_def of_nat_of_char)
  consider "48 \<le> n" "n \<le> 57" | "97 \<le> n" "n \<le> 102" using nn by (auto simp: hexValue_def Let_def i split: if_splits)
  then show ?thesis
  proof cases
    case 1
    then have "n \<in> set [48..<58]" unfolding set_upt by simp
    then have "''0123456789abcdef'' ! (n - 48) = char_of n" using hex_inv_table(1) unfolding list_all_iff by blast
    moreover have "hexValue c = int n - 48" "nat (int n - 48) = n - 48" using 1 by (auto simp: hexValue_def Let_def i)
    ultimately show ?thesis using 1 c by simp
  next
    case 2
    then have "n \<in> set [97..<103]" unfolding set_upt by simp
    then have "''0123456789abcdef'' ! (n - 87) = char_of n" using hex_inv_table(2) unfolding list_all_iff by blast
    moreover have "hexValue c = int n - 87" "nat (int n - 87) = n - 87" using 2 by (auto simp: hexValue_def Let_def i)
    ultimately show ?thesis using 2 c by simp
  qed
qed

lemma mask4: "(0x0f :: byte) = mask 4"
  by (simp add: mask_eq_exp_minus_1)

lemma nibbles: "unat (drop_bit 4 (b :: byte)) < 16" "unat (b AND 0x0f) < 16"
proof -
  have "unat b < 2 ^ LENGTH(8)" by (rule unsigned_less)
  then show "unat (drop_bit 4 b) < 16"
    by (simp add: unsigned_drop_bit_eq drop_bit_nat_def less_mult_imp_div_less take_bit_nat_eq_self)
  have "b AND 0x0f \<le> 0x0f" by (rule word_and_le1)
  then have "unat (b AND 0x0f) \<le> unat (0x0f :: byte)" by (simp only: word_le_nat_alt)
  then show "unat (b AND 0x0f) < 16" by simp
qed

lemma byte_nibbles: "(word_of_int (push_bit 4 (uint (drop_bit 4 b)) OR uint (b AND 0x0f)) :: byte) = b"
  unfolding mask4 by (rule bit_word_eqI) (auto simp: bit_simps)

lemma nibble_byte:
  assumes "0 \<le> x" "x < 16" "0 \<le> y" "y < (16 :: int)"
  shows "drop_bit 4 (word_of_int (push_bit 4 x OR y) :: byte) = word_of_int x"
    "(word_of_int (push_bit 4 x OR y) :: byte) AND 0x0f = word_of_int y"
proof -
  have t: "take_bit 4 x = x" "take_bit 4 y = y" using assms by (simp_all add: take_bit_int_eq_self)
  have b: "bit x n \<Longrightarrow> n < 4" "bit y n \<Longrightarrow> n < 4" for n
    using bit_take_bit_iff[of 4 x n] bit_take_bit_iff[of 4 y n] t by auto
  show "drop_bit 4 (word_of_int (push_bit 4 x OR y) :: byte) = word_of_int x"
    by (rule bit_word_eqI) (auto simp: bit_simps dest: b)
  show "(word_of_int (push_bit 4 x OR y) :: byte) AND 0x0f = word_of_int y"
    unfolding mask4 by (rule bit_word_eqI) (auto simp: bit_simps dest: b)
qed

lemma hex_pair:
  assumes "\<not> hexValue a < 0" "\<not> hexValue b < 0"
  shows "hex_digit (drop_bit 4 (word_of_int (push_bit 4 (hexValue a) OR hexValue b))) = a"
    "hex_digit (word_of_int (push_bit 4 (hexValue a) OR hexValue b) AND 0x0f) = b"
proof -
  note a = hexValue_inv[OF assms(1)] and b = hexValue_inv[OF assms(2)]
  have u: "unat (word_of_int z :: byte) = nat z" if "0 \<le> z" "z < 16" for z
    using that by (simp add: unat_eq_nat_uint uint_word_of_int_eq take_bit_int_eq_self)
  show "hex_digit (drop_bit 4 (word_of_int (push_bit 4 (hexValue a) OR hexValue b))) = a"
    "hex_digit (word_of_int (push_bit 4 (hexValue a) OR hexValue b) AND 0x0f) = b"
    using assms a b by (simp_all add: nibble_byte hex_digit_def u)
qed

lemma hex_loop_to: "hex_loop (RegistryDigestToHex d) = Inr d"
  by (induction d) (simp_all add: RegistryDigestToHex_def hexValue_digit nibbles byte_nibbles)

lemma hex_loop_from: "hex_loop h = Inr d \<Longrightarrow> even (length h) \<Longrightarrow> RegistryDigestToHex d = h \<and> length h = 2 * length d"
  by (induction h arbitrary: d rule: hex_loop.induct)
    (auto simp: RegistryDigestToHex_def hex_pair split: if_splits sum.splits)

text \<open>
  Digests and their hexadecimal text correspond one to one: every digest reads back from its
  text, and a text is accepted only when it is the text of the digest it reads as.
\<close>

theorem digest_hex_roundtrip:
  assumes "length d = REGISTRY_META_DIGEST_LEN" "RegistryDigestFromHex h = Inr d'"
  shows "RegistryDigestFromHex (RegistryDigestToHex d) = Inr d \<and>
    RegistryDigestToHex d' = h \<and> length d' = REGISTRY_META_DIGEST_LEN"
proof -
  have "length (RegistryDigestToHex d) = 2 * length d"
    by (simp add: RegistryDigestToHex_def) (induction d; simp)
  moreover have h: "length h = 2 * REGISTRY_META_DIGEST_LEN" "hex_loop h = Inr d'"
    using assms(2) by (auto simp: RegistryDigestFromHex_def split: if_splits)
  ultimately show ?thesis using assms(1) hex_loop_to[of d] hex_loop_from[OF h(2)]
    by (simp add: RegistryDigestFromHex_def)
qed

theorem digest_hex_roundtrip_witness:
  "RegistryDigestFromHex (RegistryDigestToHex (replicate 32 0xA7)) = Inr (replicate 32 0xA7)"
proof -
  have l: "length (replicate 32 (0xA7 :: byte)) = REGISTRY_META_DIGEST_LEN" by (simp add: REGISTRY_META_DIGEST_LEN_def)
  have "length (RegistryDigestToHex (replicate 32 0xA7)) = 64"
    by (simp add: RegistryDigestToHex_def numeral_eq_Suc)
  then have "RegistryDigestFromHex (RegistryDigestToHex (replicate 32 0xA7)) = Inr (replicate 32 0xA7)"
    using hex_loop_to[of "replicate 32 0xA7"] by (simp add: RegistryDigestFromHex_def REGISTRY_META_DIGEST_LEN_def)
  from digest_hex_roundtrip[OF l this] show ?thesis by (rule conjunct1)
qed

end
