(* ===== verification/RegistryStore.thy ===== *)
theory RegistryStore
  imports RegistryRecord
begin

text \<open>
  The interface between the registry and a storage backing (\<open>platform/include/registry-store.h\<close>).

  A store is a value of the type \<open>'s\<close>, and the operation table of the code is a record of functions
  on it, which dispatch on the store as \<open>s->ops\<close> does.  An operation that may be absent (\<open>NULL\<close> in
  the table) answers \<open>None\<close> where it is.  Operations that change the store return it.  Handles of
  stages and addresses of mapped bytes are numbers.

  The locale \<open>registry_store\<close> is the contract the header documents, in terms of the blobs and the
  entry records a store holds.
\<close>

section \<open>Model\<close>

type_synonym digest = "byte list"

definition REGISTRY_KEY_NAME_LEN :: nat where "REGISTRY_KEY_NAME_LEN = 16"

definition REGISTRY_STORE_NAME_LEN :: nat where "REGISTRY_STORE_NAME_LEN = 16"

definition REGISTRY_CAP_MAPPABLE :: byte where "REGISTRY_CAP_MAPPABLE = 1"

definition REGISTRY_CAP_SCATTERED :: byte where "REGISTRY_CAP_SCATTERED = 2"

record registry_key =
  k_name :: string
  k_version :: string

record registry_blob_map =
  bm_ptr :: nat
  bm_len :: nat
  bm_handle :: nat

record registry_capacity =
  cap_name :: string
  cap_kind :: string
  cap_unit :: u32
  cap_total :: u32
  cap_freeBytes :: u32
  cap_largestFree :: u32
  cap_caps :: byte
  cap_present :: bool

record 's store_ops =
  op_init :: "'s \<Rightarrow> ((errno + unit) \<times> 's) option"
  op_stageBegin :: "'s \<Rightarrow> ((errno + nat) \<times> 's) option"
  op_stageWrite :: "'s \<Rightarrow> nat \<Rightarrow> byte list \<Rightarrow> (errno + nat) \<times> 's"
  op_stageEnd :: "'s \<Rightarrow> nat \<Rightarrow> digest \<Rightarrow> nat \<Rightarrow> (errno + unit) \<times> 's"
  op_stageAbort :: "'s \<Rightarrow> nat \<Rightarrow> 's"
  op_blobMap :: "'s \<Rightarrow> digest \<Rightarrow> nat \<Rightarrow> (errno + registry_blob_map) \<times> 's"
  op_blobUnmap :: "'s \<Rightarrow> registry_blob_map \<Rightarrow> 's"
  op_blobHas :: "'s \<Rightarrow> digest \<Rightarrow> bool option"
  op_blobDrop :: "'s \<Rightarrow> digest \<Rightarrow> (errno + unit) \<times> 's"
  op_blobList :: "'s \<Rightarrow> nat \<Rightarrow> (errno + nat \<times> digest list) option"
  op_recPut :: "'s \<Rightarrow> registry_key \<Rightarrow> byte list \<Rightarrow> ((errno + unit) \<times> 's) option"
  op_recGet :: "'s \<Rightarrow> registry_key \<Rightarrow> nat \<Rightarrow> (errno + byte list) option"
  op_recDel :: "'s \<Rightarrow> registry_key \<Rightarrow> ((errno + unit) \<times> 's) option"
  op_recList :: "'s \<Rightarrow> nat \<Rightarrow> (errno + nat \<times> registry_key list) option"
  op_capacity :: "'s \<Rightarrow> (errno + registry_capacity) option"

text \<open>A key in its fixed-size buffers.\<close>

definition key_ok :: "registry_key \<Rightarrow> bool" where
  "key_ok k \<longleftrightarrow> length (k_name k) < REGISTRY_KEY_NAME_LEN \<and> length (k_version k) < REGISTRY_KEY_NAME_LEN"

section \<open>Contract\<close>

text \<open>
  What a store holds, whatever its medium: the blobs by digest, the stages under way by handle and
  the entry records by key.
\<close>

record store_view =
  v_blobs :: "digest \<Rightarrow> byte list option"
  v_stages :: "nat \<Rightarrow> byte list option"
  v_recs :: "registry_key \<Rightarrow> byte list option"

text \<open>Keeping a staged blob: a digest the store already holds stays as it is.\<close>

definition keep_blob :: "digest \<Rightarrow> byte list \<Rightarrow> (digest \<Rightarrow> byte list option) \<Rightarrow> digest \<Rightarrow> byte list option" where
  "keep_blob d data bs = (if bs d = None then bs(d \<mapsto> data) else bs)"

text \<open>
  The contract.  \<open>media\<close> is what a store needs before it is started, \<open>ok\<close> its invariant once it
  runs, \<open>view\<close> what it holds and \<open>mapped\<close> the digest of the blob whose bytes a mapping shows.
  An operation that fails leaves blobs and records as they were, a stage is built from exactly the
  bytes taken, a put replaces a record whole, and only dropping the blob or releasing the mapping
  itself ends a mapping.
\<close>

locale registry_store =
  fixes ops :: "'s store_ops" and media :: "'s \<Rightarrow> bool" and ok :: "'s \<Rightarrow> bool"
    and view :: "'s \<Rightarrow> store_view" and mapped :: "'s \<Rightarrow> registry_blob_map \<Rightarrow> digest option"
  assumes init_law: "media s \<Longrightarrow> op_init ops s = Some (Inr u, s') \<Longrightarrow>
      ok s' \<and> v_blobs (view s') = v_blobs (view s) \<and> v_recs (view s') = v_recs (view s)"
    and ok_media: "ok s \<Longrightarrow> media s"
    and no_init_law: "media s \<Longrightarrow> op_init ops s = None \<Longrightarrow> ok s"
    and stageBegin_law: "ok s \<Longrightarrow> op_stageBegin ops s = Some (rb, s') \<Longrightarrow>
      ok s' \<and> mapped s \<subseteq>\<^sub>m mapped s' \<and>
      (case rb of Inl e \<Rightarrow> view s' = view s | Inr h \<Rightarrow> view s' = (view s)\<lparr>v_stages := (v_stages (view s))(h \<mapsto> [])\<rparr>)"
    and stageWrite_law: "ok s \<Longrightarrow> v_stages (view s) h = Some data \<Longrightarrow> op_stageWrite ops s h buf = (rw, s') \<Longrightarrow>
      ok s' \<and> mapped s \<subseteq>\<^sub>m mapped s' \<and>
      (case rw of
         Inl e \<Rightarrow> \<exists>data'. view s' = (view s)\<lparr>v_stages := (v_stages (view s))(h \<mapsto> data')\<rparr>
       | Inr w \<Rightarrow> w \<le> length buf \<and> view s' = (view s)\<lparr>v_stages := (v_stages (view s))(h \<mapsto> data @ take w buf)\<rparr>)"
    and stageEnd_law: "ok s \<Longrightarrow> v_stages (view s) h = Some data \<Longrightarrow> op_stageEnd ops s h d (length data) = (r, s') \<Longrightarrow>
      ok s' \<and> mapped s \<subseteq>\<^sub>m mapped s' \<and>
      view s' = (view s)\<lparr>v_stages := (v_stages (view s))(h := None),
        v_blobs := (case r of Inr u \<Rightarrow> keep_blob d data (v_blobs (view s)) | Inl e \<Rightarrow> v_blobs (view s))\<rparr>"
    and stageAbort_law: "ok s \<Longrightarrow> v_stages (view s) h = Some data \<Longrightarrow> op_stageAbort ops s h = s' \<Longrightarrow>
      ok s' \<and> mapped s \<subseteq>\<^sub>m mapped s' \<and> view s' = (view s)\<lparr>v_stages := (v_stages (view s))(h := None)\<rparr>"
    and blobMap_law: "ok s \<Longrightarrow> op_blobMap ops s d n = (rm, s') \<Longrightarrow>
      ok s' \<and> view s' = view s \<and> mapped s \<subseteq>\<^sub>m mapped s' \<and>
      (case rm of Inl e \<Rightarrow> True
       | Inr m \<Rightarrow> mapped s' m = Some d \<and> map_option length (v_blobs (view s) d) = Some (bm_len m))"
    and blobUnmap_law: "ok s \<Longrightarrow> mapped s m = Some d \<Longrightarrow> op_blobUnmap ops s m = s' \<Longrightarrow>
      ok s' \<and> view s' = view s \<and> (\<forall>m'. m' \<noteq> m \<longrightarrow> mapped s' m' = mapped s m')"
    and blobHas_law: "ok s \<Longrightarrow> op_blobHas ops s d = Some b \<Longrightarrow> b \<longleftrightarrow> v_blobs (view s) d \<noteq> None"
    and blobDrop_law: "ok s \<Longrightarrow> op_blobDrop ops s d = (r, s') \<Longrightarrow>
      ok s' \<and> (\<forall>m d'. d' \<noteq> d \<longrightarrow> mapped s m = Some d' \<longrightarrow> mapped s' m = Some d') \<and>
      view s' = (view s)\<lparr>v_blobs :=
        (case r of Inr u \<Rightarrow> (v_blobs (view s))(d := None) | Inl e \<Rightarrow> v_blobs (view s))\<rparr>"
    and recPut_law: "ok s \<Longrightarrow> key_ok k \<Longrightarrow> op_recPut ops s k rec = Some (r, s') \<Longrightarrow>
      ok s' \<and> mapped s \<subseteq>\<^sub>m mapped s' \<and>
      view s' = (view s)\<lparr>v_recs := (case r of Inr u \<Rightarrow> (v_recs (view s))(k \<mapsto> rec) | Inl e \<Rightarrow> v_recs (view s))\<rparr>"
    and recGet_law: "ok s \<Longrightarrow> key_ok k \<Longrightarrow> op_recGet ops s k cap = Some rg \<Longrightarrow>
      (case rg of Inr rec \<Rightarrow> v_recs (view s) k = Some rec \<and> length rec \<le> cap
       | Inl e \<Rightarrow> e = ENOENT \<longrightarrow> v_recs (view s) k = None)"
    and recDel_law: "ok s \<Longrightarrow> key_ok k \<Longrightarrow> op_recDel ops s k = Some (r, s') \<Longrightarrow>
      ok s' \<and> mapped s \<subseteq>\<^sub>m mapped s' \<and>
      view s' = (view s)\<lparr>v_recs := (case r of Inr u \<Rightarrow> (v_recs (view s))(k := None) | Inl e \<Rightarrow> v_recs (view s))\<rparr>"
    and recList_law: "ok s \<Longrightarrow> op_recList ops s mx = Some (Inr (n, ks)) \<Longrightarrow>
      n = card (dom (v_recs (view s))) \<and> finite (dom (v_recs (view s))) \<and> distinct ks \<and>
      length ks = min n mx \<and> set ks \<subseteq> dom (v_recs (view s))"
    and recs_keys: "ok s \<Longrightarrow> v_recs (view s) k = Some rec \<Longrightarrow> key_ok k"
begin

lemma recList_complete:
  assumes "ok s" "op_recList ops s mx = Some (Inr (n, ks))" "n \<le> mx"
  shows "set ks = dom (v_recs (view s))"
proof -
  note l = recList_law[OF assms(1,2)]
  have "card (set ks) = card (dom (v_recs (view s)))" using l assms(3) by (simp add: distinct_card)
  then show ?thesis using l by (intro card_subset_eq) auto
qed

end

end
