(* ===== verification/Registry.thy ===== *)
theory Registry
  imports RegistryStore
begin

text \<open>
  The registry (\<open>src/registry.c\<close>): refs, staged layers, commits, versions, mappings and resident
  images, above the store interface.

  The platform is a record: the stores' operations, the layer limit of the build and the digest
  function.  The state has one field per field of the static \<open>g\<close>; a scratch buffer the lock
  serialises is a local value.  The stores are part of the state and a store is known by its index,
  the first being the primary one.  The running digest of a stage is the list of bytes hashed so
  far.  A mapping's address is a number, \<open>NULL\<close> parameters are \<open>None\<close>, and whether the digest
  context could be allocated and what the clock says are arguments.  Every public operation runs
  under the lock, so it is one step.
\<close>

section \<open>Types and state\<close>

definition REGISTRY_MAX_ENTRIES :: nat where "REGISTRY_MAX_ENTRIES = 50"

definition REGISTRY_MAX_BLOBS :: nat where "REGISTRY_MAX_BLOBS = 64"

definition MAX_RESIDENT :: nat where "MAX_RESIDENT = 16"

datatype write_state = START_WRITE | CONTINUE_WRITE | FINISH_WRITE | ABORT_WRITE

record reg_entry =
  e_name :: string
  e_version :: string
  e_size :: u32

record reg_map =
  mp_used :: bool
  mp_store :: "nat option"
  mp_map :: registry_blob_map
  mp_digest :: digest
  mp_users :: nat

record reg_resident =
  re_used :: bool
  re_key :: registry_key
  re_addr :: nat
  re_data :: "byte list"
  re_created :: u64
  re_digest :: digest

record reg_pending =
  pe_used :: bool
  pe_key :: registry_key
  pe_index :: byte
  pe_digest :: digest
  pe_len :: u32
  pe_order :: u32

record reg_stage =
  sg_active :: bool
  sg_plain :: bool
  sg_err :: "errno option"
  sg_handle :: nat
  sg_sha :: "byte list"
  sg_len :: nat
  sg_key :: registry_key
  sg_layer :: byte

record 's registry =
  g_ready :: bool
  g_stores :: "'s list"
  g_seq :: u32
  g_order :: u32
  g_stage :: reg_stage
  g_pending :: "reg_pending list"
  g_maps :: "reg_map list"
  g_resident :: "reg_resident list"
  g_visible :: "digest list option"

record 's reg_env =
  c_ops :: "'s store_ops"
  c_maxl :: nat
  c_sha :: "byte list \<Rightarrow> digest"

record reg_blob_info =
  bi_size :: u32
  bi_entries :: nat
  bi_mapped :: bool
  bi_resident :: bool
  bi_store :: string

record wapp_image =
  w_layers :: "nat list"
  w_lens :: "nat list"
  w_image :: string
  w_version :: string

definition key_zero :: registry_key where
  "key_zero = \<lparr>k_name = [], k_version = []\<rparr>"

definition map_zero :: reg_map where
  "map_zero = \<lparr>mp_used = False, mp_store = None, mp_map = \<lparr>bm_ptr = 0, bm_len = 0, bm_handle = 0\<rparr>,
     mp_digest = replicate REGISTRY_META_DIGEST_LEN 0, mp_users = 0\<rparr>"

definition pending_zero :: reg_pending where
  "pending_zero = \<lparr>pe_used = False, pe_key = key_zero, pe_index = 0,
     pe_digest = replicate REGISTRY_META_DIGEST_LEN 0, pe_len = 0, pe_order = 0\<rparr>"

definition resident_zero :: reg_resident where
  "resident_zero = \<lparr>re_used = False, re_key = key_zero, re_addr = 0, re_data = [], re_created = 0,
     re_digest = replicate REGISTRY_META_DIGEST_LEN 0\<rparr>"

definition stage_zero :: reg_stage where
  "stage_zero = \<lparr>sg_active = False, sg_plain = False, sg_err = None, sg_handle = 0, sg_sha = [],
     sg_len = 0, sg_key = key_zero, sg_layer = 0\<rparr>"

text \<open>The registry before its first call, on the platform's stores.\<close>

definition registry_boot :: "nat \<Rightarrow> nat \<Rightarrow> 's list \<Rightarrow> 's registry" where
  "registry_boot maxl nmaps ss = \<lparr>g_ready = False, g_stores = ss, g_seq = 0, g_order = 0,
     g_stage = stage_zero, g_pending = replicate (2 * maxl) pending_zero,
     g_maps = replicate nmaps map_zero, g_resident = replicate MAX_RESIDENT resident_zero,
     g_visible = None\<rparr>"

section \<open>Keys\<close>

definition primary :: "'s registry \<Rightarrow> 's option" where
  "primary g = (case g_stores g of [] \<Rightarrow> None | s # ss \<Rightarrow> Some s)"

definition set_primary :: "'s \<Rightarrow> 's registry \<Rightarrow> 's registry" where
  "set_primary s g = g\<lparr>g_stores := (g_stores g)[0 := s]\<rparr>"

definition keyEq :: "registry_key \<Rightarrow> registry_key \<Rightarrow> bool" where
  "keyEq a b \<longleftrightarrow> strncmp REGISTRY_KEY_NAME_LEN (k_name a) (k_name b) = 0 \<and>
     strncmp REGISTRY_KEY_NAME_LEN (k_version a) (k_version b) = 0"

definition keyCmp :: "registry_key \<Rightarrow> registry_key \<Rightarrow> int" where
  "keyCmp a b =
     (let c = strncmp REGISTRY_KEY_NAME_LEN (k_name a) (k_name b) in
      if c \<noteq> 0 then c else strncmp REGISTRY_KEY_NAME_LEN (k_version a) (k_version b))"

text \<open>
  The insertion sort: \<open>insert_back\<close> is the inner loop, which moves back from the end of the sorted
  part, here held in reverse.
\<close>

fun insert_back :: "registry_key \<Rightarrow> registry_key list \<Rightarrow> registry_key list" where
  "insert_back k [] = [k]"
| "insert_back k (x # xs) = (if keyCmp x k > 0 then x # insert_back k xs else k # x # xs)"

definition sortKeys :: "registry_key list \<Rightarrow> registry_key list" where
  "sortKeys keys = rev (foldl (\<lambda>acc k. insert_back k acc) [] keys)"

definition parseRef :: "string option \<Rightarrow> errno + registry_key" where
  "parseRef ref =
     (case ref of
        None \<Rightarrow> Inl EINVAL
      | Some s \<Rightarrow>
          if s = [] then Inl EINVAL
          else
            let (name, rest) = strchr_split CHR '':'' s;
                ver = (case rest of None \<Rightarrow> [] | Some v \<Rightarrow> v) in
            if length name = 0 \<or> length name \<ge> REGISTRY_KEY_NAME_LEN \<or> length ver \<ge> REGISTRY_KEY_NAME_LEN
            then Inl ENAMETOOLONG
            else Inr \<lparr>k_name = name, k_version = ver\<rparr>)"

definition keyFromEntry :: "reg_entry \<Rightarrow> registry_key" where
  "keyFromEntry e = \<lparr>k_name = strncpy_buf REGISTRY_KEY_NAME_LEN (e_name e),
     k_version = strncpy_buf REGISTRY_KEY_NAME_LEN (e_version e)\<rparr>"

definition residentFind :: "'s registry \<Rightarrow> registry_key \<Rightarrow> reg_resident option" where
  "residentFind g key = find (\<lambda>r. re_used r \<and> keyEq (re_key r) key) (g_resident g)"

definition residentByDigest :: "'s registry \<Rightarrow> digest \<Rightarrow> reg_resident option" where
  "residentByDigest g d = find (\<lambda>r. re_used r \<and> re_digest r = d) (g_resident g)"

definition residentMeta :: "nat \<Rightarrow> reg_resident \<Rightarrow> registry_meta" where
  "residentMeta maxl r = (meta_zero maxl)\<lparr>m_magic := REGISTRY_META_MAGIC, m_layerCount := 1,
     m_size := of_nat (length (re_data r)), m_layerLen := (replicate maxl 0)[0 := of_nat (length (re_data r))],
     m_layerDigest := (replicate maxl (replicate REGISTRY_META_DIGEST_LEN 0))[0 := re_digest r],
     m_created := re_created r, m_flags := REGISTRY_META_SEEDED OR REGISTRY_META_CLOCK_UNSET\<rparr>"

section \<open>Entries\<close>

text \<open>The primary store's answer for a record, \<open>ENODEV\<close> where it keeps none.\<close>

definition recGet :: "'s reg_env \<Rightarrow> 's registry \<Rightarrow> registry_key \<Rightarrow> errno + byte list" where
  "recGet P g key =
     (case primary g of
        None \<Rightarrow> Inl ENODEV
      | Some p \<Rightarrow> (case op_recGet (c_ops P) p key REGISTRY_RECORD_MAX of None \<Rightarrow> Inl ENODEV | Some r \<Rightarrow> r))"

definition readMeta :: "'s reg_env \<Rightarrow> 's registry \<Rightarrow> registry_key \<Rightarrow> errno + registry_meta" where
  "readMeta P g key =
     (case recGet P g key of
        Inr rec \<Rightarrow> (case RegistryRecordDecode (c_maxl P) rec of Some m \<Rightarrow> Inr m | None \<Rightarrow> Inl ENOENT)
      | Inl e \<Rightarrow> (case residentFind g key of None \<Rightarrow> Inl e | Some r \<Rightarrow> Inr (residentMeta (c_maxl P) r)))"

definition residentOnly :: "'s reg_env \<Rightarrow> 's registry \<Rightarrow> registry_key \<Rightarrow> bool" where
  "residentOnly P g key \<longleftrightarrow> residentFind g key \<noteq> None \<and> (\<exists>e. recGet P g key = Inl e)"

definition writeMeta :: "'s reg_env \<Rightarrow> registry_key \<Rightarrow> registry_meta \<Rightarrow> 's registry \<Rightarrow> (errno + unit) \<times> 's registry" where
  "writeMeta P key meta g =
     (let rec = RegistryRecordEncode (c_maxl P) meta REGISTRY_RECORD_MAX in
      case primary g of
        None \<Rightarrow> (Inl ENODEV, g)
      | Some p \<Rightarrow>
          if rec = [] \<and> op_recPut (c_ops P) p key rec \<noteq> None then (Inl EINVAL, g)
          else
            (case op_recPut (c_ops P) p key rec of
               None \<Rightarrow> (Inl ENODEV, g)
             | Some (r, p') \<Rightarrow> (r, set_primary p' g)))"

definition recList :: "'s reg_env \<Rightarrow> 's registry \<Rightarrow> errno + nat \<times> registry_key list" where
  "recList P g =
     (case primary g of
        None \<Rightarrow> Inl ENODEV
      | Some p \<Rightarrow> (case op_recList (c_ops P) p REGISTRY_MAX_ENTRIES of None \<Rightarrow> Inl ENODEV | Some r \<Rightarrow> r))"

text \<open>The resident images whose ref is not listed yet, appended in turn.\<close>

definition list_resident :: "reg_resident list \<Rightarrow> registry_key list \<Rightarrow> registry_key list" where
  "list_resident rs keys =
     foldl (\<lambda>ks r. if re_used r \<and> \<not> list_ex (\<lambda>k. keyEq k (re_key r)) ks then ks @ [re_key r] else ks) keys rs"

definition listKeys :: "'s reg_env \<Rightarrow> 's registry \<Rightarrow> errno + registry_key list" where
  "listKeys P g =
     (case recList P g of
        Inl e \<Rightarrow> Inl e
      | Inr (n, ks) \<Rightarrow> Inr (sortKeys (list_resident (g_resident g) ks)))"

fun resolve_loop :: "'s reg_env \<Rightarrow> 's registry \<Rightarrow> string \<Rightarrow> (registry_key \<times> registry_meta) option \<Rightarrow>
    registry_key list \<Rightarrow> (registry_key \<times> registry_meta) option" where
  "resolve_loop P g name best [] = best"
| "resolve_loop P g name best (k # ks) =
     (if strncmp REGISTRY_KEY_NAME_LEN (k_name k) name \<noteq> 0 then resolve_loop P g name best ks
      else case readMeta P g k of
        Inl e \<Rightarrow> resolve_loop P g name best ks
      | Inr cand \<Rightarrow>
          (case best of
             None \<Rightarrow> resolve_loop P g name (Some (k, cand)) ks
           | Some (k0, m0) \<Rightarrow>
               resolve_loop P g name (if m_installSeq cand > m_installSeq m0 then Some (k, cand) else best) ks))"

definition resolve :: "'s reg_env \<Rightarrow> 's registry \<Rightarrow> registry_key \<Rightarrow> errno + registry_key \<times> registry_meta" where
  "resolve P g key =
     (if k_version key \<noteq> [] then
        (case readMeta P g key of Inl e \<Rightarrow> Inl e | Inr m \<Rightarrow> Inr (key, m))
      else
        (case listKeys P g of
           Inl e \<Rightarrow> Inl e
         | Inr ks \<Rightarrow> (case resolve_loop P g (k_name key) None ks of None \<Rightarrow> Inl ENOENT | Some r \<Rightarrow> Inr r)))"

section \<open>Freeing blobs\<close>

text \<open>The layers a record names.\<close>

definition meta_digests :: "registry_meta \<Rightarrow> digest list" where
  "meta_digests m = take (unat (m_layerCount m)) (m_layerDigest m)"

text \<open>Adding digests to the set of references; \<open>None\<close> when it is full.\<close>

fun add_refs :: "digest list \<Rightarrow> digest list \<Rightarrow> digest list option" where
  "add_refs refs [] = Some refs"
| "add_refs refs (d # ds) =
     (if d \<in> set refs then add_refs refs ds
      else if length refs = REGISTRY_MAX_BLOBS then None
      else add_refs (refs @ [d]) ds)"

fun listed_loop :: "'s reg_env \<Rightarrow> 's \<Rightarrow> digest list \<Rightarrow> registry_key list \<Rightarrow> digest list option" where
  "listed_loop P p refs [] = Some refs"
| "listed_loop P p refs (k # ks) =
     (case op_recGet (c_ops P) p k REGISTRY_RECORD_MAX of
        None \<Rightarrow> None
      | Some (Inl e) \<Rightarrow> if e = ENOENT then listed_loop P p refs ks else None
      | Some (Inr rec) \<Rightarrow>
          (case RegistryRecordDecode (c_maxl P) rec of
             None \<Rightarrow> listed_loop P p refs ks
           | Some m \<Rightarrow> (case add_refs refs (meta_digests m) of None \<Rightarrow> None | Some refs' \<Rightarrow> listed_loop P p refs' ks)))"

definition listedDigests :: "'s reg_env \<Rightarrow> 's registry \<Rightarrow> digest list option" where
  "listedDigests P g =
     (case primary g of
        None \<Rightarrow> Some []
      | Some p \<Rightarrow>
          (case op_recList (c_ops P) p REGISTRY_MAX_ENTRIES of
             None \<Rightarrow> None
           | Some (Inl e) \<Rightarrow> None
           | Some (Inr (n, ks)) \<Rightarrow>
               if op_recGet (c_ops P) p key_zero 0 = None \<or> n > REGISTRY_MAX_ENTRIES then None
               else listed_loop P p [] ks))"

definition held :: "'s registry \<Rightarrow> digest \<Rightarrow> bool" where
  "held g d \<longleftrightarrow> list_ex (\<lambda>p. pe_used p \<and> pe_digest p = d) (g_pending g) \<or>
     list_ex (\<lambda>m. mp_used m \<and> mp_digest m = d) (g_maps g)"

definition drop_blob :: "'s reg_env \<Rightarrow> digest \<Rightarrow> 's \<Rightarrow> 's" where
  "drop_blob P d s = (if op_blobHas (c_ops P) s d = Some True then snd (op_blobDrop (c_ops P) s d) else s)"

definition dropAllIfFree :: "'s reg_env \<Rightarrow> digest list \<Rightarrow> 's registry \<Rightarrow> 's registry" where
  "dropAllIfFree P ds g =
     (if ds = [] then g
      else case listedDigests P g of
        None \<Rightarrow> g
      | Some refs \<Rightarrow>
          foldl (\<lambda>g d. if d \<in> set refs \<or> held g d then g
                       else g\<lparr>g_stores := map (drop_blob P d) (g_stores g)\<rparr>) g ds)"

definition dropIfFree :: "'s reg_env \<Rightarrow> digest \<Rightarrow> 's registry \<Rightarrow> 's registry" where
  "dropIfFree P d g = dropAllIfFree P [d] g"

definition reclaim_store :: "'s reg_env \<Rightarrow> digest list \<Rightarrow> 's \<Rightarrow> 's" where
  "reclaim_store P refs s =
     (case op_blobList (c_ops P) s REGISTRY_MAX_BLOBS of
        None \<Rightarrow> s
      | Some (Inl e) \<Rightarrow> s
      | Some (Inr (n, bs)) \<Rightarrow>
          foldl (\<lambda>s b. if b \<in> set refs then s else snd (op_blobDrop (c_ops P) s b)) s bs)"

definition reclaim :: "'s reg_env \<Rightarrow> 's registry \<Rightarrow> 's registry" where
  "reclaim P g =
     (let g1 = g\<lparr>g_visible := None\<rparr> in
      case listedDigests P g1 of
        None \<Rightarrow> g1
      | Some refs \<Rightarrow> g1\<lparr>g_stores := map (reclaim_store P refs) (g_stores g1)\<rparr>)"

text \<open>The highest sequence number of the keys' records, from \<open>seq\<close> on.\<close>

definition max_seq :: "'s reg_env \<Rightarrow> 's registry \<Rightarrow> u32 \<Rightarrow> registry_key list \<Rightarrow> u32" where
  "max_seq P g seq ks =
     foldl (\<lambda>q k. case readMeta P g k of Inl e \<Rightarrow> q | Inr m \<Rightarrow> if m_installSeq m > q then m_installSeq m else q) seq ks"

definition init_store :: "'s reg_env \<Rightarrow> 's \<Rightarrow> 's" where
  "init_store P s = (case op_init (c_ops P) s of None \<Rightarrow> s | Some (r, s') \<Rightarrow> s')"

definition ensureReady :: "'s reg_env \<Rightarrow> 's registry \<Rightarrow> 's registry" where
  "ensureReady P g =
     (if g_ready g then g
      else
        let g1 = g\<lparr>g_stores := map (init_store P) (g_stores g), g_seq := 0\<rparr>;
            g2 = (case listKeys P g1 of Inl e \<Rightarrow> g1 | Inr ks \<Rightarrow> g1\<lparr>g_seq := max_seq P g1 0 ks\<rparr>) in
        (reclaim P g2)\<lparr>g_ready := True\<rparr>)"

section \<open>Staged layers\<close>

text \<open>The slot a staged layer takes: its own, else the first free one, else the oldest.\<close>

fun pending_scan :: "registry_key \<Rightarrow> byte \<Rightarrow> nat \<Rightarrow> nat option \<Rightarrow> (nat \<times> u32) option \<Rightarrow> reg_pending list \<Rightarrow> nat option" where
  "pending_scan key index i slot oldest [] = (case slot of Some s \<Rightarrow> Some s | None \<Rightarrow> map_option fst oldest)"
| "pending_scan key index i slot oldest (p # ps) =
     (if pe_used p \<and> keyEq (pe_key p) key \<and> pe_index p = index then Some i
      else
        pending_scan key index (i + 1)
          (if \<not> pe_used p \<and> slot = None then Some i else slot)
          (if pe_used p \<and> (case oldest of None \<Rightarrow> True | Some (j, ord) \<Rightarrow> pe_order p < ord)
           then Some (i, pe_order p) else oldest) ps)"

definition pendingAdd :: "'s reg_env \<Rightarrow> registry_key \<Rightarrow> byte \<Rightarrow> digest \<Rightarrow> u32 \<Rightarrow> 's registry \<Rightarrow> 's registry" where
  "pendingAdd P key index d len g =
     (case pending_scan key index 0 None None (g_pending g) of
        None \<Rightarrow> g
      | Some i \<Rightarrow>
          let old = g_pending g ! i; ord = g_order g + 1;
              g1 = g\<lparr>g_order := ord, g_pending := (g_pending g)[i :=
                     \<lparr>pe_used = True, pe_key = key, pe_index = index, pe_digest = d, pe_len = len, pe_order = ord\<rparr>]\<rparr> in
          if pe_used old \<and> pe_digest old \<noteq> d then dropIfFree P (pe_digest old) g1 else g1)"

definition pendingFind :: "'s registry \<Rightarrow> registry_key \<Rightarrow> byte \<Rightarrow> reg_pending option" where
  "pendingFind g key index = find (\<lambda>p. pe_used p \<and> keyEq (pe_key p) key \<and> pe_index p = index) (g_pending g)"

definition syncSeq :: "'s reg_env \<Rightarrow> 's registry \<Rightarrow> 's registry" where
  "syncSeq P g = (case recList P g of Inl e \<Rightarrow> g | Inr (n, ks) \<Rightarrow> g\<lparr>g_seq := max_seq P g (g_seq g) ks\<rparr>)"

text \<open>A list that fails counts as a negative number of records.\<close>

definition recordCount :: "'s reg_env \<Rightarrow> 's registry \<Rightarrow> int" where
  "recordCount P g =
     (case primary g of
        None \<Rightarrow> 0
      | Some p \<Rightarrow>
          (case op_recList (c_ops P) p REGISTRY_MAX_ENTRIES of
             None \<Rightarrow> 0
           | Some (Inl e) \<Rightarrow> -1
           | Some (Inr (n, ks)) \<Rightarrow> int n))"

text \<open>The layers \<open>i, i + 1, \<dots>\<close> of the commit, and the size they add up to.\<close>

fun commit_layers :: "'s registry \<Rightarrow> registry_key \<Rightarrow> nat \<Rightarrow> nat \<Rightarrow> u32 \<Rightarrow> errno + (u32 \<times> digest) list \<times> u32" where
  "commit_layers g key i 0 sz = Inr ([], sz)"
| "commit_layers g key i (Suc n) sz =
     (case pendingFind g key (of_nat i) of
        None \<Rightarrow> Inl ENOENT
      | Some p \<Rightarrow>
          if sz + pe_len p < sz then Inl EFBIG
          else
            (case commit_layers g key (i + 1) n (sz + pe_len p) of
               Inl e \<Rightarrow> Inl e
             | Inr (ls, tot) \<Rightarrow> Inr ((pe_len p, pe_digest p) # ls, tot)))"

definition commit_meta :: "nat \<Rightarrow> nat \<Rightarrow> (u32 \<times> digest) list \<Rightarrow> u32 \<Rightarrow> u64 option \<Rightarrow> u64 option \<Rightarrow> u32 \<Rightarrow> registry_meta" where
  "commit_meta maxl count ls sz now created seq =
     (let z = meta_zero maxl in
      z\<lparr>m_magic := REGISTRY_META_MAGIC, m_layerCount := of_nat count, m_size := sz,
        m_layerLen := map fst ls @ drop (length ls) (m_layerLen z),
        m_layerDigest := map snd ls @ drop (length ls) (m_layerDigest z),
        m_installed := (case now of Some t \<Rightarrow> t | None \<Rightarrow> 0),
        m_flags := (case now of Some t \<Rightarrow> 0 | None \<Rightarrow> REGISTRY_META_CLOCK_UNSET),
        m_created := (case created of Some t \<Rightarrow> t | None \<Rightarrow> 0), m_installSeq := seq\<rparr>)"

text \<open>
  The digests a commit may free: those of the record it replaces, then those of the staged layers
  past its count, as far as the buffer of \<open>MAX_PENDING\<close> digests reaches.
\<close>

definition freed_digests :: "nat \<Rightarrow> registry_key \<Rightarrow> nat \<Rightarrow> registry_meta option \<Rightarrow> reg_pending list \<Rightarrow> digest list" where
  "freed_digests maxPending key count old ps =
     foldl (\<lambda>fs p. if pe_used p \<and> keyEq (pe_key p) key \<and> unat (pe_index p) \<ge> count \<and> length fs < maxPending
                   then fs @ [pe_digest p] else fs)
       (case old of None \<Rightarrow> [] | Some m \<Rightarrow> meta_digests m) ps"

definition clear_pending :: "registry_key \<Rightarrow> reg_pending list \<Rightarrow> reg_pending list" where
  "clear_pending key ps = map (\<lambda>p. if pe_used p \<and> keyEq (pe_key p) key then pending_zero else p) ps"

definition commitLocked :: "'s reg_env \<Rightarrow> u64 option \<Rightarrow> registry_key \<Rightarrow> nat \<Rightarrow> u64 option \<Rightarrow> 's registry \<Rightarrow> (errno + unit) \<times> 's registry" where
  "commitLocked P now key count created g =
     (if count = 0 then (Inl EINVAL, g)
      else if count > c_maxl P then (Inl E2BIG, g)
      else
        case commit_layers g key 0 count 0 of
          Inl e \<Rightarrow> (Inl e, g)
        | Inr (ls, sz) \<Rightarrow>
            let old = (case readMeta P g key of Inl e \<Rightarrow> None | Inr m \<Rightarrow> Some m) in
            if old = None \<and> recordCount P g \<ge> int REGISTRY_MAX_ENTRIES then (Inl ENOSPC, g)
            else
              let g1 = syncSeq P g; seq = g_seq g1 + 1 in
              (case writeMeta P key (commit_meta (c_maxl P) count ls sz now created seq) g1 of
                 (Inl e, g2) \<Rightarrow> (Inl e, g2)
               | (Inr u, g2) \<Rightarrow>
                   let g3 = g2\<lparr>g_seq := seq, g_visible := None\<rparr>;
                       fs = freed_digests (length (g_pending g3)) key count old (g_pending g3) in
                   (Inr (), dropAllIfFree P fs (g3\<lparr>g_pending := clear_pending key (g_pending g3)\<rparr>))))"

section \<open>Writing a layer\<close>

definition stageWriteLocked :: "'s reg_env \<Rightarrow> byte list \<Rightarrow> 's registry \<Rightarrow> (errno + nat) \<times> 's registry" where
  "stageWriteLocked P buf g =
     (case sg_err (g_stage g) of
        Some e \<Rightarrow> (Inl e, g)
      | None \<Rightarrow>
          (case primary g of
             None \<Rightarrow> (Inl ENODEV, g)
           | Some s \<Rightarrow>
               (case op_stageWrite (c_ops P) s (sg_handle (g_stage g)) buf of
                  (Inl e, s') \<Rightarrow> (Inl e, (set_primary s' g)\<lparr>g_stage := (g_stage g)\<lparr>sg_err := Some e\<rparr>\<rparr>)
                | (Inr w, s') \<Rightarrow>
                    (Inr w, (set_primary s' g)\<lparr>g_stage := (g_stage g)
                       \<lparr>sg_sha := sg_sha (g_stage g) @ take w buf, sg_len := sg_len (g_stage g) + w\<rparr>\<rparr>))))"

definition stageClear :: "'s registry \<Rightarrow> 's registry" where
  "stageClear g = g\<lparr>g_stage := stage_zero\<rparr>"

definition stage_abort :: "'s reg_env \<Rightarrow> 's registry \<Rightarrow> 's registry" where
  "stage_abort P g =
     (case primary g of
        None \<Rightarrow> stageClear g
      | Some s \<Rightarrow> stageClear (set_primary (op_stageAbort (c_ops P) s (sg_handle (g_stage g))) g))"

definition stageFinishLocked :: "'s reg_env \<Rightarrow> u64 option \<Rightarrow> 's registry \<Rightarrow> (errno + nat) \<times> 's registry" where
  "stageFinishLocked P now g =
     (let st = g_stage g;
          err = (if sg_err st = None \<and> sg_len st = 0 then Some EINVAL else sg_err st) in
      case err of
        Some e \<Rightarrow> (Inl e, stage_abort P g)
      | None \<Rightarrow>
          (case primary g of
             None \<Rightarrow> (Inl ENODEV, g)
           | Some s \<Rightarrow>
               let d = c_sha P (sg_sha st) in
               (case op_stageEnd (c_ops P) s (sg_handle st) d (sg_len st) of
                  (Inl e, s') \<Rightarrow> (Inl e, set_primary s' (stageClear g))
                | (Inr u, s') \<Rightarrow>
                    let g1 = pendingAdd P (sg_key st) (sg_layer st) d (of_nat (sg_len st))
                               (set_primary s' (stageClear g)) in
                    if \<not> sg_plain st then (Inr 0, g1)
                    else (case commitLocked P now (sg_key st) 1 None g1 of
                            (Inl e, g2) \<Rightarrow> (Inl e, g2) | (Inr u, g2) \<Rightarrow> (Inr 0, g2)))))"

definition start_write :: "'s reg_env \<Rightarrow> bool \<Rightarrow> string option \<Rightarrow> nat \<Rightarrow> bool \<Rightarrow> byte list \<Rightarrow> 's registry \<Rightarrow> (errno + nat) \<times> 's registry" where
  "start_write P shaOk ref layer plain buf g =
     (if sg_active (g_stage g) then (Inl EBUSY, g)
      else case parseRef ref of
        Inl e \<Rightarrow> (Inl e, g)
      | Inr key \<Rightarrow>
          if layer \<ge> c_maxl P then (Inl EINVAL, g)
          else if \<not> shaOk then (Inl ENOMEM, stageClear g)
          else
            (case primary g of
               None \<Rightarrow> (Inl ENODEV, g)
             | Some s \<Rightarrow>
                 (case op_stageBegin (c_ops P) s of
                    None \<Rightarrow> (Inl ENODEV, g)
                  | Some (Inl e, s') \<Rightarrow> (Inl e, stageClear (set_primary s' g))
                  | Some (Inr h, s') \<Rightarrow>
                      let g1 = (set_primary s' g)\<lparr>g_stage := stage_zero\<lparr>sg_active := True, sg_plain := plain,
                                 sg_handle := h, sg_key := key, sg_layer := of_nat layer\<rparr>\<rparr> in
                      (case stageWriteLocked P buf g1 of
                         (Inl e, g2) \<Rightarrow> (Inl e, stage_abort P g2)
                       | (Inr w, g2) \<Rightarrow> (Inr w, g2)))))"

definition writeLayerLocked :: "'s reg_env \<Rightarrow> bool \<Rightarrow> u64 option \<Rightarrow> write_state \<Rightarrow> string option \<Rightarrow> nat \<Rightarrow> bool \<Rightarrow>
    byte list option \<Rightarrow> 's registry \<Rightarrow> (errno + nat) \<times> 's registry" where
  "writeLayerLocked P shaOk now st ref layer plain buf g =
     (case primary g of
        None \<Rightarrow> (Inl ENODEV, g)
      | Some s \<Rightarrow>
          if op_stageBegin (c_ops P) s = None then (Inl ENODEV, g)
          else case st of
            START_WRITE \<Rightarrow>
              if buf = None \<or> buf = Some [] then (Inl EINVAL, g)
              else start_write P shaOk ref layer plain (the buf) g
          | CONTINUE_WRITE \<Rightarrow>
              if \<not> sg_active (g_stage g) then (Inl EBADF, g)
              else if buf = None \<or> buf = Some [] then (Inl EINVAL, g)
              else stageWriteLocked P (the buf) g
          | FINISH_WRITE \<Rightarrow>
              if \<not> sg_active (g_stage g) then (Inl EBADF, g) else stageFinishLocked P now g
          | ABORT_WRITE \<Rightarrow>
              if \<not> sg_active (g_stage g) then (Inl EBADF, g) else (Inr 0, stage_abort P g))"

definition RegistryWriteLayer :: "'s reg_env \<Rightarrow> bool \<Rightarrow> u64 option \<Rightarrow> write_state \<Rightarrow> string option \<Rightarrow> nat \<Rightarrow>
    byte list option \<Rightarrow> 's registry \<Rightarrow> (errno + nat) \<times> 's registry" where
  "RegistryWriteLayer P shaOk now s ref layer buf g = writeLayerLocked P shaOk now s ref layer False buf (ensureReady P g)"

definition RegistryWrite :: "'s reg_env \<Rightarrow> bool \<Rightarrow> u64 option \<Rightarrow> write_state \<Rightarrow> string option \<Rightarrow>
    byte list option \<Rightarrow> 's registry \<Rightarrow> (errno + nat) \<times> 's registry" where
  "RegistryWrite P shaOk now s ref buf g = writeLayerLocked P shaOk now s ref 0 True buf (ensureReady P g)"

definition RegistryCommit :: "'s reg_env \<Rightarrow> u64 option \<Rightarrow> string option \<Rightarrow> nat \<Rightarrow> u64 option \<Rightarrow> 's registry \<Rightarrow> (errno + unit) \<times> 's registry" where
  "RegistryCommit P now ref count created g =
     (case parseRef ref of
        Inl e \<Rightarrow> (Inl e, g)
      | Inr key \<Rightarrow> commitLocked P now key count created (ensureReady P g))"

section \<open>Reading and removing entries\<close>

text \<open>\<open>RegistryRead\<close>: up to \<open>len\<close> entries (none for a \<open>NULL\<close> list) and how many there are.\<close>

definition entry_of :: "registry_key \<Rightarrow> registry_meta \<Rightarrow> reg_entry" where
  "entry_of k m = \<lparr>e_name = strncpy_buf WAPP_MAX_NAME_LEN (k_name k),
     e_version = strncpy_buf WAPP_MAX_VERSION_LEN (k_version k), e_size = m_size m\<rparr>"

definition RegistryRead :: "'s reg_env \<Rightarrow> nat option \<Rightarrow> 's registry \<Rightarrow> (errno + nat \<times> reg_entry list) \<times> 's registry" where
  "RegistryRead P len g0 =
     (let g = ensureReady P g0 in
      case listKeys P g of
        Inl e \<Rightarrow> (Inl e, g)
      | Inr ks \<Rightarrow>
          let es = concat (map (\<lambda>k. case readMeta P g k of Inl e \<Rightarrow> [] | Inr m \<Rightarrow> [entry_of k m]) ks) in
          (Inr (length es, case len of None \<Rightarrow> [] | Some n \<Rightarrow> take n es), g))"

definition RegistryRemove :: "'s reg_env \<Rightarrow> reg_entry option \<Rightarrow> 's registry \<Rightarrow> (errno + unit) \<times> 's registry" where
  "RegistryRemove P entry g0 =
     (case entry of
        None \<Rightarrow> (Inl EINVAL, g0)
      | Some e \<Rightarrow>
          let g = ensureReady P g0 in
          (case primary g of
             None \<Rightarrow> (Inl ENODEV, g)
           | Some p \<Rightarrow>
               if op_recDel (c_ops P) p key_zero = None then (Inl ENODEV, g)
               else case resolve P g (keyFromEntry e) of
                 Inl err \<Rightarrow> (Inl err, g)
               | Inr (key, meta) \<Rightarrow>
                   if m_flags meta AND REGISTRY_META_SEEDED \<noteq> 0 then (Inl EPERM, g)
                   else (case op_recDel (c_ops P) p key of
                           None \<Rightarrow> (Inl ENODEV, g)
                         | Some (Inl err, p') \<Rightarrow> (Inl err, set_primary p' g)
                         | Some (Inr u, p') \<Rightarrow>
                             (Inr (), dropAllIfFree P (meta_digests meta) ((set_primary p' g)\<lparr>g_visible := None\<rparr>)))))"

section \<open>Mapping layers\<close>

definition storeHolding :: "'s reg_env \<Rightarrow> 's registry \<Rightarrow> digest \<Rightarrow> nat option" where
  "storeHolding P g d = find_idx (\<lambda>s. op_blobHas (c_ops P) s d = Some True) (g_stores g)"

definition mapResident :: "reg_resident \<Rightarrow> 's registry \<Rightarrow> (errno + nat \<times> nat) \<times> 's registry" where
  "mapResident r g =
     (case find_idx (\<lambda>m. \<not> mp_used m) (g_maps g) of
        None \<Rightarrow> (Inl ENOMEM, g)
      | Some i \<Rightarrow>
          (Inr (re_addr r, length (re_data r)),
           g\<lparr>g_maps := (g_maps g)[i := \<lparr>mp_used = True, mp_store = None,
               mp_map = \<lparr>bm_ptr = re_addr r, bm_len = length (re_data r), bm_handle = 0\<rparr>,
               mp_digest = re_digest r, mp_users = 1\<rparr>]\<rparr>))"

definition mapBlob :: "'s reg_env \<Rightarrow> digest \<Rightarrow> nat \<Rightarrow> 's registry \<Rightarrow> (errno + nat \<times> nat) \<times> 's registry" where
  "mapBlob P d len g =
     (case find_idx (\<lambda>m. mp_used m \<and> mp_digest m = d) (g_maps g) of
        Some i \<Rightarrow>
          (Inr (bm_ptr (mp_map (g_maps g ! i)), bm_len (mp_map (g_maps g ! i))),
           g\<lparr>g_maps := upd_nth i (mp_users_update Suc) (g_maps g)\<rparr>)
      | None \<Rightarrow>
          (case residentByDigest g d of
             Some r \<Rightarrow> mapResident r g
           | None \<Rightarrow>
               (case storeHolding P g d of
                  None \<Rightarrow> (Inl ENOENT, g)
                | Some j \<Rightarrow>
                    (case find_idx (\<lambda>m. \<not> mp_used m) (g_maps g) of
                       None \<Rightarrow> (Inl ENOMEM, g)
                     | Some i \<Rightarrow>
                         (case op_blobMap (c_ops P) (g_stores g ! j) d len of
                            (Inl e, s') \<Rightarrow> (Inl e, g\<lparr>g_stores := (g_stores g)[j := s']\<rparr>)
                          | (Inr m, s') \<Rightarrow>
                              (Inr (bm_ptr m, bm_len m),
                               g\<lparr>g_stores := (g_stores g)[j := s'],
                                 g_maps := (g_maps g)[i := \<lparr>mp_used = True, mp_store = Some j, mp_map = m,
                                   mp_digest = d, mp_users = 1\<rparr>]\<rparr>))))))"

definition unmapPtr :: "'s reg_env \<Rightarrow> nat \<Rightarrow> 's registry \<Rightarrow> 's registry" where
  "unmapPtr P ptr g =
     (case find_idx (\<lambda>m. mp_used m \<and> bm_ptr (mp_map m) = ptr) (g_maps g) of
        None \<Rightarrow> g
      | Some i \<Rightarrow>
          let m = g_maps g ! i in
          if mp_users m - 1 > 0 then g\<lparr>g_maps := (g_maps g)[i := m\<lparr>mp_users := mp_users m - 1\<rparr>]\<rparr>
          else
            let g1 = (case mp_store m of
                        None \<Rightarrow> g
                      | Some j \<Rightarrow> g\<lparr>g_stores := upd_nth j (\<lambda>s. op_blobUnmap (c_ops P) s (mp_map m)) (g_stores g)\<rparr>) in
            dropIfFree P (mp_digest m) (g1\<lparr>g_maps := (g_maps g1)[i := map_zero]\<rparr>))"

definition unmap_all :: "'s reg_env \<Rightarrow> nat list \<Rightarrow> 's registry \<Rightarrow> 's registry" where
  "unmap_all P ptrs g = foldl (\<lambda>g ptr. unmapPtr P ptr g) g ptrs"

text \<open>The layers from the topmost down; when one cannot be mapped those before it are released.\<close>

fun map_layers :: "'s reg_env \<Rightarrow> (digest \<times> u32) list \<Rightarrow> (nat \<times> nat) list \<Rightarrow> 's registry \<Rightarrow>
    (errno + (nat \<times> nat) list) \<times> 's registry" where
  "map_layers P [] acc g = (Inr acc, g)"
| "map_layers P ((d, len) # ls) acc g =
     (case mapBlob P d (unat len) g of
        (Inl e, g') \<Rightarrow> (Inl e, unmap_all P (map fst acc) g')
      | (Inr pl, g') \<Rightarrow> map_layers P ls (acc @ [pl]) g')"

definition mapLayersLocked :: "'s reg_env \<Rightarrow> reg_entry \<Rightarrow> 's registry \<Rightarrow>
    (errno + (nat \<times> nat) list \<times> registry_key) \<times> 's registry" where
  "mapLayersLocked P entry g =
     (case resolve P g (keyFromEntry entry) of
        Inl e \<Rightarrow> (Inl e, g)
      | Inr (key, meta) \<Rightarrow>
          let n = unat (m_layerCount meta) in
          (case map_layers P (rev (take n (zip (m_layerDigest meta) (m_layerLen meta)))) [] g of
             (Inl e, g') \<Rightarrow> (Inl e, g')
           | (Inr ls, g') \<Rightarrow> (Inr (ls, key), g')))"

definition RegistryMapLayers :: "'s reg_env \<Rightarrow> reg_entry option \<Rightarrow> 's registry \<Rightarrow> (errno + (nat \<times> nat) list) \<times> 's registry" where
  "RegistryMapLayers P entry g =
     (case entry of
        None \<Rightarrow> (Inl EINVAL, g)
      | Some e \<Rightarrow> (case mapLayersLocked P e (ensureReady P g) of (Inl err, g') \<Rightarrow> (Inl err, g') | (Inr (ls, key), g') \<Rightarrow> (Inr ls, g')))"

definition RegistryUnmapLayers :: "'s reg_env \<Rightarrow> nat list \<Rightarrow> 's registry \<Rightarrow> 's registry" where
  "RegistryUnmapLayers P layers g = unmap_all P layers g"

definition RegistryLoad :: "'s reg_env \<Rightarrow> reg_entry option \<Rightarrow> 's registry \<Rightarrow> (errno + wapp_image) \<times> 's registry" where
  "RegistryLoad P entry g =
     (case entry of
        None \<Rightarrow> (Inl EINVAL, g)
      | Some e \<Rightarrow>
          (case mapLayersLocked P e (ensureReady P g) of
             (Inl err, g') \<Rightarrow> (Inl err, g')
           | (Inr (ls, key), g') \<Rightarrow>
               (Inr \<lparr>w_layers = map fst ls, w_lens = map snd ls,
                     w_image = strncpy_buf WAPP_MAX_NAME_LEN (k_name key),
                     w_version = strncpy_buf WAPP_MAX_VERSION_LEN (k_version key)\<rparr>, g')))"

fun unload_loop :: "'s reg_env \<Rightarrow> nat list \<Rightarrow> bool \<Rightarrow> 's registry \<Rightarrow> bool \<times> 's registry" where
  "unload_loop P [] any g = (any, g)"
| "unload_loop P (ptr # ps) any g =
     (if list_ex (\<lambda>m. mp_used m \<and> bm_ptr (mp_map m) = ptr) (g_maps g)
      then unload_loop P ps True (unmapPtr P ptr g)
      else unload_loop P ps any g)"

definition RegistryUnload :: "'s reg_env \<Rightarrow> wapp_image option \<Rightarrow> 's registry \<Rightarrow> bool \<times> 's registry" where
  "RegistryUnload P w g =
     (case w of
        None \<Rightarrow> (False, g)
      | Some w \<Rightarrow> if \<not> g_ready g then (False, g) else unload_loop P (take (c_maxl P) (w_layers w)) False g)"

section \<open>Records and resident images\<close>

definition RegistryMetaRead :: "'s reg_env \<Rightarrow> reg_entry option \<Rightarrow> 's registry \<Rightarrow> (errno + registry_meta) \<times> 's registry" where
  "RegistryMetaRead P entry g0 =
     (case entry of
        None \<Rightarrow> (Inl EINVAL, g0)
      | Some e \<Rightarrow>
          let g = ensureReady P g0 in
          (case resolve P g (keyFromEntry e) of Inl err \<Rightarrow> (Inl err, g) | Inr (key, m) \<Rightarrow> (Inr m, g)))"

definition RegistryMetaSetSignature :: "'s reg_env \<Rightarrow> reg_entry option \<Rightarrow> u32 \<Rightarrow> byte list option \<Rightarrow> 's registry \<Rightarrow>
    (errno + unit) \<times> 's registry" where
  "RegistryMetaSetSignature P entry keyId sig g0 =
     (case (entry, sig) of
        (Some e, Some sg) \<Rightarrow>
          let g = ensureReady P g0 in
          (case resolve P g (keyFromEntry e) of
             Inl err \<Rightarrow> (Inl err, g)
           | Inr (key, meta) \<Rightarrow>
               if residentOnly P g key then (Inl EPERM, g)
               else writeMeta P key (meta\<lparr>m_keyId := keyId, m_signature := sg,
                      m_flags := m_flags meta OR REGISTRY_META_SIGNED\<rparr>) g)
      | _ \<Rightarrow> (Inl EINVAL, g0))"

definition RegistryIsMapped :: "'s reg_env \<Rightarrow> reg_entry option \<Rightarrow> 's registry \<Rightarrow> bool \<times> 's registry" where
  "RegistryIsMapped P entry g0 =
     (case entry of
        None \<Rightarrow> (False, g0)
      | Some e \<Rightarrow>
          let g = ensureReady P g0 in
          (case resolve P g (keyFromEntry e) of
             Inl err \<Rightarrow> (False, g)
           | Inr (key, meta) \<Rightarrow>
               (list_ex (\<lambda>d. list_ex (\<lambda>m. mp_used m \<and> mp_digest m = d) (g_maps g)) (meta_digests meta), g)))"

definition RegistryMarkSeeded :: "'s reg_env \<Rightarrow> string option \<Rightarrow> 's registry \<Rightarrow> 's registry" where
  "RegistryMarkSeeded P ref g0 =
     (case parseRef ref of
        Inl e \<Rightarrow> g0
      | Inr want \<Rightarrow>
          let g = ensureReady P g0 in
          (case resolve P g want of
             Inl err \<Rightarrow> g
           | Inr (key, meta) \<Rightarrow>
               if \<not> residentOnly P g key \<and> m_flags meta AND REGISTRY_META_SEEDED = 0
               then snd (writeMeta P key (meta\<lparr>m_flags := m_flags meta OR REGISTRY_META_SEEDED\<rparr>) g)
               else g))"

definition RegistryAddResident :: "'s reg_env \<Rightarrow> bool \<Rightarrow> string option \<Rightarrow> (nat \<times> byte list) option \<Rightarrow> u64 \<Rightarrow> 's registry \<Rightarrow>
    (errno + unit) \<times> 's registry" where
  "RegistryAddResident P shaOk ref data created g =
     (case data of
        None \<Rightarrow> (Inl EINVAL, g)
      | Some (addr, bytes) \<Rightarrow>
          if bytes = [] then (Inl EINVAL, g)
          else case parseRef ref of
            Inl e \<Rightarrow> (Inl e, g)
          | Inr key \<Rightarrow>
              if \<not> shaOk then (Inl ENOMEM, g)
              else
                (case (case find_idx (\<lambda>r. re_used r \<and> keyEq (re_key r) key) (g_resident g) of
                         Some i \<Rightarrow> Some i
                       | None \<Rightarrow> find_idx (\<lambda>r. \<not> re_used r) (g_resident g)) of
                   None \<Rightarrow> (Inl ENOSPC, g)
                 | Some i \<Rightarrow>
                     (Inr (), g\<lparr>g_resident := (g_resident g)[i := \<lparr>re_used = True, re_key = key, re_addr = addr,
                        re_data = bytes, re_created = created, re_digest = c_sha P bytes\<rparr>], g_visible := None\<rparr>)))"

definition RegistryClearResident :: "'s registry \<Rightarrow> 's registry" where
  "RegistryClearResident g = g\<lparr>g_resident := replicate (length (g_resident g)) resident_zero, g_visible := None\<rparr>"

definition RegistryCapacity :: "'s reg_env \<Rightarrow> nat option \<Rightarrow> 's registry \<Rightarrow> registry_capacity list \<times> 's registry" where
  "RegistryCapacity P mx g0 =
     (let g = ensureReady P g0 in
      (case mx of
         None \<Rightarrow> []
       | Some n \<Rightarrow> take n (concat (map (\<lambda>s. case op_capacity (c_ops P) s of Some (Inr c) \<Rightarrow> [c] | _ \<Rightarrow> []) (g_stores g))), g))"

section \<open>Blobs\<close>

definition blobPresent :: "'s reg_env \<Rightarrow> 's registry \<Rightarrow> digest \<Rightarrow> bool" where
  "blobPresent P g d \<longleftrightarrow> residentByDigest g d \<noteq> None \<or> storeHolding P g d \<noteq> None"

text \<open>The records that can be read of the keys listed, in order.\<close>

definition listed_metas :: "'s reg_env \<Rightarrow> 's registry \<Rightarrow> registry_meta list" where
  "listed_metas P g =
     (case listKeys P g of
        Inl e \<Rightarrow> []
      | Inr ks \<Rightarrow> concat (map (\<lambda>k. case readMeta P g k of Inl e \<Rightarrow> [] | Inr m \<Rightarrow> [m]) ks))"

fun visible_loop :: "'s reg_env \<Rightarrow> 's registry \<Rightarrow> digest list \<Rightarrow> digest list \<Rightarrow> digest list" where
  "visible_loop P g bs [] = bs"
| "visible_loop P g bs (d # ds) =
     (if d \<in> set bs \<or> \<not> blobPresent P g d then visible_loop P g bs ds
      else if length bs = REGISTRY_MAX_BLOBS then bs
      else visible_loop P g (bs @ [d]) ds)"

definition visibleBlobs :: "'s reg_env \<Rightarrow> 's registry \<Rightarrow> digest list" where
  "visibleBlobs P g = visible_loop P g [] (concat (map meta_digests (listed_metas P g)))"

text \<open>The length a record gives a layer it names, the first such layer.\<close>

definition meta_len :: "registry_meta \<Rightarrow> digest \<Rightarrow> u32 option" where
  "meta_len m d = map_option (\<lambda>i. m_layerLen m ! i) (find_idx (\<lambda>x. x = d) (meta_digests m))"

definition blobLookup :: "'s reg_env \<Rightarrow> 's registry \<Rightarrow> digest \<Rightarrow> (u32 \<times> nat) option" where
  "blobLookup P g d =
     (let lens = concat (map (\<lambda>m. case meta_len m d of None \<Rightarrow> [] | Some l \<Rightarrow> [l]) (listed_metas P g)) in
      if length lens > 0 \<and> blobPresent P g d then Some (last lens, length lens) else None)"

definition RegistryBlobAt :: "'s reg_env \<Rightarrow> nat \<Rightarrow> 's registry \<Rightarrow> (errno + digest) \<times> 's registry" where
  "RegistryBlobAt P n g0 =
     (let g = ensureReady P g0;
          vs = (case g_visible g of Some vs \<Rightarrow> if n = 0 then visibleBlobs P g else vs | None \<Rightarrow> visibleBlobs P g) in
      (if n \<ge> length vs then Inl ENOENT else Inr (vs ! n), g\<lparr>g_visible := Some vs\<rparr>))"

definition RegistryBlobInfo :: "'s reg_env \<Rightarrow> digest option \<Rightarrow> 's registry \<Rightarrow> (errno + reg_blob_info) \<times> 's registry" where
  "RegistryBlobInfo P digest g0 =
     (case digest of
        None \<Rightarrow> (Inl EINVAL, g0)
      | Some d \<Rightarrow>
          let g = ensureReady P g0 in
          (case blobLookup P g d of
             None \<Rightarrow> (Inl ENOENT, g)
           | Some (len, entries) \<Rightarrow>
               let res = (residentByDigest g d \<noteq> None);
                   name = (if res then Some ''resident''
                           else case storeHolding P g d of
                             None \<Rightarrow> None
                           | Some j \<Rightarrow> (case op_capacity (c_ops P) (g_stores g ! j) of Some (Inr c) \<Rightarrow> Some (cap_name c) | _ \<Rightarrow> None)) in
               (Inr \<lparr>bi_size = len, bi_entries = entries mod 2 ^ 16,
                     bi_mapped = list_ex (\<lambda>m. mp_used m \<and> mp_digest m = d) (g_maps g), bi_resident = res,
                     bi_store = (case name of None \<Rightarrow> [] | Some s \<Rightarrow> strncpy_buf REGISTRY_STORE_NAME_LEN s)\<rparr>, g)))"

definition RegistryLinkLayer :: "'s reg_env \<Rightarrow> string option \<Rightarrow> nat \<Rightarrow> digest \<Rightarrow> 's registry \<Rightarrow> (errno + unit) \<times> 's registry" where
  "RegistryLinkLayer P ref layer d g0 =
     (case parseRef ref of
        Inl e \<Rightarrow> (Inl e, g0)
      | Inr key \<Rightarrow>
          if layer \<ge> c_maxl P then (Inl EINVAL, g0)
          else
            let g = ensureReady P g0 in
            (case blobLookup P g d of
               None \<Rightarrow> (Inl ENOENT, g)
             | Some (len, entries) \<Rightarrow> (Inr (), pendingAdd P key (of_nat layer) d len g)))"

section \<open>Start and end\<close>

definition RegistryInit :: "'s reg_env \<Rightarrow> 's registry \<Rightarrow> 's registry" where
  "RegistryInit P g = ensureReady P g"

definition unmap_store :: "'s reg_env \<Rightarrow> 's registry \<Rightarrow> reg_map \<Rightarrow> 's registry" where
  "unmap_store P g m =
     (case mp_store m of
        Some j \<Rightarrow> if mp_used m then g\<lparr>g_stores := upd_nth j (\<lambda>s. op_blobUnmap (c_ops P) s (mp_map m)) (g_stores g)\<rparr> else g
      | None \<Rightarrow> g)"

definition RegistryDeinit :: "'s reg_env \<Rightarrow> 's registry \<Rightarrow> 's registry" where
  "RegistryDeinit P g =
     (if \<not> g_ready g then g
      else
        let g1 = (if sg_active (g_stage g) then stage_abort P g else stageClear g);
            g2 = foldl (unmap_store P) g1 (g_maps g1) in
        g2\<lparr>g_maps := replicate (length (g_maps g2)) map_zero,
           g_pending := replicate (length (g_pending g2)) pending_zero, g_visible := None, g_ready := False\<rparr>)"

end
