(* ===== verification/RegistryInv.thy ===== *)
theory RegistryInv
  imports Registry "HOL-Library.Multiset"
begin

text \<open>
  The invariant of the registry, proved once for every store that keeps the contract.

  The locale \<open>registry_core\<close> extends the store contract by what the registry needs of the build and
  the digest function.  Inside it each operation is shown to keep the invariant \<open>reg_inv\<close>: the stores
  are sound, every stored blob is intact, the stage holds exactly the bytes hashed, every mapping
  shows the blob it was made for, and every digest an entry or a staged layer names is held.
  \<open>reg_step\<close> is one call of the public interface; \<open>reg_reach\<close> any sequence of them, in any order.
\<close>

section \<open>What the registry promises\<close>

text \<open>The digests a record names, and those all records of a store name.\<close>

definition rec_digests :: "nat \<Rightarrow> byte list \<Rightarrow> digest set" where
  "rec_digests maxl rec = (case RegistryRecordDecode maxl rec of None \<Rightarrow> {} | Some m \<Rightarrow> set (meta_digests m))"

definition listed :: "('s \<Rightarrow> store_view) \<Rightarrow> nat \<Rightarrow> 's list \<Rightarrow> digest set" where
  "listed view maxl ss =
     (case ss of [] \<Rightarrow> {} | p # _ \<Rightarrow> {d. \<exists>k rec. v_recs (view p) k = Some rec \<and> d \<in> rec_digests maxl rec})"

definition staged :: "reg_pending list \<Rightarrow> digest set" where
  "staged ps = pe_digest ` {p \<in> set ps. pe_used p}"

definition mapped_digests :: "reg_map list \<Rightarrow> digest set" where
  "mapped_digests ms = mp_digest ` {m \<in> set ms. mp_used m}"

definition stored :: "('s \<Rightarrow> store_view) \<Rightarrow> 's list \<Rightarrow> digest set" where
  "stored view ss = {d. \<exists>s \<in> set ss. v_blobs (view s) d \<noteq> None}"

definition resident_digests :: "reg_resident list \<Rightarrow> digest set" where
  "resident_digests rs = re_digest ` {r \<in> set rs. re_used r}"

lemma held_iff: "held g d \<longleftrightarrow> d \<in> staged (g_pending g) \<or> d \<in> mapped_digests (g_maps g)"
  by (auto simp: held_def staged_def mapped_digests_def list_ex_iff)

text \<open>What a store may lose: blobs outside \<open>U\<close>, and nothing else.\<close>

definition trimmed :: "('s \<Rightarrow> bool) \<Rightarrow> ('s \<Rightarrow> store_view) \<Rightarrow> ('s \<Rightarrow> registry_blob_map \<Rightarrow> digest option) \<Rightarrow>
    digest set \<Rightarrow> 's \<Rightarrow> 's \<Rightarrow> bool" where
  "trimmed ok view mapped U s s' \<longleftrightarrow> ok s' \<and> v_recs (view s') = v_recs (view s) \<and> v_stages (view s') = v_stages (view s) \<and>
     (\<forall>d. v_blobs (view s') d = v_blobs (view s) d \<or> (v_blobs (view s') d = None \<and> d \<notin> U)) \<and>
     (\<forall>m d. d \<in> U \<longrightarrow> mapped s m = Some d \<longrightarrow> mapped s' m = Some d)"

lemma trimmed_refl: "ok s \<Longrightarrow> trimmed ok view mapped U s s"
  by (simp add: trimmed_def)

lemma trimmed_trans:
  "trimmed ok view mapped U s s' \<Longrightarrow> trimmed ok view mapped U s' s'' \<Longrightarrow> trimmed ok view mapped U s s''"
  unfolding trimmed_def by metis

lemma trimmed_ok: "trimmed ok view mapped U s s' \<Longrightarrow> ok s'"
  by (simp add: trimmed_def)

lemma trimmed_blob: "trimmed ok view mapped U s s' \<Longrightarrow> d \<in> U \<Longrightarrow> v_blobs (view s') d = v_blobs (view s) d"
  unfolding trimmed_def by metis

lemma listed_trim:
  assumes "list_all2 (trimmed ok view mapped U) ss ss'"
  shows "listed view maxl ss' = listed view maxl ss"
  using assms by (cases ss; cases ss') (auto simp: listed_def trimmed_def)

text \<open>The bytes of every stored blob are those its digest was taken of.\<close>

definition intact :: "(byte list \<Rightarrow> digest) \<Rightarrow> store_view \<Rightarrow> bool" where
  "intact sha v \<longleftrightarrow> (\<forall>d data. v_blobs v d = Some data \<longrightarrow> sha data = d)"

definition stage_live :: "('s \<Rightarrow> store_view) \<Rightarrow> 's list \<Rightarrow> reg_stage \<Rightarrow> bool" where
  "stage_live view ss st \<longleftrightarrow> (sg_active st \<longrightarrow> key_ok (sg_key st) \<and>
     (\<exists>p ps data. ss = p # ps \<and> v_stages (view p) (sg_handle st) = Some data \<and>
        (sg_err st = None \<longrightarrow> data = sg_sha st \<and> sg_len st = length data)))"

definition map_live :: "('s \<Rightarrow> store_view) \<Rightarrow> ('s \<Rightarrow> registry_blob_map \<Rightarrow> digest option) \<Rightarrow> 's list \<Rightarrow> reg_map \<Rightarrow> bool" where
  "map_live view mapped ss m \<longleftrightarrow> (mp_used m \<longrightarrow> mp_users m > 0 \<and>
     (case mp_store m of
        None \<Rightarrow> True
      | Some j \<Rightarrow> j < length ss \<and> mapped (ss ! j) (mp_map m) = Some (mp_digest m) \<and>
          v_blobs (view (ss ! j)) (mp_digest m) \<noteq> None))"

definition resident_ok :: "(byte list \<Rightarrow> digest) \<Rightarrow> reg_resident \<Rightarrow> bool" where
  "resident_ok sha r \<longleftrightarrow> (re_used r \<longrightarrow> key_ok (re_key r) \<and> re_digest r = sha (re_data r))"

text \<open>The invariant of a started registry.\<close>

definition reg_inv :: "'s reg_env \<Rightarrow> ('s \<Rightarrow> bool) \<Rightarrow> ('s \<Rightarrow> store_view) \<Rightarrow> ('s \<Rightarrow> registry_blob_map \<Rightarrow> digest option) \<Rightarrow>
    's registry \<Rightarrow> bool" where
  "reg_inv P ok view mapped g \<longleftrightarrow>
     (\<forall>s \<in> set (g_stores g). ok s) \<and>
     (\<forall>s \<in> set (g_stores g). intact (c_sha P) (view s)) \<and>
     stage_live view (g_stores g) (g_stage g) \<and>
     tab_uniq mp_used mp_digest (g_maps g) \<and>
     (\<forall>m \<in> set (g_maps g). map_live view mapped (g_stores g) m) \<and>
     (\<forall>r \<in> set (g_resident g). resident_ok (c_sha P) r) \<and>
     (\<forall>d \<in> staged (g_pending g). length d = REGISTRY_META_DIGEST_LEN) \<and>
     listed view (c_maxl P) (g_stores g) \<union> staged (g_pending g) \<subseteq> stored view (g_stores g) \<union> resident_digests (g_resident g)"

lemma reg_inv_frame [simp]:
  "reg_inv P ok view mapped (g\<lparr>g_seq := q\<rparr>) = reg_inv P ok view mapped g"
  "reg_inv P ok view mapped (g\<lparr>g_order := q\<rparr>) = reg_inv P ok view mapped g"
  "reg_inv P ok view mapped (g\<lparr>g_visible := vs\<rparr>) = reg_inv P ok view mapped g"
  "reg_inv P ok view mapped (g\<lparr>g_ready := b\<rparr>) = reg_inv P ok view mapped g"
  by (simp_all add: reg_inv_def)

lemma stored_nth: "d \<in> stored view ss \<longleftrightarrow> (\<exists>i < length ss. v_blobs (view (ss ! i)) d \<noteq> None)"
  unfolding stored_def mem_Collect_eq by (metis in_set_conv_nth)

lemma stored_trim:
  assumes "list_all2 (trimmed ok view mapped U) ss ss'" "d \<in> stored view ss" "d \<in> U"
  shows "d \<in> stored view ss'"
proof -
  obtain i where i: "i < length ss" "v_blobs (view (ss ! i)) d \<noteq> None"
    using assms(2) unfolding stored_nth by blast
  then have "trimmed ok view mapped U (ss ! i) (ss' ! i)" "i < length ss'"
    using assms(1) by (auto simp: list_all2_conv_all_nth)
  then have "v_blobs (view (ss' ! i)) d \<noteq> None" using i(2) assms(3) by (simp add: trimmed_blob)
  then show ?thesis using \<open>i < length ss'\<close> unfolding stored_nth by blast
qed

text \<open>Losing only what is neither listed nor staged nor mapped keeps the invariant.\<close>

lemma reg_inv_trim:
  assumes inv: "reg_inv P ok view mapped g" and t: "list_all2 (trimmed ok view mapped U) (g_stores g) ss'"
    and U: "listed view (c_maxl P) (g_stores g) \<union> staged (g_pending g) \<union> mapped_digests (g_maps g) \<subseteq> U"
  shows "reg_inv P ok view mapped (g\<lparr>g_stores := ss'\<rparr>)"
proof -
  have len: "length ss' = length (g_stores g)" using t by (simp add: list_all2_lengthD)
  have nth: "trimmed ok view mapped U (g_stores g ! i) (ss' ! i)" if "i < length ss'" for i
    using t that by (auto simp: list_all2_conv_all_nth)
  have a: "\<forall>s \<in> set ss'. ok s" using trimmed_ok[OF nth] by (auto simp: in_set_conv_nth)
  have b: "intact (c_sha P) (view (ss' ! i))" if "i < length ss'" for i
  proof -
    have "intact (c_sha P) (view (g_stores g ! i))" using inv that len by (simp add: reg_inv_def)
    then show ?thesis using nth[OF that] by (auto simp: intact_def trimmed_def) (metis option.distinct(1))
  qed
  have c: "stage_live view ss' (g_stage g)"
  proof (cases "sg_active (g_stage g)")
    case True
    then obtain p ps data where p: "g_stores g = p # ps" "key_ok (sg_key (g_stage g))"
      "v_stages (view p) (sg_handle (g_stage g)) = Some data"
      "sg_err (g_stage g) = None \<longrightarrow> data = sg_sha (g_stage g) \<and> sg_len (g_stage g) = length data"
      using inv by (auto simp: reg_inv_def stage_live_def)
    obtain p' ps' where p': "ss' = p' # ps'" using len p(1) by (cases ss') auto
    then have "v_stages (view p') = v_stages (view p)" using nth[of 0] p(1) by (simp add: trimmed_def)
    then show ?thesis using p p' by (auto simp: stage_live_def)
  qed (simp add: stage_live_def)
  have d: "map_live view mapped ss' m" if "m \<in> set (g_maps g)" for m
  proof (cases "mp_used m \<and> mp_store m \<noteq> None")
    case True
    then obtain j where j: "mp_store m = Some j" "mp_used m" by auto
    have l: "map_live view mapped (g_stores g) m" using inv that by (simp add: reg_inv_def)
    have "mp_digest m \<in> U" using U that j(2) by (auto simp: mapped_digests_def)
    then show ?thesis using l nth[of j] len trimmed_blob[OF nth[of j], of "mp_digest m"] by (auto simp: map_live_def j trimmed_def)
  next
    case False
    have "map_live view mapped (g_stores g) m" using inv that by (simp add: reg_inv_def)
    then show ?thesis using False by (auto simp: map_live_def split: option.splits)
  qed
  have e: "listed view (c_maxl P) ss' \<union> staged (g_pending g) \<subseteq> stored view ss' \<union> resident_digests (g_resident g)"
  proof
    fix d assume d: "d \<in> listed view (c_maxl P) ss' \<union> staged (g_pending g)"
    then have "d \<in> U" "d \<in> stored view (g_stores g) \<union> resident_digests (g_resident g)"
      using inv U unfolding listed_trim[OF t] reg_inv_def by blast+
    then show "d \<in> stored view ss' \<union> resident_digests (g_resident g)" using stored_trim[OF t] by blast
  qed
  show ?thesis using inv a b c d e by (auto simp: reg_inv_def in_set_conv_nth[of _ ss'])
qed

lemma map_live_upd:
  assumes "map_live view mapped ss m" "j < length ss" "mapped (ss ! j) \<subseteq>\<^sub>m mapped s'"
    "v_blobs (view (ss ! j)) \<subseteq>\<^sub>m v_blobs (view s')"
  shows "map_live view mapped (ss[j := s']) m"
proof (cases "mp_store m = Some j")
  case True
  have "mapped s' k = Some d" if "mapped (ss ! j) k = Some d" for k d by (rule map_leD[OF assms(3) that])
  moreover have "v_blobs (view s') d \<noteq> None" if "v_blobs (view (ss ! j)) d \<noteq> None" for d
    by (rule map_le_not_None[OF assms(4) that])
  ultimately show ?thesis using assms(1,2) True by (simp add: map_live_def)
next
  case False
  then show ?thesis using assms(1) by (auto simp: map_live_def nth_list_update split: option.splits)
qed

lemma stored_upd:
  assumes "j < length ss" "v_blobs (view (ss ! j)) \<subseteq>\<^sub>m v_blobs (view s')" "d \<in> stored view ss"
  shows "d \<in> stored view (ss[j := s'])"
proof -
  obtain i where i: "i < length ss" "v_blobs (view (ss ! i)) d \<noteq> None" using assms(3) unfolding stored_nth by blast
  then have "v_blobs (view (ss[j := s'] ! i)) d \<noteq> None"
    using assms(1) map_le_not_None[OF assms(2)] by (cases "i = j") simp_all
  then show ?thesis using i(1) unfolding stored_nth by auto
qed

text \<open>One store gains bytes, mappings or a record: what has to be shown.\<close>

lemma reg_inv_store:
  assumes inv: "reg_inv P ok view mapped g" and j: "j < length (g_stores g)"
    and s': "ok s'" "intact (c_sha P) (view s')" "mapped (g_stores g ! j) \<subseteq>\<^sub>m mapped s'"
      "v_blobs (view (g_stores g ! j)) \<subseteq>\<^sub>m v_blobs (view s')"
    and g': "g_stores g' = (g_stores g)[j := s']" "g_maps g' = g_maps g" "g_pending g' = g_pending g"
      "g_resident g' = g_resident g"
    and st: "stage_live view (g_stores g') (g_stage g')"
    and li: "listed view (c_maxl P) (g_stores g') \<subseteq> listed view (c_maxl P) (g_stores g) \<union>
      (stored view (g_stores g') \<union> resident_digests (g_resident g'))"
  shows "reg_inv P ok view mapped g'"
proof -
  have "\<forall>s \<in> set (g_stores g'). ok s \<and> intact (c_sha P) (view s)"
    using inv s' set_update_subset_insert[of "g_stores g" j s'] by (auto simp: reg_inv_def g')
  moreover have "map_live view mapped (g_stores g') m" if "m \<in> set (g_maps g)" for m
    using map_live_upd[OF _ j s'(3,4)] inv that by (simp add: g' reg_inv_def)
  moreover have "d \<in> stored view (g_stores g') \<union> resident_digests (g_resident g')"
    if "d \<in> listed view (c_maxl P) (g_stores g') \<union> staged (g_pending g')" for d
  proof -
    have "d \<in> listed view (c_maxl P) (g_stores g) \<union> staged (g_pending g) \<or> d \<in> stored view (g_stores g') \<union> resident_digests (g_resident g')"
      using that li by (auto simp: g')
    then have "d \<in> stored view (g_stores g) \<union> resident_digests (g_resident g) \<or> d \<in> stored view (g_stores g') \<union> resident_digests (g_resident g')"
      using inv unfolding reg_inv_def by blast
    then show ?thesis using stored_upd[OF j s'(4)] by (auto simp: g')
  qed
  ultimately show ?thesis using inv st by (auto simp: reg_inv_def g')
qed

lemma listed_upd:
  assumes "j < length ss" "v_recs (view s') = v_recs (view (ss ! j))"
  shows "listed view maxl (ss[j := s']) = listed view maxl ss"
  using assms by (cases ss; cases j) (auto simp: listed_def)

lemma stage_live_upd:
  assumes "stage_live view ss st" "j < length ss" "v_stages (view s') = v_stages (view (ss ! j))"
  shows "stage_live view (ss[j := s']) st"
  using assms by (cases ss; cases j) (auto simp: stage_live_def)

text \<open>A store that changes only in the mappings it gains.\<close>

lemma reg_inv_same_view:
  assumes "reg_inv P ok view mapped g" "j < length (g_stores g)" "ok s'" "view s' = view (g_stores g ! j)"
    "mapped (g_stores g ! j) \<subseteq>\<^sub>m mapped s'"
  shows "reg_inv P ok view mapped (g\<lparr>g_stores := (g_stores g)[j := s']\<rparr>)"
  by (rule reg_inv_store[OF assms(1,2,3)])
    (use assms in \<open>auto simp: reg_inv_def listed_upd intro: stage_live_upd\<close>)

locale registry_core = registry_store "c_ops P" media ok view mapped
  for P :: "'s reg_env" and media :: "'s \<Rightarrow> bool" and ok view mapped +
  assumes maxl_pos: "0 < c_maxl P" and maxl_max: "c_maxl P \<le> REGISTRY_RECORD_ABS_MAX_LAYERS"
    and sha_len: "length (c_sha P bs) = REGISTRY_META_DIGEST_LEN"
begin

lemma add_refs_set: "add_refs refs ds = Some refs' \<Longrightarrow> set refs' = set refs \<union> set ds"
  by (induction refs ds rule: add_refs.induct) (auto split: if_splits)

lemma listed_loop_sub:
  assumes "ok p" "set ks \<subseteq> dom (v_recs (view p))" "listed_loop P p refs ks = Some refs'"
  shows "set refs \<subseteq> set refs' \<and>
    (\<forall>k \<in> set ks. \<forall>rec. v_recs (view p) k = Some rec \<longrightarrow> rec_digests (c_maxl P) rec \<subseteq> set refs')"
  using assms(2,3)
proof (induction ks arbitrary: refs)
  case (Cons k ks)
  obtain rec0 where k: "v_recs (view p) k = Some rec0" using Cons.prems(1) by auto
  have ko: "key_ok k" by (rule recs_keys[OF assms(1) k])
  show ?case
  proof (cases "op_recGet (c_ops P) p k REGISTRY_RECORD_MAX")
    case None
    then show ?thesis using Cons.prems by simp
  next
    case (Some r)
    note law = recGet_law[OF assms(1) ko Some]
    obtain rec where r: "r = Inr rec" "rec = rec0"
      using law k Cons.prems(2) Some by (cases r) (auto split: if_splits)
    obtain refs1 where l: "listed_loop P p refs1 ks = Some refs'" "set refs1 = set refs \<union> rec_digests (c_maxl P) rec0"
      using Cons.prems(2) Some r by (auto simp: rec_digests_def add_refs_set split: option.splits)
    then show ?thesis using Cons.IH[OF _ l(1)] Cons.prems(1) k by auto
  qed
qed simp

lemma listedDigests_sub:
  assumes "\<forall>s \<in> set (g_stores g). ok s" "listedDigests P g = Some refs"
  shows "listed view (c_maxl P) (g_stores g) \<subseteq> set refs"
proof (cases "g_stores g")
  case Nil
  then show ?thesis by (simp add: listed_def)
next
  case (Cons p ps)
  then obtain n ks where l: "op_recList (c_ops P) p REGISTRY_MAX_ENTRIES = Some (Inr (n, ks))" "n \<le> REGISTRY_MAX_ENTRIES"
      "listed_loop P p [] ks = Some refs"
    using assms(2) by (auto simp: listedDigests_def primary_def split: option.splits sum.splits if_splits)
  have "ok p" using assms(1) Cons by simp
  then have "set ks = dom (v_recs (view p))" using recList_complete l(1,2) by blast
  then show ?thesis using listed_loop_sub[OF \<open>ok p\<close> _ l(3)] Cons by (fastforce simp: listed_def)
qed

lemma drop_trim:
  assumes "ok s" "op_blobDrop (c_ops P) s d = (r, s')" "d \<notin> U"
  shows "trimmed ok view mapped U s s'"
  using blobDrop_law[OF assms(1,2)] assms(3) by (auto simp: trimmed_def split: sum.splits)

lemma drop_blob_trim: "ok s \<Longrightarrow> d \<notin> U \<Longrightarrow> trimmed ok view mapped U s (drop_blob P d s)"
  by (cases "op_blobDrop (c_ops P) s d") (auto simp: drop_blob_def trimmed_refl dest: drop_trim)

lemma trim_all_ok: "list_all2 (trimmed ok view mapped U) ss ss' \<Longrightarrow> \<forall>s \<in> set ss'. ok s"
  by (auto simp: list_all2_conv_all_nth in_set_conv_nth trimmed_def)

lemma drop_fold_trim:
  assumes "\<forall>s \<in> set (g_stores g). ok s" "set refs \<union> staged (g_pending g) \<union> mapped_digests (g_maps g) \<supseteq> U"
  shows "\<exists>ss'. foldl (\<lambda>g d. if d \<in> set refs \<or> held g d then g else g\<lparr>g_stores := map (drop_blob P d) (g_stores g)\<rparr>) g ds
      = g\<lparr>g_stores := ss'\<rparr> \<and> list_all2 (trimmed ok view mapped U) (g_stores g) ss'"
  using assms
proof (induction ds arbitrary: g)
  case Nil
  then show ?case by (auto simp: list_all2_conv_all_nth trimmed_refl intro!: exI[of _ "g_stores g"])
next
  case (Cons d ds)
  show ?case
  proof (cases "d \<in> set refs \<or> held g d")
    case True
    then show ?thesis using Cons.IH[OF Cons.prems] by simp
  next
    case False
    let ?g1 = "g\<lparr>g_stores := map (drop_blob P d) (g_stores g)\<rparr>"
    have "d \<notin> U" using False Cons.prems(2) by (auto simp: held_iff)
    then have t: "list_all2 (trimmed ok view mapped U) (g_stores g) (g_stores ?g1)"
      using Cons.prems(1) by (simp add: list_all2_conv_all_nth drop_blob_trim)
    have "\<forall>s \<in> set (g_stores ?g1). ok s" by (rule trim_all_ok[OF t])
    then obtain ss' where "foldl (\<lambda>g d. if d \<in> set refs \<or> held g d then g else g\<lparr>g_stores := map (drop_blob P d) (g_stores g)\<rparr>) ?g1 ds
        = ?g1\<lparr>g_stores := ss'\<rparr>" "list_all2 (trimmed ok view mapped U) (g_stores ?g1) ss'"
      using Cons.IH[of ?g1] Cons.prems(2) by auto
    moreover have "list_all2 (trimmed ok view mapped U) (g_stores g) ss'"
      by (rule list_all2_trans[OF trimmed_trans t calculation(2)])
    ultimately show ?thesis using False by (auto intro!: exI[of _ ss'])
  qed
qed

lemma dropAllIfFree_trim:
  assumes "\<forall>s \<in> set (g_stores g). ok s"
  shows "\<exists>ss'. dropAllIfFree P ds g = g\<lparr>g_stores := ss'\<rparr> \<and>
    list_all2 (trimmed ok view mapped (listed view (c_maxl P) (g_stores g) \<union> staged (g_pending g) \<union> mapped_digests (g_maps g)))
      (g_stores g) ss'"
proof (cases "ds = [] \<or> listedDigests P g = None")
  case True
  then show ?thesis using assms
    by (auto simp: dropAllIfFree_def list_all2_conv_all_nth trimmed_refl intro!: exI[of _ "g_stores g"])
next
  case False
  then obtain refs where r: "listedDigests P g = Some refs" "ds \<noteq> []" by auto
  show ?thesis using drop_fold_trim[OF assms, of "listed view (c_maxl P) (g_stores g) \<union> staged (g_pending g) \<union> mapped_digests (g_maps g)" refs ds]
      listedDigests_sub[OF assms r(1)] r by (auto simp: dropAllIfFree_def)
qed

lemma dropAllIfFree_inv:
  assumes "reg_inv P ok view mapped g"
  shows "reg_inv P ok view mapped (dropAllIfFree P ds g)"
proof -
  have "\<forall>s \<in> set (g_stores g). ok s" using assms by (simp add: reg_inv_def)
  from dropAllIfFree_trim[OF this, of ds] obtain ss' where
    "dropAllIfFree P ds g = g\<lparr>g_stores := ss'\<rparr>"
    "list_all2 (trimmed ok view mapped (listed view (c_maxl P) (g_stores g) \<union> staged (g_pending g) \<union> mapped_digests (g_maps g)))
      (g_stores g) ss'" by blast
  then show ?thesis by (metis reg_inv_trim[OF assms] order.refl)
qed

end

lemma staged_upd: "staged (ps[i := p]) \<subseteq> insert (pe_digest p) (staged ps)"
  using set_update_subset_insert[of ps i p] by (auto simp: staged_def)

lemma reg_inv_pending:
  assumes "reg_inv P ok view mapped g" "\<forall>d \<in> staged ps. length d = REGISTRY_META_DIGEST_LEN"
    "staged ps \<subseteq> stored view (g_stores g) \<union> resident_digests (g_resident g)"
  shows "reg_inv P ok view mapped (g\<lparr>g_pending := ps\<rparr>)"
  using assms by (auto simp: reg_inv_def)

lemma meta_digests_slots: "meta_ok maxl m \<Longrightarrow> meta_digests (meta_slots maxl m) = meta_digests m"
  by (auto simp: meta_digests_def meta_slots_def meta_ok_def Let_def)

lemma meta_digests_len: "meta_ok maxl m \<Longrightarrow> d \<in> set (meta_digests m) \<Longrightarrow> length d = REGISTRY_META_DIGEST_LEN"
  by (auto simp: meta_digests_def meta_ok_def dest: in_set_takeD)

lemma residentMeta_ok:
  assumes "0 < maxl" "length (re_digest r) = REGISTRY_META_DIGEST_LEN"
  shows "meta_ok maxl (residentMeta maxl r)" "meta_digests (residentMeta maxl r) = [re_digest r]"
proof -
  have "d \<in> set ((replicate maxl (replicate REGISTRY_META_DIGEST_LEN 0))[0 := re_digest r]) \<Longrightarrow> length d = REGISTRY_META_DIGEST_LEN" for d
    using set_update_subset_insert[of "replicate maxl (replicate REGISTRY_META_DIGEST_LEN 0)" 0 "re_digest r"] assms(2) by auto
  then show "meta_ok maxl (residentMeta maxl r)"
    using assms(1) by (simp add: meta_ok_def residentMeta_def meta_zero_def)
  show "meta_digests (residentMeta maxl r) = [re_digest r]"
    using assms(1) by (cases maxl) (auto simp: meta_digests_def residentMeta_def meta_zero_def)
qed

context registry_core begin

lemma pendingAdd_inv:
  assumes "reg_inv P ok view mapped g" "length d = REGISTRY_META_DIGEST_LEN"
    "d \<in> stored view (g_stores g) \<union> resident_digests (g_resident g)"
  shows "reg_inv P ok view mapped (pendingAdd P key index d len g)"
proof (cases "pending_scan key index 0 None None (g_pending g)")
  case None
  then show ?thesis using assms(1) by (simp add: pendingAdd_def)
next
  case (Some i)
  define p where "p = \<lparr>pe_used = True, pe_key = key, pe_index = index, pe_digest = d, pe_len = len, pe_order = g_order g + 1\<rparr>"
  have s: "staged ((g_pending g)[i := p]) \<subseteq> insert d (staged (g_pending g))"
    using staged_upd[of "g_pending g" i p] by (simp add: p_def)
  have "reg_inv P ok view mapped (g\<lparr>g_pending := (g_pending g)[i := p]\<rparr>)"
    by (rule reg_inv_pending[OF assms(1)]) (use s assms in \<open>auto simp: reg_inv_def\<close>)
  then have "reg_inv P ok view mapped (g\<lparr>g_order := g_order g + 1, g_pending := (g_pending g)[i := p]\<rparr>)"
    by (simp add: reg_inv_def)
  then show ?thesis using Some dropAllIfFree_inv
    by (simp add: pendingAdd_def Let_def dropIfFree_def p_def)
qed

lemma recGet_readMeta:
  assumes "reg_inv P ok view mapped g" "key_ok key" "recGet P g key = Inr rec"
  shows "\<exists>p ps. g_stores g = p # ps \<and> v_recs (view p) key = Some rec"
  using assms recGet_law[of _ key REGISTRY_RECORD_MAX "Inr rec"]
  by (auto simp: recGet_def primary_def reg_inv_def split: list.splits option.splits)

lemma readMeta_ok:
  assumes "reg_inv P ok view mapped g" "key_ok key" "readMeta P g key = Inr m"
  shows "meta_ok (c_maxl P) m \<and>
    set (meta_digests m) \<subseteq> stored view (g_stores g) \<union> resident_digests (g_resident g)"
proof (cases "recGet P g key")
  case (Inr rec)
  then have d: "RegistryRecordDecode (c_maxl P) rec = Some m" using assms(3) by (simp add: readMeta_def split: option.splits)
  obtain p ps where p: "g_stores g = p # ps" "v_recs (view p) key = Some rec" using recGet_readMeta[OF assms(1,2) Inr] by blast
  then have "set (meta_digests m) \<subseteq> listed view (c_maxl P) (g_stores g)"
    using d by (auto simp: listed_def rec_digests_def intro!: exI[of _ key] exI[of _ rec])
  then show ?thesis using assms(1) decode_meta_ok[OF d] unfolding reg_inv_def by blast
next
  case (Inl e)
  then obtain r where r: "residentFind g key = Some r" "m = residentMeta (c_maxl P) r"
    using assms(3) by (auto simp: readMeta_def split: option.splits)
  have u: "r \<in> set (g_resident g)" "re_used r" using find_SomeD r(1) unfolding residentFind_def by fastforce+
  then have "length (re_digest r) = REGISTRY_META_DIGEST_LEN" using assms(1) sha_len by (auto simp: reg_inv_def resident_ok_def)
  then show ?thesis using residentMeta_ok[OF maxl_pos] u r(2) by (auto simp: resident_digests_def)
qed

lemma rec_digests_encode:
  assumes "meta_ok (c_maxl P) m"
  shows "rec_digests (c_maxl P) (RegistryRecordEncode (c_maxl P) m REGISTRY_RECORD_MAX) = set (meta_digests m)"
  using encode_portable[OF assms maxl_max order.refl, of "c_maxl P" "[]"] assms
  by (simp add: rec_digests_def meta_digests_slots meta_ok_def)

lemma set_primary_stores: "primary g = Some p \<Longrightarrow> 0 < length (g_stores g) \<and> g_stores g ! 0 = p"
  by (auto simp: primary_def split: list.splits)

lemma writeMeta_inv:
  assumes inv: "reg_inv P ok view mapped g" and k: "key_ok key" and m: "meta_ok (c_maxl P) meta"
    "set (meta_digests meta) \<subseteq> stored view (g_stores g) \<union> resident_digests (g_resident g)"
    and w: "writeMeta P key meta g = (r, g')"
  shows "reg_inv P ok view mapped g' \<and> g_pending g' = g_pending g \<and> g_maps g' = g_maps g \<and>
    g_resident g' = g_resident g \<and> g_stage g' = g_stage g"
proof (cases "\<exists>p p' r1. primary g = Some p \<and> op_recPut (c_ops P) p key (RegistryRecordEncode (c_maxl P) meta REGISTRY_RECORD_MAX) = Some (r1, p') \<and> g' = set_primary p' g")
  case False
  then have "g' = g" using w by (auto simp: writeMeta_def Let_def split: option.splits if_splits)
  then show ?thesis using inv by simp
next
  case True
  then obtain p p' r1 where p: "primary g = Some p" "g' = set_primary p' g"
    "op_recPut (c_ops P) p key (RegistryRecordEncode (c_maxl P) meta REGISTRY_RECORD_MAX) = Some (r1, p')" by blast
  obtain ps where ss: "g_stores g = p # ps" using p(1) by (auto simp: primary_def split: list.splits)
  have okp: "ok p" "intact (c_sha P) (view p)" "stage_live view (g_stores g) (g_stage g)" using inv ss by (auto simp: reg_inv_def)
  note law = recPut_law[OF okp(1) k p(3)]
  have v: "v_blobs (view p') = v_blobs (view p)" "v_stages (view p') = v_stages (view p)" "ok p'" "mapped p \<subseteq>\<^sub>m mapped p'"
    using law by auto
  have rd: "rec_digests (c_maxl P) (RegistryRecordEncode (c_maxl P) meta REGISTRY_RECORD_MAX) = set (meta_digests meta)"
    by (rule rec_digests_encode[OF m(1)])
  have li: "listed view (c_maxl P) (p' # ps) \<subseteq> listed view (c_maxl P) (p # ps) \<union> set (meta_digests meta)"
    using law rd by (auto simp: listed_def split: sum.splits if_splits)
  have st: "stored view (p' # ps) = stored view (p # ps)" using v by (simp add: stored_def)
  have "reg_inv P ok view mapped g'"
    by (rule reg_inv_store[OF inv, of 0 p'])
      (use ss v okp li st m(2) stage_live_upd[OF okp(3), of 0 p'] in \<open>auto simp: p(2) set_primary_def intact_def\<close>)
  then show ?thesis by (simp add: p(2) set_primary_def)
qed

lemma commit_layers_spec:
  "commit_layers g key i n sz = Inr (ls, tot) \<Longrightarrow> length ls = n \<and> snd ` set ls \<subseteq> staged (g_pending g)"
proof (induction n arbitrary: i sz ls)
  case (Suc n)
  obtain p ls' where p: "pendingFind g key (of_nat i) = Some p" "commit_layers g key (i + 1) n (sz + pe_len p) = Inr (ls', tot)"
    "ls = (pe_len p, pe_digest p) # ls'"
    using Suc.prems by (auto split: option.splits if_splits sum.splits)
  have "pe_digest p \<in> staged (g_pending g)"
    using find_SomeD[OF p(1)[unfolded pendingFind_def]] by (auto simp: staged_def)
  then show ?case using Suc.IH[OF p(2)] p(3) by simp
qed simp

lemma commit_meta_ok:
  assumes "length ls = cnt" "cnt \<le> c_maxl P" "\<forall>d \<in> snd ` set ls. length d = REGISTRY_META_DIGEST_LEN"
  shows "meta_ok (c_maxl P) (commit_meta (c_maxl P) cnt ls sz now created seq)"
    "meta_digests (commit_meta (c_maxl P) cnt ls sz now created seq) = map snd ls"
proof -
  have "cnt < 2 ^ 8" using assms(2) maxl_max by (simp add: REGISTRY_RECORD_ABS_MAX_LAYERS_def)
  then have u: "unat (of_nat cnt :: byte) = cnt" by (simp add: unat_of_nat take_bit_nat_eq_self)
  have "\<forall>d \<in> set (map snd ls @ drop cnt (replicate (c_maxl P) (replicate REGISTRY_META_DIGEST_LEN 0))). length d = REGISTRY_META_DIGEST_LEN"
    using assms(3) by (auto dest: in_set_dropD)
  then show "meta_ok (c_maxl P) (commit_meta (c_maxl P) cnt ls sz now created seq)"
    using assms u by (auto simp: meta_ok_def commit_meta_def meta_zero_def Let_def)
  show "meta_digests (commit_meta (c_maxl P) cnt ls sz now created seq) = map snd ls"
    using assms(1) u by (simp add: meta_digests_def commit_meta_def meta_zero_def Let_def)
qed

lemma staged_clear: "staged (clear_pending key ps) \<subseteq> staged ps"
  by (auto simp: staged_def clear_pending_def pending_zero_def split: if_splits)

lemma syncSeq_frame: "\<exists>q. syncSeq P g = g\<lparr>g_seq := q\<rparr>"
  by (cases "recList P g") (auto simp: syncSeq_def intro: exI[of _ "g_seq g"])

lemma commitLocked_inv:
  assumes inv: "reg_inv P ok view mapped g" and k: "key_ok key" and c: "commitLocked P now key cnt created g = (r, g')"
  shows "reg_inv P ok view mapped g'"
proof (cases "cnt = 0 \<or> cnt > c_maxl P \<or> (\<exists>e. commit_layers g key 0 cnt 0 = Inl e)")
  case True
  then have "g' = g" using c by (auto simp: commitLocked_def split: if_splits)
  then show ?thesis using inv by simp
next
  case False
  then obtain ls sz where ls: "commit_layers g key 0 cnt 0 = Inr (ls, sz)" "cnt \<le> c_maxl P"
    by (cases "commit_layers g key 0 cnt 0") auto
  note sp = commit_layers_spec[OF ls(1)]
  obtain q where q: "syncSeq P g = g\<lparr>g_seq := q\<rparr>" using syncSeq_frame by blast
  define meta where "meta = commit_meta (c_maxl P) cnt ls sz now created (q + 1)"
  have "\<forall>d \<in> snd ` set ls. length d = REGISTRY_META_DIGEST_LEN" using inv sp by (auto simp: reg_inv_def)
  note mo = commit_meta_ok[OF conjunct1[OF sp] ls(2) this, of sz now created "q + 1", folded meta_def]
  have md: "set (meta_digests meta) \<subseteq> stored view (g_stores g) \<union> resident_digests (g_resident g)"
    using inv sp by (auto simp: mo(2) reg_inv_def)
  obtain r1 g2 where w: "writeMeta P key meta (g\<lparr>g_seq := q\<rparr>) = (r1, g2)" by fastforce
  have i2: "reg_inv P ok view mapped g2"
    using writeMeta_inv[OF _ k mo(1) _ w] inv md by simp
  have "reg_inv P ok view mapped (g2\<lparr>g_pending := clear_pending key (g_pending g2)\<rparr>)"
    by (rule reg_inv_pending[OF i2]) (use i2 staged_clear[of key "g_pending g2"] in \<open>auto simp: reg_inv_def\<close>)
  then have i3: "reg_inv P ok view mapped (g2\<lparr>g_seq := q + 1, g_visible := None, g_pending := clear_pending key (g_pending g2)\<rparr>)"
    by (simp add: reg_inv_def)
  then show ?thesis using c False ls q w i2 inv dropAllIfFree_inv[OF i3]
    by (auto simp: commitLocked_def Let_def meta_def[symmetric] split: if_splits sum.splits)
qed

end

lemma stageClear_inv: "reg_inv P ok view mapped g \<Longrightarrow> reg_inv P ok view mapped (stageClear g)"
  by (simp add: reg_inv_def stageClear_def stage_live_def stage_zero_def)

lemma stage_live_active:
  assumes "reg_inv P ok view mapped g" "sg_active (g_stage g)"
  obtains p ps data where "g_stores g = p # ps" "primary g = Some p" "ok p" "intact (c_sha P) (view p)"
    "key_ok (sg_key (g_stage g))" "v_stages (view p) (sg_handle (g_stage g)) = Some data"
    "sg_err (g_stage g) = None \<longrightarrow> data = sg_sha (g_stage g) \<and> sg_len (g_stage g) = length data"
proof -
  from assms obtain p ps data where p: "g_stores g = p # ps" "key_ok (sg_key (g_stage g))"
    "v_stages (view p) (sg_handle (g_stage g)) = Some data"
    "sg_err (g_stage g) = None \<longrightarrow> data = sg_sha (g_stage g) \<and> sg_len (g_stage g) = length data"
    by (auto simp: reg_inv_def stage_live_def)
  moreover have "ok p" "intact (c_sha P) (view p)" using assms(1) p(1) by (auto simp: reg_inv_def)
  ultimately show ?thesis using that by (simp add: primary_def)
qed

text \<open>The primary store and the stage change together; blobs and records stay.\<close>

lemma reg_inv_stage:
  assumes "reg_inv P ok view mapped g" "g_stores g = p # ps" "ok p'" "mapped p \<subseteq>\<^sub>m mapped p'"
    "v_blobs (view p') = v_blobs (view p)" "v_recs (view p') = v_recs (view p)"
    "stage_live view (p' # ps) st"
  shows "reg_inv P ok view mapped ((set_primary p' g)\<lparr>g_stage := st\<rparr>)"
  by (rule reg_inv_store[OF assms(1), of 0 p'])
    (use assms listed_upd[of 0 "g_stores g" view p' "c_maxl P"] in \<open>auto simp: set_primary_def reg_inv_def intact_def\<close>)

lemma reg_inv_primary:
  assumes "reg_inv P ok view mapped g" "g_stores g = p # ps" "ok p'" "mapped p \<subseteq>\<^sub>m mapped p'" "view p' = view p"
  shows "reg_inv P ok view mapped (set_primary p' g)"
  using reg_inv_same_view[OF assms(1), of 0 p'] assms by (simp add: set_primary_def)

lemma primary_Some: "primary g = Some p \<Longrightarrow> \<exists>ps. g_stores g = p # ps"
  by (auto simp: primary_def split: list.splits)

context registry_core begin

lemma stageWriteLocked_inv:
  assumes inv: "reg_inv P ok view mapped g" and act: "sg_active (g_stage g)" and w: "stageWriteLocked P buf g = (r, g')"
  shows "reg_inv P ok view mapped g' \<and> sg_active (g_stage g')"
proof -
  obtain p ps data where p: "g_stores g = p # ps" "primary g = Some p" "ok p" "key_ok (sg_key (g_stage g))"
    "v_stages (view p) (sg_handle (g_stage g)) = Some data"
    "sg_err (g_stage g) = None \<longrightarrow> data = sg_sha (g_stage g) \<and> sg_len (g_stage g) = length data"
    using stage_live_active[OF inv act] by metis
  show ?thesis
  proof (cases "sg_err (g_stage g)")
    case (Some e)
    then show ?thesis using w inv act by (simp add: stageWriteLocked_def)
  next
    case None
    obtain rw p' where o: "op_stageWrite (c_ops P) p (sg_handle (g_stage g)) buf = (rw, p')" by fastforce
    note law = stageWrite_law[OF p(3,5) o]
    show ?thesis
    proof (cases rw)
      case (Inl e)
      then have g': "g' = (set_primary p' g)\<lparr>g_stage := (g_stage g)\<lparr>sg_err := Some e\<rparr>\<rparr>"
        using w None p o by (simp add: stageWriteLocked_def)
      show ?thesis using reg_inv_stage[OF inv p(1), of p'] law Inl p act
        by (auto simp: g' stage_live_def)
    next
      case (Inr n)
      then have g': "g' = (set_primary p' g)\<lparr>g_stage := (g_stage g)
            \<lparr>sg_sha := sg_sha (g_stage g) @ take n buf, sg_len := sg_len (g_stage g) + n\<rparr>\<rparr>"
        using w None p o by (simp add: stageWriteLocked_def)
      show ?thesis using reg_inv_stage[OF inv p(1), of p'] law Inr p act None
        by (auto simp: g' stage_live_def)
    qed
  qed
qed

lemma stage_abort_inv:
  assumes inv: "reg_inv P ok view mapped g" and act: "sg_active (g_stage g)"
  shows "reg_inv P ok view mapped (stage_abort P g)"
proof -
  obtain p ps data where p: "g_stores g = p # ps" "primary g = Some p" "ok p"
    "v_stages (view p) (sg_handle (g_stage g)) = Some data"
    using stage_live_active[OF inv act] by metis
  note law = stageAbort_law[OF p(3,4) refl]
  have "reg_inv P ok view mapped ((set_primary (op_stageAbort (c_ops P) p (sg_handle (g_stage g))) g)\<lparr>g_stage := stage_zero\<rparr>)"
    using law by (intro reg_inv_stage[OF inv p(1)]) (auto simp: stage_live_def stage_zero_def)
  then show ?thesis using p(2) by (simp add: stage_abort_def stageClear_def)
qed

lemma start_write_inv:
  assumes inv: "reg_inv P ok view mapped g" and w: "start_write P shaOk ref layer plain buf g = (r, g')"
  shows "reg_inv P ok view mapped g'"
proof (cases "\<exists>key p h s'. parseRef ref = Inr key \<and> primary g = Some p \<and> op_stageBegin (c_ops P) p = Some (Inr h, s') \<and>
    \<not> sg_active (g_stage g) \<and> layer < c_maxl P \<and> shaOk")
  case False
  have "reg_inv P ok view mapped (stageClear (set_primary s' g))"
    if "primary g = Some p" "op_stageBegin (c_ops P) p = Some (Inl e, s')" for p e s'
  proof -
    from primary_Some[OF that(1)] obtain ps where ss: "g_stores g = p # ps" by blast
    then have "ok p" using inv by (simp add: reg_inv_def)
    from stageBegin_law[OF this that(2)] show ?thesis
      by (intro stageClear_inv reg_inv_primary[OF inv ss]) auto
  qed
  then show ?thesis using False w inv stageClear_inv[OF inv]
    by (auto simp: start_write_def not_le split: if_splits sum.splits option.splits prod.splits)
next
  case True
  then obtain key p h s' where h: "parseRef ref = Inr key" "primary g = Some p" "op_stageBegin (c_ops P) p = Some (Inr h, s')"
    "\<not> sg_active (g_stage g)" "layer < c_maxl P" shaOk by blast
  define st where "st = stage_zero\<lparr>sg_active := True, sg_plain := plain, sg_handle := h, sg_key := key, sg_layer := of_nat layer\<rparr>"
  define g1 where "g1 = (set_primary s' g)\<lparr>g_stage := st\<rparr>"
  obtain ps where ss: "g_stores g = p # ps" using h(2) by (auto simp: primary_def split: list.splits)
  then have "ok p" using inv by (simp add: reg_inv_def)
  note law = stageBegin_law[OF this h(3)]
  have "key_ok key" using h(1)
    by (auto simp: parseRef_def key_ok_def split: option.splits if_splits prod.splits)
  then have i1: "reg_inv P ok view mapped g1"
    unfolding g1_def using law by (intro reg_inv_stage[OF inv ss]) (auto simp: stage_live_def st_def stage_zero_def)
  obtain r2 g2 where w2: "stageWriteLocked P buf g1 = (r2, g2)" by fastforce
  have a1: "sg_active (g_stage g1)" by (simp add: g1_def st_def)
  note i2 = stageWriteLocked_inv[OF i1 a1 w2]
  show ?thesis using w h w2 i2 stage_abort_inv
    by (auto simp: start_write_def g1_def st_def Let_def split: sum.splits)
qed

lemma parseRef_ok: "parseRef ref = Inr key \<Longrightarrow> key_ok key \<and> k_name key \<noteq> []"
  by (auto simp: parseRef_def key_ok_def split: option.splits if_splits prod.splits)

lemma stageFinishLocked_inv:
  assumes inv: "reg_inv P ok view mapped g" and act: "sg_active (g_stage g)" and f: "stageFinishLocked P now g = (r, g')"
  shows "reg_inv P ok view mapped g'"
proof (cases "sg_err (g_stage g) = None \<and> sg_len (g_stage g) \<noteq> 0")
  case False
  then have "g' = stage_abort P g" using f by (auto simp: stageFinishLocked_def Let_def split: option.splits if_splits)
  then show ?thesis using stage_abort_inv[OF inv act] by simp
next
  case True
  obtain p ps data where p: "g_stores g = p # ps" "primary g = Some p" "ok p" "intact (c_sha P) (view p)"
    "key_ok (sg_key (g_stage g))" "v_stages (view p) (sg_handle (g_stage g)) = Some data"
    "sg_err (g_stage g) = None \<longrightarrow> data = sg_sha (g_stage g) \<and> sg_len (g_stage g) = length data"
    by (rule stage_live_active[OF inv act])
  define d where "d = c_sha P data"
  obtain r1 s' where e: "op_stageEnd (c_ops P) p (sg_handle (g_stage g)) d (length data) = (r1, s')" by fastforce
  note law = stageEnd_law[OF p(3,6) e]
  define g1 where "g1 = set_primary s' (stageClear g)"
  have in': "intact (c_sha P) (view s')" using law p(4)
    by (auto simp: intact_def d_def keep_blob_def split: sum.splits if_splits)
  have mono: "v_blobs (view p) \<subseteq>\<^sub>m v_blobs (view s')" using law
    by (auto simp: keep_blob_def intro!: map_leI split: sum.splits)
  have i1: "reg_inv P ok view mapped g1" unfolding g1_def
    by (rule reg_inv_store[OF stageClear_inv[OF inv], of 0 s'])
      (use law in' mono p(1) listed_upd[of 0 "g_stores g" view s' "c_maxl P"]
        in \<open>auto simp: set_primary_def stageClear_def stage_live_def stage_zero_def\<close>)
  show ?thesis
  proof (cases r1)
    case (Inl e')
    then show ?thesis using f True p e i1 by (auto simp: stageFinishLocked_def Let_def g1_def d_def)
  next
    case (Inr u)
    have "v_blobs (view s') d \<noteq> None" using law Inr by (auto simp: keep_blob_def)
    then have "d \<in> stored view (g_stores g1)" using p(1) by (auto simp: g1_def set_primary_def stageClear_def stored_def)
    then have i2: "reg_inv P ok view mapped (pendingAdd P (sg_key (g_stage g)) (sg_layer (g_stage g)) d (of_nat (length data)) g1)"
      using i1 sha_len by (intro pendingAdd_inv) (auto simp: d_def)
    show ?thesis using f True p e Inr i2 commitLocked_inv[OF i2 p(5)]
      by (auto simp: stageFinishLocked_def Let_def g1_def d_def split: if_splits sum.splits prod.splits)
  qed
qed

lemma writeLayerLocked_inv:
  assumes "reg_inv P ok view mapped g" "writeLayerLocked P shaOk now st ref layer plain buf g = (r, g')"
  shows "reg_inv P ok view mapped g'"
  using assms stageWriteLocked_inv[OF assms(1)] start_write_inv[OF assms(1)] stageFinishLocked_inv[OF assms(1)]
    stage_abort_inv[OF assms(1)]
  by (auto simp: writeLayerLocked_def split: option.splits if_splits write_state.splits)

end

section \<open>Keys and resolution\<close>

lemma mset_insert_back: "mset (insert_back k xs) = add_mset k (mset xs)"
  by (induction xs) auto

lemma mset_sortKeys: "mset (sortKeys ks) = mset ks"
proof -
  have "mset (foldl (\<lambda>acc k. insert_back k acc) acc ks) = mset acc + mset ks" for acc
    by (induction ks arbitrary: acc) (auto simp: mset_insert_back)
  then show ?thesis by (simp add: sortKeys_def)
qed

lemma set_sortKeys [simp]: "set (sortKeys ks) = set ks"
  using mset_sortKeys by (rule mset_eq_setD)

lemma keyCmp_trans: "keyCmp a b \<le> 0 \<Longrightarrow> keyCmp b c \<le> 0 \<Longrightarrow> keyCmp a c \<le> 0"
proof -
  assume ab: "keyCmp a b \<le> 0" and bc: "keyCmp b c \<le> 0"
  let ?n = "\<lambda>x y. strncmp REGISTRY_KEY_NAME_LEN (k_name x) (k_name y)"
  let ?v = "\<lambda>x y. strncmp REGISTRY_KEY_NAME_LEN (k_version x) (k_version y)"
  have le: "?n a b \<le> 0" "?n b c \<le> 0" using ab bc by (auto simp: keyCmp_def Let_def split: if_splits)
  then have ac: "?n a c \<le> 0" by (rule strncmp_trans_le)
  show "keyCmp a c \<le> 0"
  proof (cases "?n a c = 0")
    case True
    then have "?n c a \<le> 0" using strncmp_antisym[of _ "k_name c" "k_name a"] by simp
    then have "?n c b \<le> 0" "?n b a \<le> 0" using le strncmp_trans_le by blast+
    then have "?n a b = 0" "?n b c = 0"
      using le strncmp_antisym[of _ "k_name c" "k_name b"] strncmp_antisym[of _ "k_name b" "k_name a"] by force+
    then show ?thesis using ab bc True strncmp_trans_le by (auto simp: keyCmp_def Let_def)
  qed (use ac in \<open>simp add: keyCmp_def Let_def\<close>)
qed

lemma keyCmp_antisym: "keyCmp b a = - keyCmp a b"
  using strncmp_antisym[of REGISTRY_KEY_NAME_LEN "k_name a" "k_name b"]
    strncmp_antisym[of REGISTRY_KEY_NAME_LEN "k_version a" "k_version b"]
  by (simp add: keyCmp_def Let_def)

abbreviation keys_sorted :: "registry_key list \<Rightarrow> bool" where
  "keys_sorted ks \<equiv> sorted_wrt (\<lambda>a b. keyCmp a b \<le> 0) ks"

lemma insert_back_sorted:
  "sorted_wrt (\<lambda>a b. keyCmp b a \<le> 0) xs \<Longrightarrow> sorted_wrt (\<lambda>a b. keyCmp b a \<le> 0) (insert_back k xs)"
proof (induction xs)
  case (Cons x xs)
  have s: "set (insert_back k xs) = insert k (set xs)" for xs
    using mset_insert_back[of k xs] by (metis set_mset_add_mset_insert set_mset_mset)
  show ?case
  proof (cases "keyCmp x k > 0")
    case True
    then have "keyCmp k x \<le> 0" using keyCmp_antisym[of k x] by simp
    then show ?thesis using Cons True by (auto simp: s)
  next
    case False
    then show ?thesis using Cons.prems by (auto intro: keyCmp_trans)
  qed
qed simp

lemma sortKeys_sorted: "keys_sorted (sortKeys ks)"
proof -
  have "sorted_wrt (\<lambda>a b. keyCmp b a \<le> 0) acc \<Longrightarrow>
      sorted_wrt (\<lambda>a b. keyCmp b a \<le> 0) (foldl (\<lambda>acc k. insert_back k acc) acc ks)" for acc
    by (induction ks arbitrary: acc) (auto intro: insert_back_sorted)
  then show ?thesis by (simp add: sortKeys_def sorted_wrt_rev)
qed

lemma set_list_resident: "set (list_resident rs ks) \<subseteq> set ks \<union> re_key ` {r \<in> set rs. re_used r}"
proof -
  have "set (foldl (\<lambda>ks r. if re_used r \<and> \<not> list_ex (\<lambda>k. keyEq k (re_key r)) ks then ks @ [re_key r] else ks) ks rs)
      \<subseteq> set ks \<union> re_key ` {r \<in> set rs. re_used r}" for ks
  proof (induction rs arbitrary: ks)
    case (Cons r rs)
    show ?case
      using Cons.IH[of "if re_used r \<and> \<not> list_ex (\<lambda>k. keyEq k (re_key r)) ks then ks @ [re_key r] else ks"]
      by (auto split: if_splits)
  qed simp
  then show ?thesis by (simp add: list_resident_def)
qed

lemma resolve_loop_from:
  "resolve_loop P g name best ks = Some (k, m) \<Longrightarrow> best = Some (k, m) \<or> (k \<in> set ks \<and> readMeta P g k = Inr m)"
proof (induction ks arbitrary: best)
  case (Cons x ks)
  obtain best' where b: "resolve_loop P g name best' ks = Some (k, m)"
    "best' = best \<or> (\<exists>c. readMeta P g x = Inr c \<and> best' = Some (x, c))"
    using Cons.prems by (auto split: if_splits sum.splits option.splits prod.splits)
  then show ?case using Cons.IH[OF b(1)] by auto
qed simp

lemma map_live_users: "map_live view mapped ss x \<Longrightarrow> 0 < n \<Longrightarrow> map_live view mapped ss (x\<lparr>mp_users := n\<rparr>)"
  by (cases "mp_store x") (simp_all add: map_live_def)

lemma reg_inv_swap:
  assumes "reg_inv P ok view mapped g" "j < length (g_stores g)" "ok s'" "view s' = view (g_stores g ! j)"
    "\<forall>m \<in> set (g_maps g). mp_used m \<and> mp_store m = Some j \<longrightarrow> mapped s' (mp_map m) = mapped (g_stores g ! j) (mp_map m)"
  shows "reg_inv P ok view mapped (g\<lparr>g_stores := (g_stores g)[j := s']\<rparr>)"
proof -
  let ?ss = "(g_stores g)[j := s']"
  have "\<forall>s \<in> set ?ss. ok s \<and> intact (c_sha P) (view s)"
    by (rule list_update_ball) (use assms(1-4) in \<open>auto simp: reg_inv_def\<close>)
  moreover have "stage_live view ?ss (g_stage g)"
    using assms by (intro stage_live_upd) (auto simp: reg_inv_def)
  moreover have "map_live view mapped ?ss m" if m: "m \<in> set (g_maps g)" for m
  proof -
    have "map_live view mapped (g_stores g) m" using assms(1) m by (simp add: reg_inv_def)
    then show ?thesis using assms(2,4) bspec[OF assms(5) m]
      by (cases "mp_store m"; cases "mp_store m = Some j") (auto simp: map_live_def)
  qed
  moreover have "listed view (c_maxl P) ?ss = listed view (c_maxl P) (g_stores g)" by (rule listed_upd) (use assms in auto)
  moreover have "stored view ?ss = stored view (g_stores g)"
  proof -
    have "view (?ss ! i) = view (g_stores g ! i)" for i using assms(2,4) by (cases "i = j") auto
    then show ?thesis by (auto simp: stored_nth)
  qed
  ultimately show ?thesis using assms(1) by (auto simp: reg_inv_def)
qed

context registry_core begin

lemma listKeys_ok:
  assumes "reg_inv P ok view mapped g" "listKeys P g = Inr ks" "k \<in> set ks"
  shows "key_ok k"
proof -
  obtain p n ls where l: "primary g = Some p" "op_recList (c_ops P) p REGISTRY_MAX_ENTRIES = Some (Inr (n, ls))"
    "ks = sortKeys (list_resident (g_resident g) ls)"
    using assms(2) by (auto simp: listKeys_def recList_def split: sum.splits option.splits)
  have "ok p" using assms(1) primary_Some[OF l(1)] by (auto simp: reg_inv_def)
  then have "set ls \<subseteq> dom (v_recs (view p))" using recList_law l(2) by blast
  then have "\<forall>k \<in> set ls. key_ok k" using recs_keys[OF \<open>ok p\<close>] by auto
  moreover have "k \<in> set ls \<or> k \<in> re_key ` {r \<in> set (g_resident g). re_used r}"
    using assms(3) l(3) set_list_resident[of "g_resident g" ls] by auto
  ultimately show ?thesis using assms(1) by (auto simp: reg_inv_def resident_ok_def)
qed

lemma resolve_ok:
  assumes "reg_inv P ok view mapped g" "key_ok key" "resolve P g key = Inr (k, m)"
  shows "key_ok k \<and> readMeta P g k = Inr m"
proof (cases "k_version key = []")
  case False
  then show ?thesis using assms(2,3) by (auto simp: resolve_def split: sum.splits)
next
  case True
  then obtain ks where "listKeys P g = Inr ks" "resolve_loop P g (k_name key) None ks = Some (k, m)"
    using assms(3) by (auto simp: resolve_def split: sum.splits option.splits)
  then show ?thesis using resolve_loop_from[of P g _ None ks k m] listKeys_ok[OF assms(1)] by auto
qed

lemma keyFromEntry_ok: "key_ok (keyFromEntry e)"
  by (simp add: key_ok_def keyFromEntry_def length_strncpy_buf REGISTRY_KEY_NAME_LEN_def min_def)

lemma resolve_entry:
  assumes "reg_inv P ok view mapped g" "resolve P g (keyFromEntry e) = Inr (k, m)"
  shows "key_ok k" "readMeta P g k = Inr m" "meta_ok (c_maxl P) m"
    "set (meta_digests m) \<subseteq> stored view (g_stores g) \<union> resident_digests (g_resident g)"
  using resolve_ok[OF assms(1) keyFromEntry_ok assms(2)] readMeta_ok[OF assms(1)] by blast+

section \<open>Mapping\<close>

lemma reg_inv_maps:
  assumes "reg_inv P ok view mapped g" "tab_uniq mp_used mp_digest ms" "\<forall>m \<in> set ms. map_live view mapped (g_stores g) m"
  shows "reg_inv P ok view mapped (g\<lparr>g_maps := ms\<rparr>)"
  using assms by (auto simp: reg_inv_def)

lemma add_map_inv:
  assumes inv: "reg_inv P ok view mapped g" and f: "find_idx (\<lambda>m. \<not> mp_used m) (g_maps g) = Some i"
    and no: "find_idx (\<lambda>m. mp_used m \<and> mp_digest m = mp_digest x) (g_maps g) = None"
    and x: "mp_used x" "map_live view mapped (g_stores g) x"
  shows "reg_inv P ok view mapped (g\<lparr>g_maps := (g_maps g)[i := x]\<rparr>)"
proof -
  have u: "tab_uniq mp_used mp_digest (g_maps g)" using inv by (simp add: reg_inv_def)
  have "tab_uniq mp_used mp_digest ((g_maps g)[i := x])"
    by (rule tab_set(1)[OF u]) (use find_idx_SomeD[OF f] no x in \<open>auto simp: find_idx_None\<close>)
  moreover have "\<forall>m \<in> set ((g_maps g)[i := x]). map_live view mapped (g_stores g) m"
    using inv x(2) set_update_subset_insert[of "g_maps g" i x] by (auto simp: reg_inv_def)
  ultimately show ?thesis by (rule reg_inv_maps[OF inv])
qed

lemma mapBlob_inv:
  assumes inv: "reg_inv P ok view mapped g" and m: "mapBlob P d len g = (r, g')"
  shows "reg_inv P ok view mapped g'"
proof (cases "find_idx (\<lambda>m. mp_used m \<and> mp_digest m = d) (g_maps g)")
  case (Some i)
  have "\<forall>m \<in> set (upd_nth i (mp_users_update Suc) (g_maps g)). map_live view mapped (g_stores g) m"
  proof
    fix m assume "m \<in> set (upd_nth i (mp_users_update Suc) (g_maps g))"
    then obtain m0 where m0: "m0 \<in> set (g_maps g)" "m = m0 \<or> m = mp_users_update Suc m0"
      using set_upd_nth[of i "mp_users_update Suc" "g_maps g"] by blast
    then have l: "map_live view mapped (g_stores g) m0" using inv by (simp add: reg_inv_def)
    then have "map_live view mapped (g_stores g) (mp_users_update Suc m0)"
      by (cases "mp_store m0") (simp_all add: map_live_def)
    then show "map_live view mapped (g_stores g) m" using l m0(2) by blast
  qed
  then have "reg_inv P ok view mapped (g\<lparr>g_maps := upd_nth i (mp_users_update Suc) (g_maps g)\<rparr>)"
    using inv by (intro reg_inv_maps) (auto simp: tab_same reg_inv_def)
  then show ?thesis using m Some by (auto simp: mapBlob_def)
next
  case None
  show ?thesis
  proof (cases "residentByDigest g d")
    case (Some x)
    then have "re_digest x = d" using find_SomeD[OF Some[unfolded residentByDigest_def]] by simp
    then show ?thesis
    proof (cases "find_idx (\<lambda>m. \<not> mp_used m) (g_maps g)")
      case free: (Some i)
      have "reg_inv P ok view mapped (g\<lparr>g_maps := (g_maps g)[i := \<lparr>mp_used = True, mp_store = None,
          mp_map = \<lparr>bm_ptr = re_addr x, bm_len = length (re_data x), bm_handle = 0\<rparr>, mp_digest = re_digest x, mp_users = 1\<rparr>]\<rparr>)"
        by (rule add_map_inv[OF inv free]) (use None \<open>re_digest x = d\<close> in \<open>simp_all add: map_live_def\<close>)
      then show ?thesis using m None Some free by (simp add: mapBlob_def mapResident_def)
    qed (use m None Some inv in \<open>simp add: mapBlob_def mapResident_def\<close>)
  next
    case no: None
    show ?thesis
    proof (cases "storeHolding P g d")
      case None
      then show ?thesis using m no \<open>find_idx _ _ = None\<close> inv by (simp add: mapBlob_def)
    next
      case (Some j)
      have j: "j < length (g_stores g)" "op_blobHas (c_ops P) (g_stores g ! j) d = Some True"
        using find_idx_SomeD[OF Some[unfolded storeHolding_def]] by auto
      then have okj: "ok (g_stores g ! j)" using inv by (simp add: reg_inv_def)
      have has: "v_blobs (view (g_stores g ! j)) d \<noteq> None" using blobHas_law[OF okj j(2)] by simp
      obtain rm s' where o: "op_blobMap (c_ops P) (g_stores g ! j) d len = (rm, s')" by fastforce
      note law = blobMap_law[OF okj o]
      have i1: "reg_inv P ok view mapped (g\<lparr>g_stores := (g_stores g)[j := s']\<rparr>)"
        using law by (intro reg_inv_same_view[OF inv j(1)]) auto
      show ?thesis
      proof (cases "\<exists>i mm. find_idx (\<lambda>m. \<not> mp_used m) (g_maps g) = Some i \<and> rm = Inr mm")
        case False
        then show ?thesis using m no \<open>find_idx _ _ = None\<close> Some o inv i1
          by (auto simp: mapBlob_def split: option.splits sum.splits)
      next
        case True
        then obtain i mm where i: "find_idx (\<lambda>m. \<not> mp_used m) (g_maps g) = Some i" "rm = Inr mm" by blast
        define x where "x = \<lparr>mp_used = True, mp_store = Some j, mp_map = mm, mp_digest = d, mp_users = 1\<rparr>"
        have "reg_inv P ok view mapped ((g\<lparr>g_stores := (g_stores g)[j := s']\<rparr>)\<lparr>g_maps := (g_maps g)[i := x]\<rparr>)"
          using add_map_inv[OF i1, of i x] i law has j(1) \<open>find_idx _ _ = None\<close> by (simp add: x_def map_live_def)
        then show ?thesis using m no \<open>find_idx _ _ = None\<close> Some o i by (simp add: mapBlob_def x_def)
      qed
    qed
  qed
qed

lemma unmapPtr_inv:
  assumes inv: "reg_inv P ok view mapped g"
  shows "reg_inv P ok view mapped (unmapPtr P ptr g)"
proof (cases "find_idx (\<lambda>m. mp_used m \<and> bm_ptr (mp_map m) = ptr) (g_maps g)")
  case None
  then show ?thesis using inv by (simp add: unmapPtr_def)
next
  case (Some i)
  define x where "x = g_maps g ! i"
  have i: "i < length (g_maps g)" "mp_used x" using find_idx_SomeD[OF Some] by (auto simp: x_def)
  have u: "tab_uniq mp_used mp_digest (g_maps g)" using inv by (simp add: reg_inv_def)
  have live: "\<forall>m \<in> set (g_maps g). map_live view mapped (g_stores g) m" using inv by (simp add: reg_inv_def)
  then have lx: "map_live view mapped (g_stores g) x" using i(1) by (simp add: x_def)
  show ?thesis
  proof (cases "mp_users x - 1 > 0")
    case True
    have "reg_inv P ok view mapped (g\<lparr>g_maps := (g_maps g)[i := x\<lparr>mp_users := mp_users x - 1\<rparr>]\<rparr>)"
    proof (rule reg_inv_maps[OF inv])
      show "tab_uniq mp_used mp_digest ((g_maps g)[i := x\<lparr>mp_users := mp_users x - 1\<rparr>])"
        by (rule tab_set(1)[OF u i(1)]) (use i u in \<open>auto simp: x_def tab_uniq_def\<close>)
      show "\<forall>m \<in> set ((g_maps g)[i := x\<lparr>mp_users := mp_users x - 1\<rparr>]). map_live view mapped (g_stores g) m"
        using live lx True by (intro list_update_ball map_live_users) auto
    qed
    then show ?thesis using Some True by (simp add: unmapPtr_def x_def[symmetric])
  next
    case False
    define ss where "ss = (case mp_store x of None \<Rightarrow> g_stores g
      | Some j \<Rightarrow> upd_nth j (\<lambda>s. op_blobUnmap (c_ops P) s (mp_map x)) (g_stores g))"
    have rest: "m \<in> set (g_maps g) \<and> mp_digest m \<noteq> mp_digest x \<or> \<not> mp_used m"
      if m: "m \<in> set ((g_maps g)[i := map_zero])" for m
    proof -
      obtain k where k: "k < length (g_maps g)" "m = (g_maps g)[i := map_zero] ! k" using m by (auto simp: in_set_conv_nth)
      show ?thesis
        using k i u by (cases "k = i") (auto simp: map_zero_def tab_uniq_def x_def)
    qed
    have z: "reg_inv P ok view mapped (g\<lparr>g_maps := (g_maps g)[i := map_zero]\<rparr>)"
    proof (rule reg_inv_maps[OF inv])
      show "tab_uniq mp_used mp_digest ((g_maps g)[i := map_zero])"
        by (rule tab_clear(1)[OF u i(1)]) (use i in \<open>simp_all add: map_zero_def x_def\<close>)
      show "\<forall>m \<in> set ((g_maps g)[i := map_zero]). map_live view mapped (g_stores g) m"
        using live by (intro list_update_ball) (auto simp: map_live_def map_zero_def)
    qed
    have "reg_inv P ok view mapped (g\<lparr>g_stores := ss, g_maps := (g_maps g)[i := map_zero]\<rparr>)"
    proof (cases "mp_store x")
      case None
      then show ?thesis using z by (simp add: ss_def reg_inv_def)
    next
      case (Some j)
      have j: "j < length (g_stores g)" "mapped (g_stores g ! j) (mp_map x) = Some (mp_digest x)"
        using lx Some i(2) by (auto simp: map_live_def)
      have okj: "ok (g_stores g ! j)" using inv j(1) by (simp add: reg_inv_def)
      note law = blobUnmap_law[OF okj j(2) refl]
      define s' where "s' = op_blobUnmap (c_ops P) (g_stores g ! j) (mp_map x)"
      have "\<forall>m \<in> set ((g_maps g)[i := map_zero]). mp_used m \<and> mp_store m = Some j \<longrightarrow>
          mapped s' (mp_map m) = mapped (g_stores g ! j) (mp_map m)"
      proof (intro ballI impI)
        fix m assume m: "m \<in> set ((g_maps g)[i := map_zero])" "mp_used m \<and> mp_store m = Some j"
        then have "m \<in> set (g_maps g)" "mp_digest m \<noteq> mp_digest x" using rest by blast+
        then have "mapped (g_stores g ! j) (mp_map m) = Some (mp_digest m)" using live m(2) by (auto simp: map_live_def)
        then have "mp_map m \<noteq> mp_map x" using j(2) \<open>mp_digest m \<noteq> mp_digest x\<close> by auto
        then show "mapped s' (mp_map m) = mapped (g_stores g ! j) (mp_map m)" using law by (simp add: s'_def)
      qed
      then have "reg_inv P ok view mapped ((g\<lparr>g_maps := (g_maps g)[i := map_zero]\<rparr>)\<lparr>g_stores := (g_stores g)[j := s']\<rparr>)"
        using reg_inv_swap[OF z, of j s'] j(1) law by (simp add: s'_def)
      then show ?thesis using Some j(1) by (simp add: ss_def upd_nth_def s'_def reg_inv_def)
    qed
    then show ?thesis using Some False dropAllIfFree_inv
      by (auto simp: unmapPtr_def x_def[symmetric] dropIfFree_def ss_def split: option.splits)
  qed
qed

end

section \<open>Steps\<close>

text \<open>Only starting and ending change whether the registry is started.\<close>

lemma ready_drop [simp]: "g_ready (dropAllIfFree P ds g) = g_ready g"
proof -
  have "g_ready (foldl (\<lambda>g d. if d \<in> set refs \<or> held g d then g else g\<lparr>g_stores := map (drop_blob P d) (g_stores g)\<rparr>) g ds) = g_ready g" for refs
    by (induction ds arbitrary: g) auto
  then show ?thesis by (simp add: dropAllIfFree_def split: option.splits)
qed

lemma ready_simps [simp]:
  "g_ready (set_primary p g) = g_ready g"
  "g_ready (stageClear g) = g_ready g"
  "g_ready (dropIfFree P d g) = g_ready g"
  "g_ready (syncSeq P g) = g_ready g"
  "g_ready (stage_abort P g) = g_ready g"
  "g_ready (pendingAdd P key index d len g) = g_ready g"
  by (auto simp: set_primary_def stageClear_def dropIfFree_def syncSeq_def stage_abort_def pendingAdd_def Let_def
      split: sum.splits option.splits)

lemma ready_writeMeta: "writeMeta P key meta g = (r, g') \<Longrightarrow> g_ready g' = g_ready g"
  by (auto simp: writeMeta_def Let_def split: option.splits if_splits)

lemma ready_commit: "commitLocked P now key cnt created g = (r, g') \<Longrightarrow> g_ready g' = g_ready g"
  by (auto simp: commitLocked_def Let_def dest!: ready_writeMeta split: if_splits sum.splits prod.splits)

lemma ready_stageWrite: "stageWriteLocked P buf g = (r, g') \<Longrightarrow> g_ready g' = g_ready g"
  by (auto simp: stageWriteLocked_def split: option.splits sum.splits prod.splits)

lemma ready_writeLayer: "writeLayerLocked P shaOk now st ref layer plain buf g = (r, g') \<Longrightarrow> g_ready g' = g_ready g"
proof -
  have f: "stageFinishLocked P now g = (r, g') \<Longrightarrow> g_ready g' = g_ready g"
    by (auto simp: stageFinishLocked_def Let_def dest!: ready_commit split: option.splits sum.splits prod.splits if_splits)
  have s: "start_write P shaOk ref layer plain b g = (r, g') \<Longrightarrow> g_ready g' = g_ready g" for b
    by (auto simp: start_write_def Let_def dest!: ready_stageWrite split: option.splits sum.splits prod.splits if_splits)
  show "writeLayerLocked P shaOk now st ref layer plain buf g = (r, g') \<Longrightarrow> ?thesis"
    using f s ready_stageWrite[of P _ g r g']
    by (auto simp: writeLayerLocked_def split: option.splits if_splits write_state.splits)
qed

lemma ready_unmap [simp]: "g_ready (unmapPtr P ptr g) = g_ready g"
  by (auto simp: unmapPtr_def Let_def split: option.splits)

lemma ready_unmap_all [simp]: "g_ready (unmap_all P ptrs g) = g_ready g"
proof -
  have "g_ready (foldl (\<lambda>g ptr. unmapPtr P ptr g) g ptrs) = g_ready g" by (induction ptrs arbitrary: g) auto
  then show ?thesis by (simp add: unmap_all_def)
qed

lemma ready_mapBlob: "mapBlob P d len g = (r, g') \<Longrightarrow> g_ready g' = g_ready g"
  by (auto simp: mapBlob_def mapResident_def split: option.splits sum.splits prod.splits)

lemma ready_map_layers: "map_layers P ls acc g = (r, g') \<Longrightarrow> g_ready g' = g_ready g"
  by (induction P ls acc g arbitrary: r g' rule: map_layers.induct) (auto dest!: ready_mapBlob split: prod.splits sum.splits)

lemma ready_unload: "unload_loop P ptrs any g = (b, g') \<Longrightarrow> g_ready g' = g_ready g"
  by (induction ptrs arbitrary: any g) (auto split: if_splits)

text \<open>The registry when it is not started: the stores as they are on their media, nothing in flight.\<close>

definition reg_off :: "'s reg_env \<Rightarrow> ('s \<Rightarrow> bool) \<Rightarrow> ('s \<Rightarrow> store_view) \<Rightarrow> 's registry \<Rightarrow> bool" where
  "reg_off P media view g \<longleftrightarrow>
     (\<forall>s \<in> set (g_stores g). media s \<and> intact (c_sha P) (view s)) \<and> \<not> sg_active (g_stage g) \<and>
     (\<forall>m \<in> set (g_maps g). \<not> mp_used m) \<and> (\<forall>p \<in> set (g_pending g). \<not> pe_used p) \<and>
     (\<forall>r \<in> set (g_resident g). resident_ok (c_sha P) r) \<and>
     listed view (c_maxl P) (g_stores g) \<subseteq> stored view (g_stores g) \<union> resident_digests (g_resident g)"

definition reg_state :: "'s reg_env \<Rightarrow> ('s \<Rightarrow> bool) \<Rightarrow> ('s \<Rightarrow> bool) \<Rightarrow> ('s \<Rightarrow> store_view) \<Rightarrow>
    ('s \<Rightarrow> registry_blob_map \<Rightarrow> digest option) \<Rightarrow> 's registry \<Rightarrow> bool" where
  "reg_state P media ok view mapped g \<longleftrightarrow>
     (if g_ready g then reg_inv P ok view mapped g else reg_off P media view g)"

text \<open>The stores start: a call that finds the registry not started starts each of them.\<close>

definition start_ok :: "'s reg_env \<Rightarrow> 's registry \<Rightarrow> bool" where
  "start_ok P g \<longleftrightarrow> g_ready g \<or>
     (\<forall>s \<in> set (g_stores g). case op_init (c_ops P) s of None \<Rightarrow> True | Some (r, s') \<Rightarrow> r = Inr ())"

context registry_core begin

lemma init_store_law:
  assumes "media s" "case op_init (c_ops P) s of None \<Rightarrow> True | Some (r, s') \<Rightarrow> r = Inr ()"
  shows "ok (init_store P s) \<and> v_blobs (view (init_store P s)) = v_blobs (view s) \<and>
    v_recs (view (init_store P s)) = v_recs (view s)"
  using assms init_law[OF assms(1)] no_init_law[OF assms(1)] by (auto simp: init_store_def split: option.splits)

lemma reclaim_trim:
  assumes "ok s" "U \<subseteq> set refs"
  shows "trimmed ok view mapped U s (reclaim_store P refs s)"
proof -
  have "trimmed ok view mapped U s (foldl (\<lambda>s b. if b \<in> set refs then s else snd (op_blobDrop (c_ops P) s b)) s bs)" if "ok s" for bs s
    using that
  proof (induction bs arbitrary: s)
    case (Cons b bs)
    obtain r s' where d: "op_blobDrop (c_ops P) s b = (r, s')" by fastforce
    show ?case
    proof (cases "b \<in> set refs")
      case False
      then have t: "trimmed ok view mapped U s s'" using drop_trim[OF Cons.prems d] assms(2) by auto
      show ?thesis using False d trimmed_trans[OF t Cons.IH[OF trimmed_ok[OF t]]] by simp
    qed (use Cons in simp)
  qed (simp add: trimmed_refl)
  then show ?thesis using assms(1)
    by (auto simp: reclaim_store_def trimmed_refl split: option.splits sum.splits)
qed

lemma ensureReady_inv:
  assumes st: "reg_state P media ok view mapped g" and so: "start_ok P g"
  shows "reg_inv P ok view mapped (ensureReady P g) \<and> g_ready (ensureReady P g)"
proof (cases "g_ready g")
  case True
  then show ?thesis using st by (simp add: reg_state_def ensureReady_def)
next
  case False
  then have off: "reg_off P media view g" using st by (simp add: reg_state_def)
  let ?ss = "map (init_store P) (g_stores g)"
  have law: "ok (init_store P s) \<and> v_blobs (view (init_store P s)) = v_blobs (view s) \<and> v_recs (view (init_store P s)) = v_recs (view s)"
    if "s \<in> set (g_stores g)" for s
    using init_store_law off so that False by (auto simp: reg_off_def start_ok_def)
  have li: "listed view (c_maxl P) ?ss = listed view (c_maxl P) (g_stores g)"
    using law by (cases "g_stores g") (auto simp: listed_def)
  have sto: "stored view ?ss = stored view (g_stores g)" using law by (auto simp: stored_def)
  have none: "staged (g_pending g) = {}" "mapped_digests (g_maps g) = {}"
    using off by (auto simp: reg_off_def staged_def mapped_digests_def)
  have "reg_inv P ok view mapped (g\<lparr>g_stores := ?ss, g_seq := 0\<rparr>)"
    using off law li sto none
    by (auto simp: reg_inv_def reg_off_def intact_def stage_live_def map_live_def tab_uniq_def)
  then have i2: "reg_inv P ok view mapped (g\<lparr>g_stores := ?ss, g_seq := q\<rparr>)" for q by (simp add: reg_inv_def)
  obtain q where q: "(case listKeys P (g\<lparr>g_stores := ?ss, g_seq := 0\<rparr>) of Inl e \<Rightarrow> g\<lparr>g_stores := ?ss, g_seq := 0\<rparr>
      | Inr ks \<Rightarrow> (g\<lparr>g_stores := ?ss, g_seq := 0\<rparr>)\<lparr>g_seq := max_seq P (g\<lparr>g_stores := ?ss, g_seq := 0\<rparr>) 0 ks\<rparr>)
      = g\<lparr>g_stores := ?ss, g_seq := q\<rparr>"
    by (cases "listKeys P (g\<lparr>g_stores := ?ss, g_seq := 0\<rparr>)") auto
  define g2 where "g2 = g\<lparr>g_stores := ?ss, g_seq := q, g_visible := None\<rparr>"
  have i3: "reg_inv P ok view mapped g2" using i2[of q] by (simp add: g2_def reg_inv_def)
  have "reg_inv P ok view mapped (reclaim P (g\<lparr>g_stores := ?ss, g_seq := q\<rparr>))"
  proof (cases "listedDigests P g2")
    case None
    then show ?thesis using i3 by (simp add: reclaim_def g2_def)
  next
    case (Some refs)
    have oks: "\<forall>s \<in> set (g_stores g2). ok s" using i3 by (simp add: reg_inv_def)
    have "list_all2 (trimmed ok view mapped (listed view (c_maxl P) (g_stores g2))) (g_stores g2)
        (map (reclaim_store P refs) (g_stores g2))"
      using oks listedDigests_sub[OF oks Some] by (simp add: list_all2_conv_all_nth reclaim_trim)
    then have "reg_inv P ok view mapped (g2\<lparr>g_stores := map (reclaim_store P refs) (g_stores g2)\<rparr>)"
      by (rule reg_inv_trim[OF i3]) (use none in \<open>simp add: g2_def\<close>)
    then show ?thesis using Some by (simp add: reclaim_def g2_def)
  qed
  then show ?thesis using False q by (simp add: ensureReady_def)
qed

end

inductive reg_step :: "'s reg_env \<Rightarrow> 's registry \<Rightarrow> 's registry \<Rightarrow> bool" for P where
  init: "start_ok P g \<Longrightarrow> reg_step P g (RegistryInit P g)"
| write_layer: "start_ok P g \<Longrightarrow> reg_step P g (snd (RegistryWriteLayer P shaOk now s ref layer buf g))"
| plain_write: "start_ok P g \<Longrightarrow> reg_step P g (snd (RegistryWrite P shaOk now s ref buf g))"
| commit: "start_ok P g \<Longrightarrow> reg_step P g (snd (RegistryCommit P now ref n created g))"
| read: "start_ok P g \<Longrightarrow> reg_step P g (snd (RegistryRead P len g))"
| remove: "start_ok P g \<Longrightarrow> reg_step P g (snd (RegistryRemove P entry g))"
| map_layers: "start_ok P g \<Longrightarrow> reg_step P g (snd (RegistryMapLayers P entry g))"
| unmap_layers: "reg_step P g (RegistryUnmapLayers P ptrs g)"
| load: "start_ok P g \<Longrightarrow> reg_step P g (snd (RegistryLoad P entry g))"
| unload: "reg_step P g (snd (RegistryUnload P w g))"
| meta_read: "start_ok P g \<Longrightarrow> reg_step P g (snd (RegistryMetaRead P entry g))"
| set_signature: "start_ok P g \<Longrightarrow> (\<forall>bs. sig = Some bs \<longrightarrow> length bs = REGISTRY_META_SIG_LEN) \<Longrightarrow>
    reg_step P g (snd (RegistryMetaSetSignature P entry keyId sig g))"
| is_mapped: "start_ok P g \<Longrightarrow> reg_step P g (snd (RegistryIsMapped P entry g))"
| mark_seeded: "start_ok P g \<Longrightarrow> reg_step P g (RegistryMarkSeeded P ref g)"
| add_resident: "(\<forall>key. parseRef ref = Inr key \<longrightarrow> residentFind g key = None) \<Longrightarrow>
    reg_step P g (snd (RegistryAddResident P shaOk ref data created g))"
| capacity: "start_ok P g \<Longrightarrow> reg_step P g (snd (RegistryCapacity P mx g))"
| blob_at: "start_ok P g \<Longrightarrow> reg_step P g (snd (RegistryBlobAt P n g))"
| blob_info: "start_ok P g \<Longrightarrow> reg_step P g (snd (RegistryBlobInfo P d g))"
| link_layer: "start_ok P g \<Longrightarrow> reg_step P g (snd (RegistryLinkLayer P ref layer digest g))"
| deinit: "reg_step P g (RegistryDeinit P g)"

inductive reg_reach :: "'s reg_env \<Rightarrow> 's registry \<Rightarrow> 's registry \<Rightarrow> bool" for P g0 where
  start: "reg_reach P g0 g0"
| step: "reg_reach P g0 g \<Longrightarrow> reg_step P g g' \<Longrightarrow> reg_reach P g0 g'"

lemma reg_inv_off:
  assumes "\<And>s. ok s \<Longrightarrow> media s" "reg_inv P ok view mapped g" "\<not> sg_active (g_stage g)"
  shows "reg_off P media view (g\<lparr>g_maps := replicate n map_zero, g_pending := replicate k pending_zero,
    g_visible := None, g_ready := False\<rparr>)"
  using assms by (auto simp: reg_off_def reg_inv_def map_zero_def pending_zero_def)

context registry_core begin

lemma unmap_store_inv:
  assumes "reg_inv P ok view mapped (g\<lparr>g_maps := m # ms\<rparr>)"
  shows "reg_inv P ok view mapped ((unmap_store P g m)\<lparr>g_maps := ms\<rparr>) \<and> g_stage (unmap_store P g m) = g_stage g \<and>
    g_maps (unmap_store P g m) = g_maps g"
proof -
  have u: "tab_uniq mp_used mp_digest (m # ms)" and live: "\<forall>x \<in> set (m # ms). map_live view mapped (g_stores g) x"
    using assms by (auto simp: reg_inv_def)
  have z: "reg_inv P ok view mapped (g\<lparr>g_maps := ms\<rparr>)"
    using reg_inv_maps[OF assms, of ms] tab_uniq_Cons[OF u] live by simp
  show ?thesis
  proof (cases "\<exists>j. mp_store m = Some j \<and> mp_used m")
    case False
    then show ?thesis using z by (auto simp: unmap_store_def split: option.splits)
  next
    case True
    then obtain j where j: "mp_store m = Some j" "mp_used m" by blast
    have l: "j < length (g_stores g)" "mapped (g_stores g ! j) (mp_map m) = Some (mp_digest m)"
      using live j by (auto simp: map_live_def)
    have okj: "ok (g_stores g ! j)" using assms l(1) by (simp add: reg_inv_def)
    define s' where "s' = op_blobUnmap (c_ops P) (g_stores g ! j) (mp_map m)"
    note law = blobUnmap_law[OF okj l(2) refl, folded s'_def]
    have "\<forall>x \<in> set ms. mp_used x \<and> mp_store x = Some j \<longrightarrow> mapped s' (mp_map x) = mapped (g_stores g ! j) (mp_map x)"
    proof (intro ballI impI)
      fix x assume x: "x \<in> set ms" "mp_used x \<and> mp_store x = Some j"
      then have "mapped (g_stores g ! j) (mp_map x) = Some (mp_digest x)" using live by (auto simp: map_live_def)
      moreover have "mp_digest x \<noteq> mp_digest m" using tab_uniq_Cons[OF u] x j(2) by blast
      ultimately have "mp_map x \<noteq> mp_map m" using l(2) by auto
      then show "mapped s' (mp_map x) = mapped (g_stores g ! j) (mp_map x)" using law by simp
    qed
    then have "reg_inv P ok view mapped ((g\<lparr>g_maps := ms\<rparr>)\<lparr>g_stores := (g_stores g)[j := s']\<rparr>)"
      using reg_inv_swap[OF z, of j s'] l(1) law by simp
    then show ?thesis using j l(1) by (simp add: unmap_store_def upd_nth_def s'_def reg_inv_def)
  qed
qed

lemma unmap_fold_inv:
  "reg_inv P ok view mapped (g\<lparr>g_maps := ms\<rparr>) \<Longrightarrow>
   reg_inv P ok view mapped ((foldl (unmap_store P) g ms)\<lparr>g_maps := []\<rparr>) \<and>
   g_stage (foldl (unmap_store P) g ms) = g_stage g"
proof (induction ms arbitrary: g)
  case (Cons m ms)
  then show ?case using unmap_store_inv[OF Cons.prems] Cons.IH[of "unmap_store P g m"] by simp
qed simp

lemma deinit_state:
  assumes "reg_state P media ok view mapped g"
  shows "reg_state P media ok view mapped (RegistryDeinit P g)"
proof (cases "g_ready g")
  case False
  then show ?thesis using assms by (simp add: RegistryDeinit_def)
next
  case True
  then have inv: "reg_inv P ok view mapped g" using assms by (simp add: reg_state_def)
  define g1 where "g1 = (if sg_active (g_stage g) then stage_abort P g else stageClear g)"
  have i1: "reg_inv P ok view mapped g1" using stage_abort_inv[OF inv] stageClear_inv[OF inv] by (simp add: g1_def)
  have s1: "\<not> sg_active (g_stage g1)"
    by (auto simp: g1_def stage_abort_def stageClear_def stage_zero_def split: option.splits)
  have "reg_inv P ok view mapped ((foldl (unmap_store P) g1 (g_maps g1))\<lparr>g_maps := []\<rparr>)"
    "g_stage (foldl (unmap_store P) g1 (g_maps g1)) = g_stage g1"
    using unmap_fold_inv[where g = g1 and ms = "g_maps g1"] i1 by auto
  note i2 = reg_inv_off[OF ok_media this(1), where n = "length (g_maps (foldl (unmap_store P) g1 (g_maps g1)))"
      and k = "length (g_pending (foldl (unmap_store P) g1 (g_maps g1)))"]
  show ?thesis using i2 s1 True \<open>g_stage _ = g_stage g1\<close>
    by (simp add: RegistryDeinit_def Let_def g1_def[symmetric] reg_state_def)
qed

lemma unmap_all_inv: "reg_inv P ok view mapped g \<Longrightarrow> reg_inv P ok view mapped (unmap_all P ptrs g)"
proof -
  have "reg_inv P ok view mapped g \<Longrightarrow> reg_inv P ok view mapped (foldl (\<lambda>g ptr. unmapPtr P ptr g) g ptrs)"
    by (induction ptrs arbitrary: g) (auto intro: unmapPtr_inv)
  then show "reg_inv P ok view mapped g \<Longrightarrow> ?thesis" by (simp add: unmap_all_def)
qed

lemma map_layers_inv: "map_layers P ls acc g = (r, g') \<Longrightarrow> reg_inv P ok view mapped g \<Longrightarrow> reg_inv P ok view mapped g'"
proof (induction ls arbitrary: acc g)
  case (Cons l ls)
  obtain d len where l: "l = (d, len)" by fastforce
  obtain r1 g1 where m: "mapBlob P d (unat len) g = (r1, g1)" by fastforce
  have i1: "reg_inv P ok view mapped g1" by (rule mapBlob_inv[OF Cons.prems(2) m])
  show ?case using Cons.prems(1) l m Cons.IH[OF _ i1] unmap_all_inv[OF i1] by (cases r1) auto
qed simp

lemma unload_inv: "unload_loop P ptrs any g = (b, g') \<Longrightarrow> reg_inv P ok view mapped g \<Longrightarrow> reg_inv P ok view mapped g'"
  by (induction ptrs arbitrary: any g) (auto split: if_splits intro: unmapPtr_inv)

lemma mapLayersLocked_inv:
  assumes "reg_inv P ok view mapped g" "mapLayersLocked P e g = (r, g')"
  shows "reg_inv P ok view mapped g' \<and> g_ready g' = g_ready g"
proof (cases "resolve P g (keyFromEntry e)")
  case (Inl err)
  then show ?thesis using assms by (auto simp: mapLayersLocked_def)
next
  case (Inr km)
  obtain r1 g1 where m: "map_layers P (rev (take (unat (m_layerCount (snd km))) (zip (m_layerDigest (snd km)) (m_layerLen (snd km))))) [] g = (r1, g1)"
    by fastforce
  then have "g' = g1" using assms(2) Inr by (cases km; cases r1) (auto simp: mapLayersLocked_def Let_def)
  then show ?thesis using map_layers_inv[OF m assms(1)] ready_map_layers[OF m] by simp
qed

lemma unmap_none: "(\<forall>m \<in> set (g_maps g). \<not> mp_used m) \<Longrightarrow> unmap_all P ptrs g = g"
proof -
  assume n: "\<forall>m \<in> set (g_maps g). \<not> mp_used m"
  then have "unmapPtr P ptr g = g" for ptr
    by (auto simp: unmapPtr_def find_idx_None split: option.splits dest!: find_idx_SomeD)
  then have "foldl (\<lambda>g ptr. unmapPtr P ptr g) g ptrs = g" by (induction ptrs) auto
  then show ?thesis by (simp add: unmap_all_def)
qed

lemma listed_metas_iff:
  "m \<in> set (listed_metas P g) \<longleftrightarrow> (\<exists>ks k. listKeys P g = Inr ks \<and> k \<in> set ks \<and> readMeta P g k = Inr m)"
proof -
  have "m \<in> set (case readMeta P g k of Inl e \<Rightarrow> [] | Inr m \<Rightarrow> [m]) \<longleftrightarrow> readMeta P g k = Inr m" for k
    by (cases "readMeta P g k") auto
  then show ?thesis by (cases "listKeys P g") (simp_all add: listed_metas_def, blast)
qed

lemma blobLookup_ok:
  assumes inv: "reg_inv P ok view mapped g" and b: "blobLookup P g d = Some (len, n)"
  shows "length d = REGISTRY_META_DIGEST_LEN \<and> d \<in> stored view (g_stores g) \<union> resident_digests (g_resident g)"
proof -
  have "blobPresent P g d" and "\<exists>m \<in> set (listed_metas P g). meta_len m d \<noteq> None"
    using b by (auto simp: blobLookup_def Let_def split: if_splits option.splits)
  then obtain m where m: "m \<in> set (listed_metas P g)" "d \<in> set (meta_digests m)"
    by (auto simp: meta_len_def dest: find_idx_SomeD)
  then obtain ks k where k: "listKeys P g = Inr ks" "k \<in> set ks" "readMeta P g k = Inr m"
    unfolding listed_metas_iff by blast
  then have "meta_ok (c_maxl P) m" "d \<in> stored view (g_stores g) \<union> resident_digests (g_resident g)"
    using readMeta_ok[OF inv listKeys_ok[OF inv k(1,2)] k(3)] m(2) by auto
  then show ?thesis using meta_digests_len m(2) by blast
qed

lemma removed_listed:
  assumes "g_stores g = p # ps" "v_recs (view p') = (v_recs (view p))(k := None)"
  shows "listed view maxl (p' # ps) \<subseteq> listed view maxl (g_stores g)"
  using assms by (auto simp: listed_def split: if_splits)

lemma remove_inv:
  assumes st: "reg_state P media ok view mapped g" and so: "start_ok P g"
  shows "reg_state P media ok view mapped (snd (RegistryRemove P entry g))"
proof (cases "\<exists>e p key meta r p'. entry = Some e \<and> primary (ensureReady P g) = Some p \<and>
    resolve P (ensureReady P g) (keyFromEntry e) = Inr (key, meta) \<and> op_recDel (c_ops P) p key = Some (r, p')")
  case False
  then show ?thesis using st ensureReady_inv[OF st so]
    by (auto simp: RegistryRemove_def Let_def reg_state_def split: option.splits sum.splits if_splits)
next
  case True
  let ?g = "ensureReady P g"
  have inv: "reg_inv P ok view mapped ?g" "g_ready ?g" using ensureReady_inv[OF st so] by auto
  from True obtain e p key meta r p' where c: "entry = Some e" "primary ?g = Some p"
    "resolve P ?g (keyFromEntry e) = Inr (key, meta)" "op_recDel (c_ops P) p key = Some (r, p')" by blast
  obtain ps where ss: "g_stores ?g = p # ps" using primary_Some[OF c(2)] by blast
  have okp: "ok p" "intact (c_sha P) (view p)" "stage_live view (g_stores ?g) (g_stage ?g)"
    using inv(1) ss by (auto simp: reg_inv_def)
  note law = recDel_law[OF okp(1) resolve_entry(1)[OF inv(1) c(3)] c(4)]
  have "listed view (c_maxl P) (p' # ps) \<subseteq> listed view (c_maxl P) (g_stores ?g)"
    using law ss removed_listed[of ?g p ps p' key] by (cases r) (auto simp: listed_def)
  then have i1: "reg_inv P ok view mapped (set_primary p' ?g)"
    by (intro reg_inv_store[OF inv(1), of 0 p'])
      (use law okp ss stage_live_upd[OF okp(3), of 0 p'] in \<open>auto simp: set_primary_def intact_def\<close>)
  then have i2: "reg_inv P ok view mapped (dropAllIfFree P ds ((set_primary p' ?g)\<lparr>g_visible := None\<rparr>))" for ds
    by (intro dropAllIfFree_inv) simp
  show ?thesis using c inv i1 i2
    by (auto simp: RegistryRemove_def Let_def reg_state_def split: sum.splits option.splits)
qed

lemma rewrite_inv:
  assumes inv: "reg_inv P ok view mapped g" and k: "key_ok key" and r: "readMeta P g key = Inr meta"
    and m': "meta_ok (c_maxl P) meta'" "meta_digests meta' = meta_digests meta" and w: "writeMeta P key meta' g = (x, g')"
  shows "reg_inv P ok view mapped g'"
  using writeMeta_inv[OF inv k m'(1) _ w] readMeta_ok[OF inv k r] m'(2) by simp

lemma set_sig_inv:
  assumes st: "reg_state P media ok view mapped g" and so: "start_ok P g"
    and sl: "\<forall>bs. sig = Some bs \<longrightarrow> length bs = REGISTRY_META_SIG_LEN"
  shows "reg_state P media ok view mapped (snd (RegistryMetaSetSignature P entry keyId sig g))"
proof (cases "\<exists>e bs key meta. entry = Some e \<and> sig = Some bs \<and> resolve P (ensureReady P g) (keyFromEntry e) = Inr (key, meta)")
  case False
  then show ?thesis using st ensureReady_inv[OF st so]
    by (auto simp: RegistryMetaSetSignature_def Let_def reg_state_def split: option.splits sum.splits)
next
  case True
  let ?g = "ensureReady P g"
  have inv: "reg_inv P ok view mapped ?g" "g_ready ?g" using ensureReady_inv[OF st so] by auto
  from True obtain e bs key meta where c: "entry = Some e" "sig = Some bs" "resolve P ?g (keyFromEntry e) = Inr (key, meta)" by blast
  define meta' where "meta' = meta\<lparr>m_keyId := keyId, m_signature := bs, m_flags := m_flags meta OR REGISTRY_META_SIGNED\<rparr>"
  note re = resolve_entry[OF inv(1) c(3)]
  have m': "meta_ok (c_maxl P) meta'" "meta_digests meta' = meta_digests meta"
    using re(3) sl c(2) by (auto simp: meta'_def meta_ok_def meta_digests_def)
  obtain x g1 where w: "writeMeta P key meta' ?g = (x, g1)" by fastforce
  show ?thesis using c inv w rewrite_inv[OF inv(1) re(1,2) m' w] ready_writeMeta[OF w]
    by (auto simp: RegistryMetaSetSignature_def Let_def reg_state_def meta'_def)
qed

lemma mark_seeded_inv:
  assumes st: "reg_state P media ok view mapped g" and so: "start_ok P g"
  shows "reg_state P media ok view mapped (RegistryMarkSeeded P ref g)"
proof (cases "\<exists>want key meta. parseRef ref = Inr want \<and> resolve P (ensureReady P g) want = Inr (key, meta)")
  case False
  then show ?thesis using st ensureReady_inv[OF st so]
    by (auto simp: RegistryMarkSeeded_def Let_def reg_state_def split: sum.splits)
next
  case True
  let ?g = "ensureReady P g"
  have inv: "reg_inv P ok view mapped ?g" "g_ready ?g" using ensureReady_inv[OF st so] by auto
  from True obtain want key meta where c: "parseRef ref = Inr want" "resolve P ?g want = Inr (key, meta)" by blast
  define meta' where "meta' = meta\<lparr>m_flags := m_flags meta OR REGISTRY_META_SEEDED\<rparr>"
  have re: "key_ok key" "readMeta P ?g key = Inr meta" using resolve_ok[OF inv(1) _ c(2)] parseRef_ok[OF c(1)] by auto
  have m': "meta_ok (c_maxl P) meta'" "meta_digests meta' = meta_digests meta"
    using readMeta_ok[OF inv(1) re] by (auto simp: meta'_def meta_ok_def meta_digests_def)
  obtain x g1 where w: "writeMeta P key meta' ?g = (x, g1)" by fastforce
  show ?thesis using c inv w rewrite_inv[OF inv(1) re m' w] ready_writeMeta[OF w]
    by (auto simp: RegistryMarkSeeded_def Let_def reg_state_def meta'_def)
qed

lemma residentFind_None: "residentFind g key = None \<Longrightarrow> find_idx (\<lambda>r. re_used r \<and> keyEq (re_key r) key) (g_resident g) = None"
  by (auto simp: residentFind_def find_None_iff find_idx_None)

lemma add_resident_state:
  assumes fresh: "\<forall>key. parseRef ref = Inr key \<longrightarrow> residentFind g key = None" and st: "reg_state P media ok view mapped g"
  shows "reg_state P media ok view mapped (snd (RegistryAddResident P shaOk ref data created g))"
proof (cases "\<exists>addr bytes key i. data = Some (addr, bytes) \<and> bytes \<noteq> [] \<and> parseRef ref = Inr key \<and> shaOk \<and>
    find_idx (\<lambda>r. \<not> re_used r) (g_resident g) = Some i")
  case False
  then have "snd (RegistryAddResident P shaOk ref data created g) = g"
    using fresh by (auto simp: RegistryAddResident_def residentFind_None split: option.splits sum.splits if_splits)
  then show ?thesis using st by simp
next
  case True
  then obtain addr bytes key i where c: "data = Some (addr, bytes)" "bytes \<noteq> []" "parseRef ref = Inr key" shaOk
    "find_idx (\<lambda>r. \<not> re_used r) (g_resident g) = Some i" by blast
  define x where "x = \<lparr>re_used = True, re_key = key, re_addr = addr, re_data = bytes, re_created = created, re_digest = c_sha P bytes\<rparr>"
  have i: "i < length (g_resident g)" "\<not> re_used (g_resident g ! i)" using find_idx_SomeD[OF c(5)] by auto
  have sub: "resident_digests (g_resident g) \<subseteq> resident_digests ((g_resident g)[i := x])"
  proof
    fix d assume "d \<in> resident_digests (g_resident g)"
    then obtain k where k: "k < length (g_resident g)" "re_used (g_resident g ! k)" "re_digest (g_resident g ! k) = d"
      by (auto simp: resident_digests_def in_set_conv_nth)
    then have "k \<noteq> i" using i(2) by auto
    then have "g_resident g ! k = (g_resident g)[i := x] ! k" by simp
    then have "g_resident g ! k \<in> set ((g_resident g)[i := x])" using k(1) by (metis length_list_update nth_mem)
    then show "d \<in> resident_digests ((g_resident g)[i := x])" using k by (auto simp: resident_digests_def)
  qed
  have "key_ok key" using parseRef_ok[OF c(3)] by simp
  then have rok: "\<forall>r \<in> set ((g_resident g)[i := x]). resident_ok (c_sha P) r" if "\<forall>r \<in> set (g_resident g). resident_ok (c_sha P) r"
    using that by (intro list_update_ball) (auto simp: resident_ok_def x_def)
  have g': "snd (RegistryAddResident P shaOk ref data created g) = g\<lparr>g_resident := (g_resident g)[i := x], g_visible := None\<rparr>"
    using c fresh by (simp add: RegistryAddResident_def residentFind_None x_def)
  show ?thesis unfolding g'
  proof (cases "g_ready g")
    case True
    then have "reg_inv P ok view mapped g" using st by (simp add: reg_state_def)
    then have "reg_inv P ok view mapped (g\<lparr>g_resident := (g_resident g)[i := x], g_visible := None\<rparr>)"
      using rok sub unfolding reg_inv_def by (auto 0 3)
    then show "reg_state P media ok view mapped (g\<lparr>g_resident := (g_resident g)[i := x], g_visible := None\<rparr>)"
      using True by (simp add: reg_state_def)
  next
    case False
    then have "reg_off P media view g" using st by (simp add: reg_state_def)
    then have "reg_off P media view (g\<lparr>g_resident := (g_resident g)[i := x], g_visible := None\<rparr>)"
      using rok sub unfolding reg_off_def by (auto 0 3)
    then show "reg_state P media ok view mapped (g\<lparr>g_resident := (g_resident g)[i := x], g_visible := None\<rparr>)"
      using False by (simp add: reg_state_def)
  qed
qed

lemma step_state:
  assumes "reg_step P g g'" "reg_state P media ok view mapped g"
  shows "reg_state P media ok view mapped g'"
proof -
  have on: "reg_state P media ok view mapped g1" if "reg_inv P ok view mapped g1" "g_ready g1" for g1
    using that by (simp add: reg_state_def)
  have rd: "reg_inv P ok view mapped (ensureReady P g)" "g_ready (ensureReady P g)" if "start_ok P g"
    using ensureReady_inv[OF assms(2) that] by auto
  let ?g = "ensureReady P g"
  show ?thesis using assms(1)
  proof cases
    case init
    then show ?thesis using on rd by (simp add: RegistryInit_def)
  next
    case (write_layer shaOk now s ref layer buf)
    obtain r g1 where w: "writeLayerLocked P shaOk now s ref layer False buf ?g = (r, g1)" by fastforce
    then show ?thesis using on writeLayerLocked_inv[OF rd(1) w] ready_writeLayer[OF w] rd(2) write_layer
      by (simp add: RegistryWriteLayer_def)
  next
    case (plain_write shaOk now s ref buf)
    obtain r g1 where w: "writeLayerLocked P shaOk now s ref 0 True buf ?g = (r, g1)" by fastforce
    then show ?thesis using on writeLayerLocked_inv[OF rd(1) w] ready_writeLayer[OF w] rd(2) plain_write
      by (simp add: RegistryWrite_def)
  next
    case (commit now ref n created)
    show ?thesis
    proof (cases "parseRef ref")
      case (Inr key)
      obtain r g1 where w: "commitLocked P now key n created ?g = (r, g1)" by fastforce
      show ?thesis using on commitLocked_inv[OF rd(1) _ w] parseRef_ok[OF Inr] ready_commit[OF w] rd(2) commit Inr w
        by (simp add: RegistryCommit_def)
    qed (use commit assms(2) in \<open>simp add: RegistryCommit_def\<close>)
  next
    case (read len)
    then show ?thesis using on rd by (auto simp: RegistryRead_def Let_def split: sum.splits)
  next
    case (remove entry)
    then show ?thesis using assms(2) on rd remove_inv by blast
  next
    case (map_layers entry)
    show ?thesis
    proof (cases entry)
      case (Some e)
      obtain r g1 where w: "mapLayersLocked P e ?g = (r, g1)" by fastforce
      show ?thesis using on mapLayersLocked_inv[OF rd(1) w] rd(2) map_layers Some w
        by (auto simp: RegistryMapLayers_def split: sum.splits prod.splits)
    qed (use map_layers assms(2) in \<open>simp add: RegistryMapLayers_def\<close>)
  next
    case (unmap_layers ptrs)
    then show ?thesis using assms(2) unmap_all_inv[of g] unmap_none[of g]
      by (auto simp: RegistryUnmapLayers_def reg_state_def reg_off_def split: if_splits)
  next
    case (load entry)
    show ?thesis
    proof (cases entry)
      case (Some e)
      obtain r g1 where w: "mapLayersLocked P e ?g = (r, g1)" by fastforce
      show ?thesis using on mapLayersLocked_inv[OF rd(1) w] rd(2) load Some w
        by (auto simp: RegistryLoad_def split: sum.splits prod.splits)
    qed (use load assms(2) in \<open>simp add: RegistryLoad_def\<close>)
  next
    case (unload w)
    show ?thesis
    proof (cases "w \<noteq> None \<and> g_ready g")
      case True
      then obtain x where x: "w = Some x" by auto
      obtain b g1 where u: "unload_loop P (take (c_maxl P) (w_layers x)) False g = (b, g1)" by fastforce
      have "reg_inv P ok view mapped g" using assms(2) True by (simp add: reg_state_def)
      then show ?thesis using unload unload_inv[OF u] ready_unload[OF u] True on u by (simp add: RegistryUnload_def x)
    qed (use unload assms(2) in \<open>auto simp: RegistryUnload_def split: option.splits\<close>)
  next
    case (meta_read entry)
    then show ?thesis using on rd assms(2)
      by (auto simp: RegistryMetaRead_def Let_def split: option.splits sum.splits)
  next
    case (set_signature sig entry keyId)
    then show ?thesis using assms(2) on rd set_sig_inv by blast
  next
    case (is_mapped entry)
    then show ?thesis using on rd assms(2)
      by (auto simp: RegistryIsMapped_def Let_def split: option.splits sum.splits)
  next
    case (mark_seeded ref)
    then show ?thesis using assms(2) on rd mark_seeded_inv by blast
  next
    case (add_resident ref shaOk data created)
    then show ?thesis using assms(2) add_resident_state by blast
  next
    case (capacity mx)
    then show ?thesis using on rd by (simp add: RegistryCapacity_def Let_def)
  next
    case (blob_at n)
    then show ?thesis using on rd by (auto simp: RegistryBlobAt_def Let_def)
  next
    case (blob_info d)
    then show ?thesis using on rd assms(2)
      by (auto simp: RegistryBlobInfo_def Let_def split: option.splits prod.splits)
  next
    case (link_layer ref layer digest)
    then show ?thesis using assms(2) on rd pendingAdd_inv[OF rd(1)] blobLookup_ok[OF rd(1)]
      by (auto simp: RegistryLinkLayer_def Let_def split: sum.splits option.splits prod.splits)
  next
    case deinit
    then show ?thesis using deinit_state[OF assms(2)] by simp
  qed
qed

end

end
