(* ===== verification/RegistryMem.thy ===== *)
theory RegistryMem
  imports RegistryStore
begin

text \<open>
  The store that keeps everything in memory (\<open>platform/registry/registry-mem.c\<close>): the store of the
  dummy platform and of the host tests.

  The allocator is part of the state: \<open>ms_mallocs\<close> says of the next allocations which succeed (all of
  them once the list is used up), and \<open>ms_next\<close> is the next fresh address.  Stages under way are
  heap objects, found by their address; a handle that is no live stage is never passed.
\<close>

section \<open>Model\<close>

definition MAX_RECS :: nat where "MAX_RECS = 64"

definition MEM_MAX_BLOBS :: nat where "MEM_MAX_BLOBS = 64"

definition STAGE_MIN :: nat where "STAGE_MIN = 1024"

record mem_blob =
  b_used :: bool
  b_digest :: digest
  b_addr :: nat
  b_data :: "byte list"
  b_maps :: nat

record mem_rec =
  r_used :: bool
  r_key :: registry_key
  r_data :: "byte list"

record mem_stage =
  st_addr :: nat
  st_data :: "byte list"
  st_cap :: nat

record mem_store =
  ms_blobs :: "mem_blob list"
  ms_recs :: "mem_rec list"
  ms_usedBytes :: nat
  ms_limit :: nat
  ms_failList :: bool
  ms_stages :: "nat \<Rightarrow> mem_stage option"
  ms_next :: nat
  ms_mallocs :: "bool list"

definition blob_zero :: mem_blob where
  "blob_zero = \<lparr>b_used = False, b_digest = replicate 32 0, b_addr = 0, b_data = [], b_maps = 0\<rparr>"

definition rec_zero :: mem_rec where
  "rec_zero = \<lparr>r_used = False, r_key = \<lparr>k_name = [], k_version = []\<rparr>, r_data = []\<rparr>"

text \<open>\<open>WantedMalloc\<close>: a fresh address, or \<open>NULL\<close>.\<close>

definition mem_malloc :: "mem_store \<Rightarrow> nat option \<times> mem_store" where
  "mem_malloc g =
     (case ms_mallocs g of
        False # bs \<Rightarrow> (None, g\<lparr>ms_mallocs := bs\<rparr>)
      | True # bs \<Rightarrow> (Some (ms_next g), g\<lparr>ms_mallocs := bs, ms_next := ms_next g + 1\<rparr>)
      | [] \<Rightarrow> (Some (ms_next g), g\<lparr>ms_next := ms_next g + 1\<rparr>))"

definition findBlob :: "mem_store \<Rightarrow> digest \<Rightarrow> nat option" where
  "findBlob g digest = find_idx (\<lambda>b. b_used b \<and> b_digest b = digest) (ms_blobs g)"

definition RegistryMemMapCount :: "mem_store \<Rightarrow> digest \<Rightarrow> nat" where
  "RegistryMemMapCount g digest =
     (case findBlob g digest of Some i \<Rightarrow> b_maps (ms_blobs g ! i) | None \<Rightarrow> 0)"

definition mem_StageBegin :: "mem_store \<Rightarrow> (errno + nat) \<times> mem_store" where
  "mem_StageBegin g =
     (case mem_malloc g of
        (None, g1) \<Rightarrow> (Inl ENOMEM, g1)
      | (Some a, g1) \<Rightarrow> (Inr a, g1\<lparr>ms_stages := (ms_stages g1)(a \<mapsto> \<lparr>st_addr = 0, st_data = [], st_cap = 0\<rparr>)\<rparr>))"

text \<open>The doubling loop that makes room for \<open>need\<close> bytes.\<close>

function grow_cap :: "nat \<Rightarrow> nat \<Rightarrow> nat" where
  "grow_cap cap need = (if cap = 0 then 0 else if cap < need then grow_cap (cap * 2) need else cap)"
  by pat_completeness auto
termination by (relation "measure (\<lambda>(cap, need). need - cap)") auto

declare grow_cap.simps [simp del]

definition mem_StageWrite :: "mem_store \<Rightarrow> nat \<Rightarrow> byte list \<Rightarrow> (errno + nat) \<times> mem_store" where
  "mem_StageWrite g h buf =
     (case ms_stages g h of
        None \<Rightarrow> (Inl EBADF, g)
      | Some st \<Rightarrow>
          let n = length buf; len = length (st_data st) in
          if ms_limit g \<noteq> 0 \<and> ms_usedBytes g + len + n > ms_limit g then (Inl ENOSPC, g)
          else if len + n > st_cap st then
            let cap = grow_cap (if st_cap st = 0 then STAGE_MIN else st_cap st) (len + n) in
            (case mem_malloc g of
               (None, g1) \<Rightarrow> (Inl ENOMEM, g1)
             | (Some a, g1) \<Rightarrow>
                 (Inr n, g1\<lparr>ms_stages := (ms_stages g1)(h \<mapsto>
                    \<lparr>st_addr = a, st_data = st_data st @ buf, st_cap = cap\<rparr>)\<rparr>))
          else (Inr n, g\<lparr>ms_stages := (ms_stages g)(h \<mapsto> st\<lparr>st_data := st_data st @ buf\<rparr>)\<rparr>))"

definition stageFree :: "mem_store \<Rightarrow> nat \<Rightarrow> mem_store" where
  "stageFree g h = g\<lparr>ms_stages := (ms_stages g)(h := None)\<rparr>"

definition mem_StageEnd :: "mem_store \<Rightarrow> nat \<Rightarrow> digest \<Rightarrow> nat \<Rightarrow> (errno + unit) \<times> mem_store" where
  "mem_StageEnd g h digest len =
     (case ms_stages g h of
        None \<Rightarrow> (Inl EBADF, g)
      | Some st \<Rightarrow>
          if findBlob g digest \<noteq> None then (Inr (), stageFree g h)
          else
            (case find_idx (\<lambda>b. \<not> b_used b) (ms_blobs g) of
               None \<Rightarrow> (Inl ENOSPC, stageFree g h)
             | Some i \<Rightarrow>
                 (Inr (), (stageFree g h)
                    \<lparr>ms_blobs := (ms_blobs g)[i := \<lparr>b_used = True, b_digest = digest, b_addr = st_addr st,
                                                    b_data = st_data st, b_maps = 0\<rparr>],
                     ms_usedBytes := ms_usedBytes g + length (st_data st)\<rparr>)))"

definition mem_StageAbort :: "mem_store \<Rightarrow> nat \<Rightarrow> mem_store" where
  "mem_StageAbort g h = stageFree g h"

definition mem_BlobMap :: "mem_store \<Rightarrow> digest \<Rightarrow> nat \<Rightarrow> (errno + registry_blob_map) \<times> mem_store" where
  "mem_BlobMap g digest len =
     (case findBlob g digest of
        None \<Rightarrow> (Inl ENOENT, g)
      | Some i \<Rightarrow>
          let b = ms_blobs g ! i in
          (Inr \<lparr>bm_ptr = b_addr b, bm_len = length (b_data b), bm_handle = i\<rparr>,
           g\<lparr>ms_blobs := upd_nth i (b_maps_update (\<lambda>m. m + 1)) (ms_blobs g)\<rparr>))"

definition mem_BlobUnmap :: "mem_store \<Rightarrow> registry_blob_map \<Rightarrow> mem_store" where
  "mem_BlobUnmap g m =
     g\<lparr>ms_blobs := upd_nth (bm_handle m) (\<lambda>b. if b_maps b > 0 then b\<lparr>b_maps := b_maps b - 1\<rparr> else b) (ms_blobs g)\<rparr>"

definition mem_BlobHas :: "mem_store \<Rightarrow> digest \<Rightarrow> bool" where
  "mem_BlobHas g digest \<longleftrightarrow> findBlob g digest \<noteq> None"

definition mem_BlobDrop :: "mem_store \<Rightarrow> digest \<Rightarrow> (errno + unit) \<times> mem_store" where
  "mem_BlobDrop g digest =
     (case findBlob g digest of
        None \<Rightarrow> (Inl ENOENT, g)
      | Some i \<Rightarrow>
          if b_maps (ms_blobs g ! i) > 0 then (Inl EBUSY, g)
          else (Inr (), g\<lparr>ms_usedBytes := ms_usedBytes g - length (b_data (ms_blobs g ! i)),
                         ms_blobs := (ms_blobs g)[i := blob_zero]\<rparr>))"

definition mem_BlobList :: "mem_store \<Rightarrow> nat \<Rightarrow> errno + nat \<times> digest list" where
  "mem_BlobList g mx =
     (let ds = map b_digest (filter b_used (ms_blobs g)) in Inr (length ds, take mx ds))"

definition findRec :: "mem_store \<Rightarrow> registry_key \<Rightarrow> nat option" where
  "findRec g key =
     find_idx (\<lambda>r. r_used r \<and> strncmp REGISTRY_KEY_NAME_LEN (k_name (r_key r)) (k_name key) = 0 \<and>
                   strncmp REGISTRY_KEY_NAME_LEN (k_version (r_key r)) (k_version key) = 0) (ms_recs g)"

definition mem_RecPut :: "mem_store \<Rightarrow> registry_key \<Rightarrow> byte list \<Rightarrow> (errno + unit) \<times> mem_store" where
  "mem_RecPut g key rec =
     (case (case findRec g key of Some i \<Rightarrow> Some i | None \<Rightarrow> find_idx (\<lambda>r. \<not> r_used r) (ms_recs g)) of
        None \<Rightarrow> (Inl ENOSPC, g)
      | Some i \<Rightarrow>
          (case mem_malloc g of
             (None, g1) \<Rightarrow> (Inl ENOMEM, g1)
           | (Some a, g1) \<Rightarrow>
               (Inr (), g1\<lparr>ms_recs := (ms_recs g1)[i := \<lparr>r_used = True, r_key = key, r_data = rec\<rparr>]\<rparr>)))"

definition mem_RecGet :: "mem_store \<Rightarrow> registry_key \<Rightarrow> nat \<Rightarrow> errno + byte list" where
  "mem_RecGet g key cap =
     (case findRec g key of
        None \<Rightarrow> Inl ENOENT
      | Some i \<Rightarrow> if length (r_data (ms_recs g ! i)) > cap then Inl EMSGSIZE else Inr (r_data (ms_recs g ! i)))"

definition mem_RecDel :: "mem_store \<Rightarrow> registry_key \<Rightarrow> (errno + unit) \<times> mem_store" where
  "mem_RecDel g key =
     (case findRec g key of
        None \<Rightarrow> (Inl ENOENT, g)
      | Some i \<Rightarrow> (Inr (), g\<lparr>ms_recs := (ms_recs g)[i := rec_zero]\<rparr>))"

definition mem_RecList :: "mem_store \<Rightarrow> nat \<Rightarrow> errno + nat \<times> registry_key list" where
  "mem_RecList g mx =
     (if ms_failList g then Inl EIO
      else let ks = map r_key (filter r_used (ms_recs g)) in Inr (length ks, take mx ks))"

definition mem_Capacity :: "mem_store \<Rightarrow> errno + registry_capacity" where
  "mem_Capacity g =
     (let fr = (if ms_limit g \<noteq> 0 then of_nat (ms_limit g) - of_nat (ms_usedBytes g) else 0) in
      Inr \<lparr>cap_name = ''mem'', cap_kind = ''mem'', cap_unit = 0, cap_total = of_nat (ms_limit g),
           cap_freeBytes = fr, cap_largestFree = fr,
           cap_caps = REGISTRY_CAP_MAPPABLE OR REGISTRY_CAP_SCATTERED, cap_present = True\<rparr>)"

definition mem_ops :: "mem_store store_ops" where
  "mem_ops = \<lparr>op_init = (\<lambda>g. None), op_stageBegin = (\<lambda>g. Some (mem_StageBegin g)), op_stageWrite = mem_StageWrite,
     op_stageEnd = mem_StageEnd, op_stageAbort = mem_StageAbort, op_blobMap = mem_BlobMap,
     op_blobUnmap = mem_BlobUnmap, op_blobHas = (\<lambda>g d. Some (mem_BlobHas g d)), op_blobDrop = mem_BlobDrop,
     op_blobList = (\<lambda>g mx. Some (mem_BlobList g mx)), op_recPut = (\<lambda>g k r. Some (mem_RecPut g k r)),
     op_recGet = (\<lambda>g k c. Some (mem_RecGet g k c)), op_recDel = (\<lambda>g k. Some (mem_RecDel g k)),
     op_recList = (\<lambda>g mx. Some (mem_RecList g mx)), op_capacity = (\<lambda>g. Some (mem_Capacity g))\<rparr>"

definition RegistryMemReset :: "mem_store \<Rightarrow> mem_store" where
  "RegistryMemReset g = g\<lparr>ms_blobs := replicate (length (ms_blobs g)) blob_zero,
     ms_recs := replicate (length (ms_recs g)) rec_zero, ms_usedBytes := 0, ms_limit := 0, ms_failList := False\<rparr>"

definition RegistryMemSetLimit :: "nat \<Rightarrow> mem_store \<Rightarrow> mem_store" where
  "RegistryMemSetLimit bytes g = g\<lparr>ms_limit := bytes\<rparr>"

definition RegistryMemFailList :: "bool \<Rightarrow> mem_store \<Rightarrow> mem_store" where
  "RegistryMemFailList fail g = g\<lparr>ms_failList := fail\<rparr>"

text \<open>The store before its first use.\<close>

definition mem_empty :: mem_store where
  "mem_empty = \<lparr>ms_blobs = replicate MEM_MAX_BLOBS blob_zero, ms_recs = replicate MAX_RECS rec_zero,
     ms_usedBytes = 0, ms_limit = 0, ms_failList = False, ms_stages = Map.empty, ms_next = 1, ms_mallocs = []\<rparr>"

section \<open>The store keeps the contract\<close>

definition mem_ok :: "mem_store \<Rightarrow> bool" where
  "mem_ok g \<longleftrightarrow> tab_uniq b_used b_digest (ms_blobs g) \<and> tab_uniq r_used r_key (ms_recs g) \<and>
     (\<forall>r \<in> set (ms_recs g). r_used r \<longrightarrow> key_ok (r_key r))"

definition mem_view :: "mem_store \<Rightarrow> store_view" where
  "mem_view g = \<lparr>v_blobs = tab_map b_used b_digest b_data (ms_blobs g),
     v_stages = (\<lambda>h. map_option st_data (ms_stages g h)),
     v_recs = tab_map r_used r_key r_data (ms_recs g)\<rparr>"

definition mem_mapped :: "mem_store \<Rightarrow> registry_blob_map \<Rightarrow> digest option" where
  "mem_mapped g m =
     (if bm_handle m < length (ms_blobs g) \<and>
         (let b = ms_blobs g ! bm_handle m in
          b_used b \<and> b_maps b > 0 \<and> b_addr b = bm_ptr m \<and> length (b_data b) = bm_len m)
      then Some (b_digest (ms_blobs g ! bm_handle m)) else None)"

lemma mem_malloc_frame:
  "mem_malloc g = (a, g') \<Longrightarrow> ms_blobs g' = ms_blobs g \<and> ms_recs g' = ms_recs g \<and> ms_stages g' = ms_stages g \<and>
     ms_limit g' = ms_limit g \<and> ms_usedBytes g' = ms_usedBytes g \<and> ms_failList g' = ms_failList g"
  by (auto simp: mem_malloc_def split: list.splits bool.splits if_splits)

text \<open>An operation that keeps blobs and records can only have changed the stages.\<close>

lemma mem_frame:
  assumes "ms_blobs g' = ms_blobs g" "ms_recs g' = ms_recs g"
  shows "mem_ok g' = mem_ok g" "mem_mapped g' = mem_mapped g"
    "mem_view g' = (mem_view g)\<lparr>v_stages := (\<lambda>h. map_option st_data (ms_stages g' h))\<rparr>"
  using assms by (auto simp: mem_ok_def mem_mapped_def mem_view_def fun_eq_iff)

lemma mem_view_simps:
  "v_blobs (mem_view g) = tab_map b_used b_digest b_data (ms_blobs g)"
  "v_stages (mem_view g) h = map_option st_data (ms_stages g h)"
  "v_recs (mem_view g) = tab_map r_used r_key r_data (ms_recs g)"
  by (simp_all add: mem_view_def)

lemma mem_stages_upd:
  "(\<lambda>h. map_option st_data (((ms_stages g)(a \<mapsto> st)) h)) = (v_stages (mem_view g))(a \<mapsto> st_data st)"
  "(\<lambda>h. map_option st_data (((ms_stages g)(a := None)) h)) = (v_stages (mem_view g))(a := None)"
  by (auto simp: mem_view_def)

lemma findBlob_Some: "findBlob g d = Some i \<Longrightarrow> i < length (ms_blobs g) \<and> b_used (ms_blobs g ! i) \<and> b_digest (ms_blobs g ! i) = d"
  by (auto simp: findBlob_def dest: find_idx_SomeD)

lemma findBlob_view: "v_blobs (mem_view g) d = map_option (\<lambda>i. b_data (ms_blobs g ! i)) (findBlob g d)"
  by (simp add: mem_view_def tab_map_def findBlob_def)

lemma findRec_view:
  assumes "mem_ok g" "key_ok k"
  shows "v_recs (mem_view g) k = map_option (\<lambda>i. r_data (ms_recs g ! i)) (findRec g k)"
proof -
  have "(r_used r \<and> strncmp REGISTRY_KEY_NAME_LEN (k_name (r_key r)) (k_name k) = 0 \<and>
      strncmp REGISTRY_KEY_NAME_LEN (k_version (r_key r)) (k_version k) = 0) = (r_used r \<and> r_key r = k)"
    if "r \<in> set (ms_recs g)" for r
  proof -
    have "r_used r \<longrightarrow> key_ok (r_key r)" using assms(1) that by (simp add: mem_ok_def)
    then show ?thesis by (cases "r_key r"; cases k) (auto simp: key_ok_def strncmp_buf_eq)
  qed
  then have "findRec g k = find_idx (\<lambda>r. r_used r \<and> r_key r = k) (ms_recs g)"
    unfolding findRec_def by (intro find_idx_set_cong) auto
  then show ?thesis by (simp add: mem_view_def tab_map_def)
qed

lemma findRec_Some:
  assumes "mem_ok g" "key_ok k" "findRec g k = Some i"
  shows "i < length (ms_recs g) \<and> r_used (ms_recs g ! i) \<and> r_key (ms_recs g ! i) = k"
proof -
  have i: "i < length (ms_recs g)" "r_used (ms_recs g ! i)"
    "strncmp REGISTRY_KEY_NAME_LEN (k_name (r_key (ms_recs g ! i))) (k_name k) = 0"
    "strncmp REGISTRY_KEY_NAME_LEN (k_version (r_key (ms_recs g ! i))) (k_version k) = 0"
    using find_idx_SomeD[OF assms(3)[unfolded findRec_def]] by auto
  moreover have "key_ok (r_key (ms_recs g ! i))" using assms(1) i by (simp add: mem_ok_def)
  ultimately show ?thesis
    by (cases "r_key (ms_recs g ! i)"; cases k) (auto simp: key_ok_def strncmp_buf_eq)
qed

lemma mem_stageBegin_law:
  assumes "mem_ok g" "mem_StageBegin g = (rb, g')"
  shows "mem_ok g' \<and> mem_mapped g' = mem_mapped g \<and>
    (case rb of Inl e \<Rightarrow> mem_view g' = mem_view g
     | Inr h \<Rightarrow> mem_view g' = (mem_view g)\<lparr>v_stages := (v_stages (mem_view g))(h \<mapsto> [])\<rparr>)"
proof -
  obtain a g1 where m: "mem_malloc g = (a, g1)" by fastforce
  note f = mem_malloc_frame[OF m]
  have g': "ms_blobs g' = ms_blobs g" "ms_recs g' = ms_recs g"
    using assms(2) m f by (auto simp: mem_StageBegin_def split: option.splits)
  show ?thesis using assms(2) m f assms(1) mem_frame[OF g']
    by (auto simp: mem_StageBegin_def mem_stages_upd split: option.splits) (simp_all add: mem_view_def fun_eq_iff)
qed

lemma mem_stageWrite_law:
  assumes "mem_ok g" "v_stages (mem_view g) h = Some data" "mem_StageWrite g h buf = (rw, g')"
  shows "mem_ok g' \<and> mem_mapped g' = mem_mapped g \<and>
    (case rw of Inl e \<Rightarrow> mem_view g' = mem_view g
     | Inr w \<Rightarrow> w = length buf \<and> mem_view g' = (mem_view g)\<lparr>v_stages := (v_stages (mem_view g))(h \<mapsto> data @ buf)\<rparr>)"
proof -
  obtain st where st: "ms_stages g h = Some st" "st_data st = data" using assms(2) by (auto simp: mem_view_def)
  obtain a g1 where m: "mem_malloc g = (a, g1)" by fastforce
  note f = mem_malloc_frame[OF m]
  have g': "ms_blobs g' = ms_blobs g" "ms_recs g' = ms_recs g"
    using assms(3) m f st by (auto simp: mem_StageWrite_def Let_def split: option.splits if_splits)
  show ?thesis using assms(3) m f st assms(1) mem_frame[OF g']
    by (auto simp: mem_StageWrite_def Let_def mem_stages_upd split: option.splits if_splits) (simp_all add: mem_view_def fun_eq_iff)
qed

lemma mem_mapped_Some:
  "mem_mapped g m = Some d \<longleftrightarrow> bm_handle m < length (ms_blobs g) \<and> b_used (ms_blobs g ! bm_handle m) \<and>
     b_maps (ms_blobs g ! bm_handle m) > 0 \<and> b_addr (ms_blobs g ! bm_handle m) = bm_ptr m \<and>
     length (b_data (ms_blobs g ! bm_handle m)) = bm_len m \<and> b_digest (ms_blobs g ! bm_handle m) = d"
  by (auto simp: mem_mapped_def Let_def)

lemma mem_mapped_upd:
  assumes "\<not> b_used (ms_blobs g ! i) \<or> b_maps (ms_blobs g ! i) = 0" "ms_blobs g' = (ms_blobs g)[i := b]"
  shows "mem_mapped g \<subseteq>\<^sub>m mem_mapped g'"
proof (rule map_leI)
  fix m d assume m: "mem_mapped g m = Some d"
  then have "bm_handle m \<noteq> i" using assms(1) by (auto simp: mem_mapped_Some)
  then show "mem_mapped g' m = Some d" using m assms(2) by (simp add: mem_mapped_Some)
qed

lemma stageFree_frame:
  "mem_ok (stageFree g h) = mem_ok g" "mem_mapped (stageFree g h) = mem_mapped g"
  "mem_view (stageFree g h) = (mem_view g)\<lparr>v_stages := (v_stages (mem_view g))(h := None)\<rparr>"
  by (auto simp: mem_ok_def mem_mapped_def mem_view_def stageFree_def fun_eq_iff)

lemma mem_stageEnd_law:
  assumes "mem_ok g" "v_stages (mem_view g) h = Some data" "mem_StageEnd g h d n = (r, g')"
  shows "mem_ok g' \<and> mem_mapped g \<subseteq>\<^sub>m mem_mapped g' \<and>
    mem_view g' = (mem_view g)\<lparr>v_stages := (v_stages (mem_view g))(h := None),
      v_blobs := (case r of Inr u \<Rightarrow> keep_blob d data (v_blobs (mem_view g)) | Inl e \<Rightarrow> v_blobs (mem_view g))\<rparr>"
proof -
  obtain st where st: "ms_stages g h = Some st" "st_data st = data" using assms(2) by (auto simp: mem_view_def)
  show ?thesis
  proof (cases "findBlob g d")
    case (Some j)
    then have "v_blobs (mem_view g) d \<noteq> None" by (simp add: findBlob_view)
    then have "keep_blob d data (v_blobs (mem_view g)) = v_blobs (mem_view g)" by (auto simp: keep_blob_def)
    then show ?thesis using assms(1,3) st Some by (auto simp: mem_StageEnd_def stageFree_frame)
  next
    case None
    then have k: "keep_blob d data (v_blobs (mem_view g)) = (v_blobs (mem_view g))(d \<mapsto> data)"
      by (simp add: keep_blob_def findBlob_view)
    show ?thesis
    proof (cases "find_idx (\<lambda>b. \<not> b_used b) (ms_blobs g)")
      case None
      then show ?thesis using assms(1,3) st \<open>findBlob g d = None\<close> by (auto simp: mem_StageEnd_def stageFree_frame)
    next
      case (Some i)
      define b where "b = \<lparr>b_used = True, b_digest = d, b_addr = st_addr st, b_data = data, b_maps = 0\<rparr>"
      define g1 where "g1 = g\<lparr>ms_blobs := (ms_blobs g)[i := b], ms_usedBytes := ms_usedBytes g + length data\<rparr>"
      have i: "i < length (ms_blobs g)" "\<not> b_used (ms_blobs g ! i)" using find_idx_SomeD[OF Some] by auto
      have g': "g' = stageFree g1 h" "r = Inr ()"
        using assms(3) st Some \<open>findBlob g d = None\<close>
        by (auto simp: mem_StageEnd_def g1_def b_def stageFree_def)
      have new: "\<forall>j < length (ms_blobs g). j \<noteq> i \<and> b_used (ms_blobs g ! j) \<longrightarrow> b_digest (ms_blobs g ! j) \<noteq> b_digest b"
        using \<open>findBlob g d = None\<close> by (auto simp: findBlob_def find_idx_None b_def)
      have u: "tab_uniq b_used b_digest (ms_blobs g)" "b_used b" "b_used (ms_blobs g ! i) \<longrightarrow> b_digest (ms_blobs g ! i) = b_digest b"
        using assms(1) i by (auto simp: mem_ok_def b_def)
      note t = tab_set[OF u(1) i(1) u(2,3) new]
      have "mem_ok g1" using assms(1) t(1) by (simp add: mem_ok_def g1_def)
      moreover have "mem_mapped g \<subseteq>\<^sub>m mem_mapped g1" using i by (intro mem_mapped_upd[of g i]) (auto simp: g1_def)
      moreover have "mem_view g1 = (mem_view g)\<lparr>v_blobs := (v_blobs (mem_view g))(d \<mapsto> data)\<rparr>"
        by (simp add: mem_view_def g1_def t(2)) (simp add: b_def)
      ultimately show ?thesis by (simp add: g' stageFree_frame k)
    qed
  qed
qed

lemma mem_maps_upd:
  assumes "ms_recs g' = ms_recs g" "ms_stages g' = ms_stages g" "ms_blobs g' = upd_nth i f (ms_blobs g)"
    "\<And>b. b_used (f b) = b_used b \<and> b_digest (f b) = b_digest b \<and> b_data (f b) = b_data b \<and> b_addr (f b) = b_addr b"
  shows "mem_ok g' = mem_ok g" "mem_view g' = mem_view g"
  using assms tab_same[of b_used f "ms_blobs g" i b_digest b_data]
  by (simp_all add: mem_ok_def mem_view_def)

lemma mem_blobMap_law:
  assumes "mem_ok g" "mem_BlobMap g d n = (rm, g')"
  shows "mem_ok g' \<and> mem_view g' = mem_view g \<and> mem_mapped g \<subseteq>\<^sub>m mem_mapped g' \<and>
    (case rm of Inl e \<Rightarrow> True
     | Inr m \<Rightarrow> mem_mapped g' m = Some d \<and> map_option length (v_blobs (mem_view g) d) = Some (bm_len m))"
proof (cases "findBlob g d")
  case None
  then show ?thesis using assms by (auto simp: mem_BlobMap_def)
next
  case (Some i)
  note i = findBlob_Some[OF Some]
  have g': "ms_blobs g' = upd_nth i (b_maps_update (\<lambda>m. m + 1)) (ms_blobs g)" "ms_recs g' = ms_recs g" "ms_stages g' = ms_stages g"
    and rm: "rm = Inr \<lparr>bm_ptr = b_addr (ms_blobs g ! i), bm_len = length (b_data (ms_blobs g ! i)), bm_handle = i\<rparr>"
    using assms(2) Some by (auto simp: mem_BlobMap_def Let_def)
  have "mem_mapped g \<subseteq>\<^sub>m mem_mapped g'"
    by (rule map_leI) (auto simp: mem_mapped_Some g'(1) nth_upd_nth)
  moreover have "mem_mapped g' \<lparr>bm_ptr = b_addr (ms_blobs g ! i), bm_len = length (b_data (ms_blobs g ! i)), bm_handle = i\<rparr> = Some d"
    using i by (simp add: mem_mapped_def g'(1) nth_upd_nth)
  ultimately show ?thesis using mem_maps_upd[OF g'(2,3,1)] assms(1) Some by (simp add: rm findBlob_view)
qed

lemma mem_blobUnmap_law:
  assumes "mem_ok g" "mem_mapped g m = Some d"
  shows "mem_ok (mem_BlobUnmap g m) \<and> mem_view (mem_BlobUnmap g m) = mem_view g \<and>
    (\<forall>m'. m' \<noteq> m \<longrightarrow> mem_mapped (mem_BlobUnmap g m) m' = mem_mapped g m')"
proof -
  let ?f = "\<lambda>b. if b_maps b > 0 then b\<lparr>b_maps := b_maps b - 1\<rparr> else b"
  have "mem_ok (mem_BlobUnmap g m) = mem_ok g" "mem_view (mem_BlobUnmap g m) = mem_view g"
    by (rule mem_maps_upd[of _ g "bm_handle m" ?f]; simp add: mem_BlobUnmap_def)+
  moreover have "mem_mapped (mem_BlobUnmap g m) m' = mem_mapped g m'" if "m' \<noteq> m" for m'
  proof (cases "bm_handle m' = bm_handle m")
    case True
    have "\<not> (b_addr (ms_blobs g ! bm_handle m) = bm_ptr m' \<and> length (b_data (ms_blobs g ! bm_handle m)) = bm_len m')"
      using that True assms(2) by (cases m; cases m') (auto simp: mem_mapped_Some)
    then show ?thesis using True assms(2) by (auto simp: mem_mapped_def mem_BlobUnmap_def nth_upd_nth Let_def)
  next
    case False
    then show ?thesis by (simp add: mem_mapped_def mem_BlobUnmap_def nth_upd_nth Let_def)
  qed
  ultimately show ?thesis using assms(1) by simp
qed

lemma mem_blobDrop_law:
  assumes "mem_ok g" "mem_BlobDrop g d = (r, g')"
  shows "mem_ok g' \<and> mem_mapped g \<subseteq>\<^sub>m mem_mapped g' \<and>
    mem_view g' = (mem_view g)\<lparr>v_blobs := (case r of Inr u \<Rightarrow> (v_blobs (mem_view g))(d := None) | Inl e \<Rightarrow> v_blobs (mem_view g))\<rparr>"
proof (cases "findBlob g d")
  case None
  then show ?thesis using assms by (auto simp: mem_BlobDrop_def)
next
  case (Some i)
  note i = findBlob_Some[OF Some]
  show ?thesis
  proof (cases "b_maps (ms_blobs g ! i) > 0")
    case True
    then show ?thesis using assms Some by (auto simp: mem_BlobDrop_def)
  next
    case False
    have g': "ms_blobs g' = (ms_blobs g)[i := blob_zero]" "ms_recs g' = ms_recs g" "ms_stages g' = ms_stages g" "r = Inr ()"
      using assms(2) Some False by (auto simp: mem_BlobDrop_def)
    have u: "tab_uniq b_used b_digest (ms_blobs g)" "\<not> b_used blob_zero" using assms(1) by (auto simp: mem_ok_def blob_zero_def)
    have "mem_mapped g \<subseteq>\<^sub>m mem_mapped g'" using False g'(1) by (intro mem_mapped_upd[of g i]) auto
    then show ?thesis using tab_clear[OF u(1) _ u(2)] i assms(1) g' by (auto simp: mem_ok_def mem_view_def)
  qed
qed

lemma mem_recPut_law:
  assumes "mem_ok g" "key_ok k" "mem_RecPut g k rec = (r, g')"
  shows "mem_ok g' \<and> mem_mapped g' = mem_mapped g \<and>
    mem_view g' = (mem_view g)\<lparr>v_recs := (case r of Inr u \<Rightarrow> (v_recs (mem_view g))(k \<mapsto> rec) | Inl e \<Rightarrow> v_recs (mem_view g))\<rparr>"
proof -
  define slot where "slot = (case findRec g k of Some i \<Rightarrow> Some i | None \<Rightarrow> find_idx (\<lambda>r. \<not> r_used r) (ms_recs g))"
  obtain a g1 where m: "mem_malloc g = (a, g1)" by fastforce
  note f = mem_malloc_frame[OF m]
  have frame: "mem_ok g1 = mem_ok g" "mem_mapped g1 = mem_mapped g" "mem_view g1 = mem_view g"
    using f by (auto simp: mem_ok_def mem_mapped_def mem_view_def)
  show ?thesis
  proof (cases slot)
    case None
    then have "r = Inl ENOSPC" "g' = g" using assms(3) by (auto simp: mem_RecPut_def slot_def)
    then show ?thesis using assms(1) by simp
  next
    case (Some i)
    define x where "x = \<lparr>r_used = True, r_key = k, r_data = rec\<rparr>"
    have i: "i < length (ms_recs g)" "r_used (ms_recs g ! i) \<longrightarrow> r_key (ms_recs g ! i) = r_key x"
      using Some findRec_Some[OF assms(1,2), of i] find_idx_SomeD[of _ "ms_recs g" i]
      by (auto simp: slot_def x_def split: option.splits)
    have new: "\<forall>j < length (ms_recs g). j \<noteq> i \<and> r_used (ms_recs g ! j) \<longrightarrow> r_key (ms_recs g ! j) \<noteq> r_key x"
    proof (cases "findRec g k")
      case None
      then have "v_recs (mem_view g) k = None" using findRec_view[OF assms(1,2)] by simp
      then show ?thesis by (auto simp: mem_view_def tab_map_None x_def)
    next
      case (Some j)
      then have "j = i" using \<open>slot = Some i\<close> by (simp add: slot_def)
      then show ?thesis using findRec_Some[OF assms(1,2) Some] assms(1) by (auto simp: mem_ok_def tab_uniq_def x_def)
    qed
    have u: "tab_uniq r_used r_key (ms_recs g)" "r_used x" using assms(1) by (auto simp: mem_ok_def x_def)
    note t = tab_set[OF u(1) i(1) u(2) i(2) new]
    show ?thesis
    proof (cases a)
      case None
      then have "r = Inl ENOMEM" "g' = g1" using assms(3) m Some by (auto simp: mem_RecPut_def slot_def[symmetric])
      then show ?thesis using assms(1) frame by simp
    next
      case (Some ad)
      then have g': "r = Inr ()" "g' = g1\<lparr>ms_recs := (ms_recs g)[i := x]\<rparr>"
        using assms(3) m \<open>slot = Some i\<close> f by (auto simp: mem_RecPut_def slot_def[symmetric] x_def)
      have "\<forall>q \<in> set ((ms_recs g)[i := x]). r_used q \<longrightarrow> key_ok (r_key q)"
        using assms(1,2) set_update_subset_insert[of "ms_recs g" i x] by (auto simp: mem_ok_def x_def)
      then have "mem_ok g'" using t(1) assms(1) f by (simp add: mem_ok_def g')
      moreover have "mem_view g' = (mem_view g)\<lparr>v_recs := (v_recs (mem_view g))(k \<mapsto> rec)\<rparr>"
        using t(2)[of r_data] f by (simp add: mem_view_def g' x_def)
      ultimately show ?thesis using f by (simp add: g' mem_mapped_def fun_eq_iff)
    qed
  qed
qed

lemma mem_recDel_law:
  assumes "mem_ok g" "key_ok k" "mem_RecDel g k = (r, g')"
  shows "mem_ok g' \<and> mem_mapped g' = mem_mapped g \<and>
    mem_view g' = (mem_view g)\<lparr>v_recs := (case r of Inr u \<Rightarrow> (v_recs (mem_view g))(k := None) | Inl e \<Rightarrow> v_recs (mem_view g))\<rparr>"
proof (cases "findRec g k")
  case None
  then show ?thesis using assms by (auto simp: mem_RecDel_def)
next
  case (Some i)
  note i = findRec_Some[OF assms(1,2) Some]
  have g': "g' = g\<lparr>ms_recs := (ms_recs g)[i := rec_zero]\<rparr>" "r = Inr ()" using assms(3) Some by (auto simp: mem_RecDel_def)
  have u: "tab_uniq r_used r_key (ms_recs g)" "\<not> r_used rec_zero" using assms(1) by (auto simp: mem_ok_def rec_zero_def)
  have "\<forall>q \<in> set ((ms_recs g)[i := rec_zero]). r_used q \<longrightarrow> key_ok (r_key q)"
    using assms(1) set_update_subset_insert[of "ms_recs g" i rec_zero] by (auto simp: mem_ok_def rec_zero_def)
  then show ?thesis using tab_clear[OF u(1) _ u(2)] i assms(1)
    by (auto simp: g' mem_ok_def mem_view_def mem_mapped_def)
qed

lemma mem_recList_law:
  assumes "mem_ok g" "mem_RecList g mx = Inr (n, ks)"
  shows "n = card (dom (v_recs (mem_view g))) \<and> finite (dom (v_recs (mem_view g))) \<and> distinct ks \<and>
    length ks = min n mx \<and> set ks \<subseteq> dom (v_recs (mem_view g))"
proof -
  define l where "l = map r_key (filter r_used (ms_recs g))"
  have l: "distinct l" "dom (v_recs (mem_view g)) = set l"
    using assms(1) by (auto simp: mem_ok_def l_def mem_view_def tab_dom intro: tab_uniq_distinct)
  have "n = length l" "ks = take mx l" using assms(2) by (auto simp: mem_RecList_def Let_def l_def split: if_splits)
  then show ?thesis using l by (auto simp: distinct_card dest: in_set_takeD)
qed

interpretation mem: registry_store mem_ops mem_ok mem_ok mem_view mem_mapped
proof (unfold_locales, goal_cases)
  case (4 s rb s')
  then show ?case using mem_stageBegin_law[of s rb s'] by (simp add: mem_ops_def)
next
  case (5 s h data buf rw s')
  then have "mem_StageWrite s h buf = (rw, s')" by (simp add: mem_ops_def)
  from mem_stageWrite_law[OF 5(1,2) this] show ?case
    using 5(2) by (cases rw) (auto simp: fun_upd_idem intro!: exI[of _ data])
next
  case (6 s h data d r s')
  then show ?case using mem_stageEnd_law[of s h data d "length data" r s'] by (simp add: mem_ops_def)
next
  case (7 s h data s')
  then show ?case by (auto simp: mem_ops_def mem_StageAbort_def stageFree_frame)
next
  case (8 s d n rm s')
  then show ?case using mem_blobMap_law[of s d n rm s'] by (simp add: mem_ops_def)
next
  case (9 s m d s')
  then show ?case using mem_blobUnmap_law[of s m d] by (auto simp: mem_ops_def)
next
  case (10 s d b)
  then show ?case by (auto simp: mem_ops_def mem_BlobHas_def findBlob_view)
next
  case (11 s d r s')
  then have "mem_BlobDrop s d = (r, s')" by (simp add: mem_ops_def)
  from mem_blobDrop_law[OF 11(1) this] show ?case by (auto simp: map_le_def dom_def)
next
  case (12 s k rec r s')
  then show ?case using mem_recPut_law[of s k rec r s'] by (simp add: mem_ops_def)
next
  case (13 s k cap rg)
  then show ?case using findRec_view[of s k] by (auto simp: mem_ops_def mem_RecGet_def split: option.splits if_splits)
next
  case (14 s k r s')
  then show ?case using mem_recDel_law[of s k r s'] by (simp add: mem_ops_def)
next
  case (15 s mx n ks)
  then show ?case using mem_recList_law[of s mx n ks] by (simp add: mem_ops_def)
next
  case (16 s k rec)
  then show ?case by (auto simp: mem_ok_def mem_view_def tab_map_def dest: find_idx_SomeD)
qed (simp_all add: mem_ops_def)

lemma mem_empty_ok: "mem_ok mem_empty"
  by (simp add: mem_ok_def mem_empty_def tab_uniq_def blob_zero_def rec_zero_def)

end
