(* ===== verification/Sha256.thy ===== *)
theory Sha256
  imports CBase "HOL-Library.Monad_Syntax"
begin

text \<open>
  The software SHA-256 of the platforms without a digest peripheral (\<open>platform/posix/sha256.c\<close>): the
  block function, the streaming context and its padding, against the one-shot definition of the
  standard.  The context's \<open>uint32_t\<close> and \<open>uint64_t\<close> fields are words, so every sum wraps as in C.
\<close>

section \<open>Model\<close>

definition SHA256_BLOCK_LEN :: nat where "SHA256_BLOCK_LEN = 64"

record sha256 =
  h_state :: "u32 list"
  h_bitlen :: u64
  h_block :: "byte list"
  h_blocklen :: nat

definition sha256_K :: "u32 list" where
  "sha256_K = [
    0x428a2f98, 0x71374491, 0xb5c0fbcf, 0xe9b5dba5, 0x3956c25b, 0x59f111f1,
    0x923f82a4, 0xab1c5ed5, 0xd807aa98, 0x12835b01, 0x243185be, 0x550c7dc3,
    0x72be5d74, 0x80deb1fe, 0x9bdc06a7, 0xc19bf174, 0xe49b69c1, 0xefbe4786,
    0x0fc19dc6, 0x240ca1cc, 0x2de92c6f, 0x4a7484aa, 0x5cb0a9dc, 0x76f988da,
    0x983e5152, 0xa831c66d, 0xb00327c8, 0xbf597fc7, 0xc6e00bf3, 0xd5a79147,
    0x06ca6351, 0x14292967, 0x27b70a85, 0x2e1b2138, 0x4d2c6dfc, 0x53380d13,
    0x650a7354, 0x766a0abb, 0x81c2c92e, 0x92722c85, 0xa2bfe8a1, 0xa81a664b,
    0xc24b8b70, 0xc76c51a3, 0xd192e819, 0xd6990624, 0xf40e3585, 0x106aa070,
    0x19a4c116, 0x1e376c08, 0x2748774c, 0x34b0bcb5, 0x391c0cb3, 0x4ed8aa4a,
    0x5b9cca4f, 0x682e6ff3, 0x748f82ee, 0x78a5636f, 0x84c87814, 0x8cc70208,
    0x90befffa, 0xa4506ceb, 0xbef9a3f7, 0xc67178f2]"

definition rotr :: "u32 \<Rightarrow> nat \<Rightarrow> u32" where
  "rotr x n = drop_bit n x OR push_bit (32 - n) x"

definition be32 :: "byte list \<Rightarrow> nat \<Rightarrow> u32" where
  "be32 block i = push_bit 24 (ucast (block ! (i * 4))) OR push_bit 16 (ucast (block ! (i * 4 + 1))) OR
     push_bit 8 (ucast (block ! (i * 4 + 2))) OR ucast (block ! (i * 4 + 3))"

definition sched_next :: "u32 list \<Rightarrow> u32" where
  "sched_next w =
     (let i = length w;
          s0 = rotr (w ! (i - 15)) 7 XOR rotr (w ! (i - 15)) 18 XOR drop_bit 3 (w ! (i - 15));
          s1 = rotr (w ! (i - 2)) 17 XOR rotr (w ! (i - 2)) 19 XOR drop_bit 10 (w ! (i - 2)) in
      w ! (i - 16) + s0 + w ! (i - 7) + s1)"

definition sha256_schedule :: "byte list \<Rightarrow> u32 list" where
  "sha256_schedule block = ((\<lambda>w. w @ [sched_next w]) ^^ 48) (map (be32 block) [0..<16])"

definition sha256_round :: "u32 list \<Rightarrow> u32 \<times> u32 \<Rightarrow> u32 list" where
  "sha256_round v kw =
     (let s1 = rotr (v ! 4) 6 XOR rotr (v ! 4) 11 XOR rotr (v ! 4) 25;
          ch = (v ! 4 AND v ! 5) XOR (NOT (v ! 4) AND v ! 6);
          t1 = v ! 7 + s1 + ch + fst kw + snd kw;
          s0 = rotr (v ! 0) 2 XOR rotr (v ! 0) 13 XOR rotr (v ! 0) 22;
          maj = (v ! 0 AND v ! 1) XOR (v ! 0 AND v ! 2) XOR (v ! 1 AND v ! 2);
          t2 = s0 + maj in
      [t1 + t2, v ! 0, v ! 1, v ! 2, v ! 3 + t1, v ! 4, v ! 5, v ! 6])"

definition sha256Compress :: "u32 list \<Rightarrow> byte list \<Rightarrow> u32 list" where
  "sha256Compress st block =
     map2 (+) st (foldl sha256_round st (zip sha256_K (sha256_schedule block)))"

definition sha256_H0 :: "u32 list" where
  "sha256_H0 = [0x6a09e667, 0xbb67ae85, 0x3c6ef372, 0xa54ff53a, 0x510e527f, 0x9b05688c, 0x1f83d9ab, 0x5be0cd19]"

text \<open>The fresh context; the block is what the allocation held before.\<close>

definition PlatformSha256New :: "byte list \<Rightarrow> sha256" where
  "PlatformSha256New mem = \<lparr>h_state = sha256_H0, h_bitlen = 0, h_block = mem, h_blocklen = 0\<rparr>"

text \<open>
  The loop of \<open>PlatformSha256Update\<close>; it would not end on a context whose block is already full, which
  the value \<open>None\<close> stands for.
\<close>

partial_function (option) sha256_update_loop :: "sha256 \<Rightarrow> byte list \<Rightarrow> sha256 option" where
  "sha256_update_loop s data =
     (if data = [] then Some s
      else
        let tk = min (SHA256_BLOCK_LEN - h_blocklen s) (length data);
            s1 = s\<lparr>h_block := memcpy_at (h_block s) (h_blocklen s) data tk, h_blocklen := h_blocklen s + tk\<rparr>;
            s2 = (if h_blocklen s1 = SHA256_BLOCK_LEN
                  then s1\<lparr>h_state := sha256Compress (h_state s1) (h_block s1), h_blocklen := 0\<rparr> else s1) in
        sha256_update_loop s2 (drop tk data))"

definition PlatformSha256Update :: "sha256 \<Rightarrow> byte list \<Rightarrow> sha256 option" where
  "PlatformSha256Update s data =
     sha256_update_loop (s\<lparr>h_bitlen := h_bitlen s + of_nat (length data) * 8\<rparr>) data"

definition put_be32 :: "u32 \<Rightarrow> byte list" where
  "put_be32 v = [ucast (drop_bit 24 v), ucast (drop_bit 16 v), ucast (drop_bit 8 v), ucast v]"

text \<open>The eight length bytes, the most significant first.\<close>

definition put_be64 :: "u64 \<Rightarrow> byte list" where
  "put_be64 v = map (\<lambda>i. ucast (drop_bit (8 * (7 - i)) v)) [0..<8]"

definition PlatformSha256Final :: "sha256 \<Rightarrow> byte list" where
  "PlatformSha256Final s =
     (let b1 = (h_block s)[h_blocklen s := 0x80]; n1 = h_blocklen s + 1;
          (st, b2, n2) =
            (if n1 > SHA256_BLOCK_LEN - 8
             then let b = memcpy_at b1 n1 (replicate (SHA256_BLOCK_LEN - n1) 0) (SHA256_BLOCK_LEN - n1) in
                  (sha256Compress (h_state s) b, b, 0)
             else (h_state s, b1, n1));
          b3 = memcpy_at b2 n2 (replicate (SHA256_BLOCK_LEN - 8 - n2) 0) (SHA256_BLOCK_LEN - 8 - n2);
          b4 = memcpy_at b3 (SHA256_BLOCK_LEN - 8) (put_be64 (h_bitlen s)) 8 in
      concat (map put_be32 (sha256Compress st b4)))"

text \<open>A whole digest: context, updates, final.\<close>

fun sha256_updates :: "sha256 \<Rightarrow> byte list list \<Rightarrow> sha256 option" where
  "sha256_updates s [] = Some s"
| "sha256_updates s (c # cs) = (case PlatformSha256Update s c of None \<Rightarrow> None | Some s' \<Rightarrow> sha256_updates s' cs)"

definition sha256_of :: "byte list \<Rightarrow> byte list" where
  "sha256_of data =
     (case PlatformSha256Update (PlatformSha256New (replicate SHA256_BLOCK_LEN 0)) data of
        None \<Rightarrow> [] | Some s \<Rightarrow> PlatformSha256Final s)"

section \<open>The standard\<close>

text \<open>The state after the whole blocks of a message.\<close>

function absorb :: "u32 list \<Rightarrow> byte list \<Rightarrow> u32 list" where
  "absorb st xs = (if length xs < 64 then st else absorb (sha256Compress st (take 64 xs)) (drop 64 xs))"
  by pat_completeness auto
termination by (relation "measure (\<lambda>(st, xs). length xs)") auto

declare absorb.simps [simp del]

text \<open>A one bit, zeros up to eight bytes short of a block, and the length in bits.\<close>

definition sha256_pad :: "byte list \<Rightarrow> byte list" where
  "sha256_pad msg = msg @ [0x80] @ replicate ((119 - length msg mod 64) mod 64) 0 @ put_be64 (of_nat (8 * length msg))"

definition sha256_spec :: "byte list \<Rightarrow> byte list" where
  "sha256_spec msg = concat (map put_be32 (absorb sha256_H0 (sha256_pad msg)))"

lemma absorb_short: "length xs < 64 \<Longrightarrow> absorb st xs = st"
  by (simp add: absorb.simps)

lemma absorb_block: "length b = 64 \<Longrightarrow> absorb st (b @ xs) = absorb (sha256Compress st b) xs"
  by (subst absorb.simps) simp

lemma absorb_append: "64 dvd length xs \<Longrightarrow> absorb st (xs @ ys) = absorb (absorb st xs) ys"
proof (induction st xs rule: absorb.induct)
  case (1 st xs)
  show ?case
  proof (cases "length xs < 64")
    case True
    then have "xs = []" using "1.prems" by (metis dvd_imp_le length_greater_0_conv not_le)
    then show ?thesis by (simp add: absorb_short)
  next
    case False
    then have d: "64 dvd length (drop 64 xs)" using "1.prems" by (simp add: dvd_minus_self)
    have "absorb st (xs @ ys) = absorb st (take 64 xs @ drop 64 xs @ ys)"
      by (metis append.assoc append_take_drop_id)
    also have "\<dots> = absorb (sha256Compress st (take 64 xs)) (drop 64 xs @ ys)" using False by (intro absorb_block) simp
    also have "\<dots> = absorb (absorb (sha256Compress st (take 64 xs)) (drop 64 xs)) ys" by (rule "1.IH"[OF False d])
    also have "absorb (sha256Compress st (take 64 xs)) (drop 64 xs) = absorb st xs"
      using False by (subst (2) absorb.simps) simp
    finally show ?thesis .
  qed
qed

text \<open>The context holds the message so far: whole blocks absorbed, the rest in the block.\<close>

definition sha_holds :: "sha256 \<Rightarrow> byte list \<Rightarrow> bool" where
  "sha_holds s msg \<longleftrightarrow> length (h_block s) = 64 \<and> h_blocklen s < 64 \<and>
     (\<exists>full rem. msg = full @ rem \<and> 64 dvd length full \<and> length rem = h_blocklen s \<and>
        h_state s = absorb sha256_H0 full \<and> take (h_blocklen s) (h_block s) = rem)"

lemma update_loop_holds:
  "sha_holds s msg \<Longrightarrow> \<exists>s'. sha256_update_loop s data = Some s' \<and> sha_holds s' (msg @ data) \<and> h_bitlen s' = h_bitlen s"
proof (induction "length data" arbitrary: s msg data rule: less_induct)
  case less
  show ?case
  proof (cases "data = []")
    case True
    then show ?thesis using less.prems by (subst sha256_update_loop.simps) simp
  next
    case False
    define tk where "tk = min (64 - h_blocklen s) (length data)"
    define blk where "blk = memcpy_at (h_block s) (h_blocklen s) data tk"
    define s2 where "s2 = (if h_blocklen s + tk = 64
      then s\<lparr>h_block := blk, h_state := sha256Compress (h_state s) blk, h_blocklen := 0\<rparr>
      else s\<lparr>h_block := blk, h_blocklen := h_blocklen s + tk\<rparr>)"
    obtain full rem where h: "msg = full @ rem" "64 dvd length full" "length rem = h_blocklen s"
      "h_state s = absorb sha256_H0 full" "take (h_blocklen s) (h_block s) = rem"
      and l: "length (h_block s) = 64" "h_blocklen s < 64"
      using less.prems unfolding sha_holds_def by blast
    have t: "0 < tk" "tk \<le> length data" "h_blocklen s + tk \<le> 64" using False l by (auto simp: tk_def)
    have lb: "length blk = 64" using t l by (simp add: blk_def)
    have tb: "take (h_blocklen s + tk) blk = rem @ take tk data"
      using t l h(3,5) by (simp add: blk_def memcpy_at_def)
    have "sha_holds s2 (msg @ take tk data)"
    proof (cases "h_blocklen s + tk = 64")
      case True
      then have b: "blk = rem @ take tk data" using tb lb by simp
      have "absorb sha256_H0 (full @ blk) = sha256Compress (absorb sha256_H0 full) blk"
        using absorb_append[OF h(2)] absorb_block[OF lb, of _ "[]"] by (simp add: absorb_short)
      then show ?thesis using True lb h(1,2,4) b
        by (auto simp: sha_holds_def s2_def intro!: exI[of _ "full @ blk"])
    next
      case False
      then show ?thesis using lb h tb t
        by (auto simp: sha_holds_def s2_def intro!: exI[of _ full] exI[of _ "rem @ take tk data"])
    qed
    moreover have "length (drop tk data) < length data" using t False by simp
    ultimately obtain s' where s': "sha256_update_loop s2 (drop tk data) = Some s'"
      "sha_holds s' ((msg @ take tk data) @ drop tk data)" "h_bitlen s' = h_bitlen s2"
      using less.hyps by blast
    have "sha256_update_loop s data = sha256_update_loop s2 (drop tk data)"
      using False by (subst sha256_update_loop.simps)
        (simp add: Let_def tk_def s2_def blk_def SHA256_BLOCK_LEN_def)
    then show ?thesis using s' by (auto simp: s2_def)
  qed
qed

lemma update_holds:
  assumes "sha_holds s msg" "h_bitlen s = of_nat (8 * length msg)"
  shows "\<exists>s'. PlatformSha256Update s data = Some s' \<and> sha_holds s' (msg @ data) \<and>
    h_bitlen s' = of_nat (8 * length (msg @ data))"
proof -
  let ?s = "s\<lparr>h_bitlen := h_bitlen s + of_nat (length data) * 8\<rparr>"
  have "sha_holds ?s msg" using assms(1) by (auto simp: sha_holds_def)
  from update_loop_holds[OF this, of data] show ?thesis using assms(2) by (auto simp: PlatformSha256Update_def)
qed

lemma updates_hold:
  assumes "sha_holds s msg" "h_bitlen s = of_nat (8 * length msg)"
  shows "\<exists>s'. sha256_updates s cs = Some s' \<and> sha_holds s' (msg @ concat cs) \<and>
    h_bitlen s' = of_nat (8 * length (msg @ concat cs))"
  using assms
proof (induction cs arbitrary: s msg)
  case (Cons c cs)
  obtain s1 where s1: "PlatformSha256Update s c = Some s1" "sha_holds s1 (msg @ c)" "h_bitlen s1 = of_nat (8 * length (msg @ c))"
    using update_holds[OF Cons.prems] by blast
  show ?case using Cons.IH[OF s1(2,3)] s1(1) by simp
qed auto

lemma length_put_be64 [simp]: "length (put_be64 v) = 8"
  by (simp add: put_be64_def)

lemma mod_split: "(full :: nat) mod 64 = 0 \<Longrightarrow> r < 64 \<Longrightarrow> (full + r) mod 64 = r"
  by (metis add.left_neutral mod_add_left_eq mod_less)

lemma final_holds:
  assumes "sha_holds s msg" "h_bitlen s = of_nat (8 * length msg)"
  shows "PlatformSha256Final s = sha256_spec msg"
proof -
  obtain full rem where h: "msg = full @ rem" "64 dvd length full" "length rem = h_blocklen s"
    "h_state s = absorb sha256_H0 full" "take (h_blocklen s) (h_block s) = rem"
    and l: "length (h_block s) = 64" "h_blocklen s < 64"
    using assms(1) unfolding sha_holds_def by blast
  define n where "n = h_blocklen s"
  have m: "length msg mod 64 = n" using h(1,2,3) l(2) by (auto simp: n_def dvd_eq_mod_eq_0 intro: mod_split)
  define lb where "lb = put_be64 (of_nat (8 * length msg))"
  have b1: "(h_block s)[n := 0x80] = rem @ [0x80] @ drop (n + 1) (h_block s)"
    using h(3,5) l by (simp add: n_def upd_conv_take_nth_drop)
  have pad: "sha256_pad msg = full @ rem @ [0x80] @ replicate ((119 - n) mod 64) 0 @ lb"
    by (simp add: sha256_pad_def m lb_def) (simp add: h(1))
  show ?thesis
  proof (cases "n + 1 > 56")
    case False
    define b where "b = rem @ [0x80] @ replicate (55 - n) 0 @ lb"
    have "(119 - n) mod 64 = 55 - n" using False by (simp add: mod_if)
    then have "absorb sha256_H0 (sha256_pad msg) = sha256Compress (absorb sha256_H0 full) b"
      using absorb_append[OF h(2)] absorb_block[of b _ "[]"] False h(3) l
      by (simp add: pad b_def lb_def absorb_short n_def)
    moreover have "PlatformSha256Final s = concat (map put_be32 (sha256Compress (h_state s) b))"
      using False b1 h(3) l
      by (simp add: PlatformSha256Final_def Let_def SHA256_BLOCK_LEN_def n_def[symmetric] memcpy_at_def b_def lb_def assms(2))
    ultimately show ?thesis by (simp add: sha256_spec_def h(4))
  next
    case True
    define b where "b = rem @ [0x80] @ replicate (63 - n) 0"
    define c where "c = replicate 56 0 @ lb"
    have "(119 - n) mod 64 = 119 - n" using True l by (simp add: n_def)
    moreover have "replicate (119 - n) (0 :: byte) = replicate (63 - n) 0 @ replicate 56 0"
      using l by (simp add: n_def flip: replicate_add)
    ultimately have p: "sha256_pad msg = full @ b @ c" by (simp add: pad b_def c_def)
    have lc: "length b = 64" "length c = 64" using h(3) l by (simp_all add: b_def c_def lb_def n_def)
    have "absorb sha256_H0 (sha256_pad msg) = sha256Compress (sha256Compress (absorb sha256_H0 full) b) c"
      using absorb_append[OF h(2)] absorb_block[OF lc(1)] absorb_block[OF lc(2), of _ "[]"] by (simp add: p absorb_short)
    moreover have "PlatformSha256Final s = concat (map put_be32 (sha256Compress (sha256Compress (h_state s) b) c))"
      using True b1 h(3) l
      by (simp add: PlatformSha256Final_def Let_def SHA256_BLOCK_LEN_def n_def[symmetric] memcpy_at_def b_def c_def lb_def assms(2))
    ultimately show ?thesis by (simp add: sha256_spec_def h(4))
  qed
qed

lemma new_holds: "length mem = 64 \<Longrightarrow> sha_holds (PlatformSha256New mem) []"
  by (simp add: sha_holds_def PlatformSha256New_def absorb_short)

lemma length_rounds: "length st = 8 \<Longrightarrow> length (foldl sha256_round st kws) = 8"
  by (induction kws arbitrary: st) (simp_all add: sha256_round_def Let_def)

lemma length_compress: "length st = 8 \<Longrightarrow> length (sha256Compress st b) = 8"
  by (simp add: sha256Compress_def length_rounds)

lemma length_absorb: "length st = 8 \<Longrightarrow> length (absorb st xs) = 8"
proof (induction st xs rule: absorb.induct)
  case (1 st xs)
  then show ?case by (subst absorb.simps) (simp add: length_compress)
qed

lemma length_sha256_spec: "length (sha256_spec msg) = 32"
proof -
  have "length (concat (map put_be32 ws)) = 4 * length ws" for ws by (induction ws) (simp_all add: put_be32_def)
  then show ?thesis by (simp add: sha256_spec_def length_absorb sha256_H0_def)
qed

text \<open>
  C23: However a message is cut into updates, the updates all return and the final digest is the
  one the standard defines for the whole message.
\<close>

theorem sha256_stream:
  assumes "length mem = SHA256_BLOCK_LEN"
  shows "\<exists>s. sha256_updates (PlatformSha256New mem) chunks = Some s \<and>
    PlatformSha256Final s = sha256_spec (concat chunks)"
proof -
  have "sha_holds (PlatformSha256New mem) []" using assms by (intro new_holds) (simp add: SHA256_BLOCK_LEN_def)
  moreover have "h_bitlen (PlatformSha256New mem) = of_nat (8 * length ([] :: byte list))"
    by (simp add: PlatformSha256New_def)
  ultimately obtain s where "sha256_updates (PlatformSha256New mem) chunks = Some s"
    "sha_holds s ([] @ concat chunks)" "h_bitlen s = of_nat (8 * length ([] @ concat chunks))"
    using updates_hold by blast
  then show ?thesis using final_holds[of s "concat chunks"] by simp
qed

theorem sha256_stream_witness:
  "\<exists>s. sha256_updates (PlatformSha256New (replicate 64 7)) [[97], [98, 99]] = Some s \<and>
     PlatformSha256Final s = sha256_spec [97, 98, 99]"
  using sha256_stream[of "replicate 64 7" "[[97], [98, 99]]"] by (simp add: SHA256_BLOCK_LEN_def)

lemma sha256_of_spec: "sha256_of data = sha256_spec data"
proof -
  have "sha_holds (PlatformSha256New (replicate 64 0)) []" by (rule new_holds) simp
  from update_holds[OF this, of data] show ?thesis
    using final_holds[of _ data] by (auto simp: sha256_of_def SHA256_BLOCK_LEN_def PlatformSha256New_def)
qed

lemma length_sha256_of: "length (sha256_of data) = 32"
  by (simp add: sha256_of_spec length_sha256_spec)

end
