(* ===== verification/RegistrySafe.thy ===== *)
theory RegistrySafe imports RegistryInv RegistryMem Sha256 begin

text \<open>
  The properties of the image registry (\<open>src/src/registry.c\<close>) that rest on the invariant of \<open>RegistryInv\<close>:
  nothing that is listed or held is lost, images keep their bytes, the newest version of a name resolves, and what
  commit, install, load and remove do to the listing.  They hold on every store that keeps the contract of
  \<open>RegistryStore\<close>; the in-memory store with the software digest is the instance at hand.
\<close>

section \<open>The registry on the in-memory store\<close>

text \<open>The registry of the dummy platform: the in-memory store, four layers, the software digest.\<close>

definition dummy_env :: "mem_store reg_env" where
  "dummy_env = \<lparr>c_ops = mem_ops, c_maxl = 4, c_sha = sha256_of\<rparr>"

interpretation mem_reg: registry_core dummy_env mem_ok mem_ok mem_view mem_mapped
  by (intro registry_core.intro registry_core_axioms.intro)
    (simp_all add: dummy_env_def mem.registry_store_axioms length_sha256_of REGISTRY_META_DIGEST_LEN_def
      REGISTRY_RECORD_ABS_MAX_LAYERS_def)

section \<open>Nothing in use is lost\<close>

lemma boot_state:
  assumes "\<forall>s \<in> set ss. media s \<and> intact (c_sha P) (view s)" "listed view (c_maxl P) ss \<subseteq> stored view ss"
  shows "reg_state P media ok view mapped (registry_boot (c_maxl P) nmaps ss)"
  using assms by (auto simp: reg_state_def reg_off_def registry_boot_def stage_zero_def map_zero_def pending_zero_def
      resident_ok_def resident_zero_def)

lemma reach_state:
  assumes "registry_core P media ok view mapped" "reg_reach P g0 g" "reg_state P media ok view mapped g0"
  shows "reg_state P media ok view mapped g"
  using assms(2,3) by (induction rule: reg_reach.induct) (auto intro: registry_core.step_state[OF assms(1)])

lemma boot_reach:
  assumes "registry_core P media ok view mapped" "\<forall>s \<in> set ss. media s \<and> intact (c_sha P) (view s)"
    "listed view (c_maxl P) ss \<subseteq> stored view ss" "reg_reach P (registry_boot (c_maxl P) nmaps ss) g"
  shows "reg_state P media ok view mapped g"
  by (rule reach_state[OF assms(1,4) boot_state[OF assms(2,3)]])

text \<open>
  C1: On any store that keeps the contract, and after any sequence of calls since power-up that takes
  no resident image away (\<open>RegistryClearResident\<close>, or a second image under one ref), every layer that
  an installed entry or a staged layer names is still held, by a store or as a resident image: no install, replacement, removal, unmap or reclaim ever frees a blob that is in use.
\<close>

theorem registry_no_dangling:
  assumes "registry_core P media ok view mapped" "\<forall>s \<in> set ss. media s \<and> intact (c_sha P) (view s)"
    "listed view (c_maxl P) ss \<subseteq> stored view ss" "reg_reach P (registry_boot (c_maxl P) nmaps ss) g"
  shows "listed view (c_maxl P) (g_stores g) \<union> staged (g_pending g) \<subseteq>
    stored view (g_stores g) \<union> resident_digests (g_resident g)"
proof (cases "g_ready g")
  case True
  then show ?thesis using boot_reach[OF assms] by (simp add: reg_state_def reg_inv_def)
next
  case False
  then have "reg_off P media view g" using boot_reach[OF assms] by (simp add: reg_state_def)
  then show ?thesis by (auto simp: reg_off_def staged_def)
qed


section \<open>Resolving a name\<close>

lemma resolve_loop_best:
  assumes "resolve_loop P g name best ks = Some (k, m)" "keys_sorted (ks0 @ ks)"
    "\<forall>k0 m0. best = Some (k0, m0) \<longrightarrow> k0 \<in> set ks0 \<and> strncmp REGISTRY_KEY_NAME_LEN (k_name k0) name = 0 \<and> readMeta P g k0 = Inr m0"
    "\<forall>k' \<in> set ks0. \<forall>m'. strncmp REGISTRY_KEY_NAME_LEN (k_name k') name = 0 \<and> readMeta P g k' = Inr m' \<longrightarrow>
       (\<exists>k0 m0. best = Some (k0, m0) \<and> m_installSeq m' \<le> m_installSeq m0 \<and>
          (m_installSeq m' = m_installSeq m0 \<longrightarrow> keyCmp k0 k' \<le> 0))"
  shows "k \<in> set (ks0 @ ks) \<and> strncmp REGISTRY_KEY_NAME_LEN (k_name k) name = 0 \<and> readMeta P g k = Inr m \<and>
    (\<forall>k' \<in> set (ks0 @ ks). \<forall>m'. strncmp REGISTRY_KEY_NAME_LEN (k_name k') name = 0 \<and> readMeta P g k' = Inr m' \<longrightarrow>
       m_installSeq m' \<le> m_installSeq m \<and> (m_installSeq m' = m_installSeq m \<longrightarrow> keyCmp k k' \<le> 0))"
  using assms
proof (induction ks arbitrary: best ks0)
  case Nil
  then show ?case by auto
next
  case (Cons x ks)
  have s: "keys_sorted ((ks0 @ [x]) @ ks)" using Cons.prems(2) by simp
  have le: "keyCmp k0 x \<le> 0" if "k0 \<in> set ks0" for k0 using Cons.prems(2) that by (auto simp: sorted_wrt_append)
  have refl: "keyCmp x x \<le> 0" by (simp add: keyCmp_def)
  obtain best' where b: "resolve_loop P g name best' ks = Some (k, m)"
    "best' = (if strncmp REGISTRY_KEY_NAME_LEN (k_name x) name \<noteq> 0 then best
       else case readMeta P g x of Inl e \<Rightarrow> best
         | Inr c \<Rightarrow> (case best of None \<Rightarrow> Some (x, c) | Some (k0, m0) \<Rightarrow> if m_installSeq c > m_installSeq m0 then Some (x, c) else best))"
    using Cons.prems(1) by (auto split: if_splits sum.splits option.splits)
  have i: "\<forall>k0 m0. best' = Some (k0, m0) \<longrightarrow> k0 \<in> set (ks0 @ [x]) \<and> strncmp REGISTRY_KEY_NAME_LEN (k_name k0) name = 0 \<and> readMeta P g k0 = Inr m0"
    using Cons.prems(3) b(2) by (auto split: if_splits sum.splits option.splits)
  have ii: "\<exists>k0 m0. best' = Some (k0, m0) \<and> m_installSeq m' \<le> m_installSeq m0 \<and>
        (m_installSeq m' = m_installSeq m0 \<longrightarrow> keyCmp k0 k' \<le> 0)"
    if k': "k' \<in> set (ks0 @ [x])" "strncmp REGISTRY_KEY_NAME_LEN (k_name k') name = 0" "readMeta P g k' = Inr m'" for k' m'
  proof (cases "k' = x")
    case True
    show ?thesis
    proof (cases best)
      case None
      then show ?thesis using True b(2) k' refl by simp
    next
      case (Some p)
      obtain k0 m0 where p: "p = (k0, m0)" by fastforce
      have "k0 \<in> set ks0" using Cons.prems(3) Some p by simp
      then show ?thesis using True b(2) k' Some p refl le by (cases "m_installSeq m' > m_installSeq m0") auto
    qed
  next
    case False
    then have "k' \<in> set ks0" using k'(1) by simp
    then obtain k0 m0 where o: "best = Some (k0, m0)" "m_installSeq m' \<le> m_installSeq m0"
      "m_installSeq m' = m_installSeq m0 \<longrightarrow> keyCmp k0 k' \<le> 0" using Cons.prems(4) k'(2,3) by blast
    show ?thesis
    proof (cases "best' = best")
      case True
      then show ?thesis using o by auto
    next
      case False
      then obtain c where "best' = Some (x, c)" "m_installSeq c > m_installSeq m0"
        using b(2) o(1) by (auto split: if_splits sum.splits)
      then show ?thesis using o by auto
    qed
  qed
  show ?case using Cons.IH[OF b(1) s i] ii by auto
qed


section \<open>Installing an image\<close>

lemma drop_frame: "dropAllIfFree P ds g = g\<lparr>g_stores := g_stores (dropAllIfFree P ds g)\<rparr>"
proof -
  have "\<exists>ss. foldl (\<lambda>g d. if d \<in> set refs \<or> held g d then g else g\<lparr>g_stores := map (drop_blob P d) (g_stores g)\<rparr>) g ds = g\<lparr>g_stores := ss\<rparr>" for refs
  proof (induction ds arbitrary: g)
    case Nil
    show ?case by (auto intro: exI[of _ "g_stores g"])
  next
    case (Cons d ds)
    obtain ss where "foldl (\<lambda>g d. if d \<in> set refs \<or> held g d then g else g\<lparr>g_stores := map (drop_blob P d) (g_stores g)\<rparr>)
        (if d \<in> set refs \<or> held g d then g else g\<lparr>g_stores := map (drop_blob P d) (g_stores g)\<rparr>) ds =
        (if d \<in> set refs \<or> held g d then g else g\<lparr>g_stores := map (drop_blob P d) (g_stores g)\<rparr>)\<lparr>g_stores := ss\<rparr>"
      using Cons.IH by blast
    then show ?case by (auto intro!: exI[of _ ss])
  qed
  then have f: "\<exists>ss. foldl (\<lambda>g d. if d \<in> set refs \<or> held g d then g else g\<lparr>g_stores := map (drop_blob P d) (g_stores g)\<rparr>) g ds = g\<lparr>g_stores := ss\<rparr>" for refs .
  have "\<exists>ss. dropAllIfFree P ds g = g\<lparr>g_stores := ss\<rparr>"
  proof (cases "ds = [] \<or> listedDigests P g = None")
    case True
    then show ?thesis by (intro exI[of _ "g_stores g"]) (auto simp: dropAllIfFree_def)
  next
    case False
    then obtain refs where "listedDigests P g = Some refs" "ds \<noteq> []" by auto
    then show ?thesis using f[of refs] by (simp add: dropAllIfFree_def)
  qed
  then show ?thesis by auto
qed

lemma drop_fields [simp]:
  "g_pending (dropAllIfFree P ds g) = g_pending g" "g_maps (dropAllIfFree P ds g) = g_maps g"
  "g_resident (dropAllIfFree P ds g) = g_resident g" "g_stage (dropAllIfFree P ds g) = g_stage g"
  "g_seq (dropAllIfFree P ds g) = g_seq g"
  by (subst drop_frame; simp)+

abbreviation pe_match :: "registry_key \<Rightarrow> byte \<Rightarrow> reg_pending \<Rightarrow> bool" where
  "pe_match key idx p \<equiv> pe_used p \<and> keyEq (pe_key p) key \<and> pe_index p = idx"

lemma pending_scan_some: "ps \<noteq> [] \<or> slot \<noteq> None \<or> oldest \<noteq> None \<Longrightarrow> pending_scan key idx i slot oldest ps \<noteq> None"
proof (induction ps arbitrary: i slot oldest)
  case Nil
  then show ?case by (auto split: option.splits)
next
  case (Cons p ps)
  define slot' where "slot' = (if \<not> pe_used p \<and> slot = None then Some i else slot)"
  define oldest' where "oldest' = (if pe_used p \<and> (case oldest of None \<Rightarrow> True | Some (j, ord) \<Rightarrow> pe_order p < ord)
         then Some (i, pe_order p) else oldest)"
  have "slot' \<noteq> None \<or> oldest' \<noteq> None" by (auto simp: slot'_def oldest'_def split: option.splits)
  then show ?case using Cons.IH[of slot' oldest' "i + 1"] by (auto simp: slot'_def oldest'_def)
qed

lemma pending_scan_first:
  assumes "pending_scan key idx i slot oldest ps = Some j"
    "\<forall>s. slot = Some s \<longrightarrow> s < i" "\<forall>j q. oldest = Some (j, q) \<longrightarrow> j < i"
  shows "j < i + length ps \<and> (\<forall>q < length ps. i + q < j \<longrightarrow> \<not> pe_match key idx (ps ! q))"
  using assms
proof (induction ps arbitrary: i slot oldest)
  case Nil
  then show ?case by (auto split: option.splits)
next
  case (Cons p ps)
  show ?case
  proof (cases "pe_match key idx p")
    case True
    then show ?thesis using Cons.prems(1) by simp
  next
    case False
    define slot' where "slot' = (if \<not> pe_used p \<and> slot = None then Some i else slot)"
    define oldest' where "oldest' = (if pe_used p \<and> (case oldest of None \<Rightarrow> True | Some (j, ord) \<Rightarrow> pe_order p < ord)
           then Some (i, pe_order p) else oldest)"
    have r: "pending_scan key idx (i + 1) slot' oldest' ps = Some j"
      using Cons.prems(1) False by (simp add: slot'_def oldest'_def)
    have s: "\<forall>s. slot' = Some s \<longrightarrow> s < i + 1" "\<forall>j q. oldest' = Some (j, q) \<longrightarrow> j < i + 1"
      using Cons.prems(2,3) by (auto simp: slot'_def oldest'_def less_Suc_eq split: if_splits)
    have "\<not> pe_match key idx ((p # ps) ! q)" if "q < length (p # ps)" "i + q < j" for q
      using Cons.IH[OF r s] False that by (cases q) auto
    then show ?thesis using Cons.IH[OF r s] by simp
  qed
qed

lemma find_update:
  assumes "j < length xs" "Q y" "\<forall>i < j. \<not> Q (xs ! i)"
  shows "find Q (xs[j := y]) = Some y"
  using assms by (auto simp: find_Some_iff intro!: exI[of _ j])

lemma pendingFind_pendingAdd:
  assumes "g_pending g \<noteq> []"
  shows "\<exists>q. pendingFind (pendingAdd P key idx d len g) key idx =
    Some \<lparr>pe_used = True, pe_key = key, pe_index = idx, pe_digest = d, pe_len = len, pe_order = q\<rparr>"
proof -
  have refl: "keyEq key key" by (simp add: keyEq_def)
  obtain j where j: "pending_scan key idx 0 None None (g_pending g) = Some j"
    using pending_scan_some[of "g_pending g"] assms by blast
  have sj: "j < length (g_pending g)" "\<forall>q < length (g_pending g). q < j \<longrightarrow> \<not> pe_match key idx (g_pending g ! q)"
    using pending_scan_first[OF j] by auto
  define y where "y = \<lparr>pe_used = True, pe_key = key, pe_index = idx, pe_digest = d, pe_len = len, pe_order = g_order g + 1\<rparr>"
  have "find (\<lambda>p. pe_used p \<and> keyEq (pe_key p) key \<and> pe_index p = idx) ((g_pending g)[j := y]) = Some y"
    using sj refl by (intro find_update) (auto simp: y_def)
  then show ?thesis using j by (auto simp: pendingAdd_def Let_def pendingFind_def dropIfFree_def y_def)
qed

lemma meta_slots_fields:
  "m_size (meta_slots maxl m) = m_size m" "m_installSeq (meta_slots maxl m) = m_installSeq m"
  "m_installed (meta_slots maxl m) = m_installed m" "m_created (meta_slots maxl m) = m_created m"
  "m_flags (meta_slots maxl m) = m_flags m" "m_layerCount (meta_slots maxl m) = m_layerCount m"
  by (simp_all add: meta_slots_def Let_def)

context registry_core begin

lemma writeMeta_ok:
  assumes inv: "reg_inv P ok view mapped g" and k: "key_ok key" and m: "meta_ok (c_maxl P) meta"
    and w: "writeMeta P key meta g = (Inr u, g')"
  shows "\<exists>p ps q rec. g_stores g = p # ps \<and> g' = g\<lparr>g_stores := q # ps\<rparr> \<and>
    v_recs (view q) = (v_recs (view p))(key \<mapsto> rec) \<and> v_blobs (view q) = v_blobs (view p) \<and>
    RegistryRecordDecode (c_maxl P) rec = Some (meta_slots (c_maxl P) meta)"
proof -
  let ?rec = "RegistryRecordEncode (c_maxl P) meta REGISTRY_RECORD_MAX"
  obtain p q where p: "primary g = Some p" "op_recPut (c_ops P) p key ?rec = Some (Inr u, q)" "g' = set_primary q g"
    using w by (auto simp: writeMeta_def Let_def split: option.splits if_splits)
  obtain ps where ss: "g_stores g = p # ps" using primary_Some[OF p(1)] by blast
  have "ok p" using inv ss by (simp add: reg_inv_def)
  from recPut_law[OF this k p(2)] have v: "v_recs (view q) = (v_recs (view p))(key \<mapsto> ?rec)" "v_blobs (view q) = v_blobs (view p)"
    by auto
  have "RegistryRecordDecode (c_maxl P) ?rec = Some (meta_slots (c_maxl P) meta)"
    using encode_portable[OF m maxl_max order.refl, of "c_maxl P" "[]"] m by (simp add: meta_ok_def)
  then show ?thesis using p(3) ss v by (auto simp: set_primary_def)
qed

lemma commit_spec:
  assumes inv: "reg_inv P ok view mapped g" and k: "key_ok key" and c: "commitLocked P now key cnt created g = (Inr u, g')"
  shows "\<exists>ls sz p ps q qs rec m. commit_layers g key 0 cnt 0 = Inr (ls, sz) \<and> g_stores g = p # ps \<and> g_stores g' = q # qs \<and>
    v_recs (view q) = (v_recs (view p))(key \<mapsto> rec) \<and> RegistryRecordDecode (c_maxl P) rec = Some m \<and>
    meta_digests m = map snd ls \<and> m_size m = sz \<and> m_installSeq m = g_seq g' \<and>
    (\<forall>d \<in> snd ` set ls. v_blobs (view q) d = v_blobs (view p) d) \<and> g_pending g' = clear_pending key (g_pending g)"
proof -
  obtain ls sz where ls: "commit_layers g key 0 cnt 0 = Inr (ls, sz)" "cnt \<le> c_maxl P"
    using c by (auto simp: commitLocked_def split: if_splits sum.splits)
  note sp = commit_layers_spec[OF ls(1)]
  obtain s where q: "syncSeq P g = g\<lparr>g_seq := s\<rparr>" using syncSeq_frame by blast
  define meta where "meta = commit_meta (c_maxl P) cnt ls sz now created (s + 1)"
  have "\<forall>d \<in> snd ` set ls. length d = REGISTRY_META_DIGEST_LEN" using inv sp by (auto simp: reg_inv_def)
  note mo = commit_meta_ok[OF conjunct1[OF sp] ls(2) this, of sz now created "s + 1", folded meta_def]
  obtain r1 g2 where w: "writeMeta P key meta (g\<lparr>g_seq := s\<rparr>) = (r1, g2)" by fastforce
  have r1: "r1 = Inr ()" using c ls q w
    by (auto simp: commitLocked_def Let_def meta_def[symmetric] split: if_splits sum.splits)
  have i1: "reg_inv P ok view mapped (g\<lparr>g_seq := s\<rparr>)" using inv by simp
  obtain p ps q' rec where p: "g_stores g = p # ps" "g2 = g\<lparr>g_seq := s, g_stores := q' # ps\<rparr>"
    "v_recs (view q') = (v_recs (view p))(key \<mapsto> rec)" "v_blobs (view q') = v_blobs (view p)"
    "RegistryRecordDecode (c_maxl P) rec = Some (meta_slots (c_maxl P) meta)"
    using writeMeta_ok[OF i1 k mo(1) w[unfolded r1]] by auto
  define g3 where "g3 = g2\<lparr>g_seq := s + 1, g_visible := None, g_pending := clear_pending key (g_pending g2)\<rparr>"
  have md: "set (meta_digests meta) \<subseteq> stored view (g_stores g) \<union> resident_digests (g_resident g)"
    using inv sp by (auto simp: mo(2) reg_inv_def)
  have "reg_inv P ok view mapped g2" using writeMeta_inv[OF i1 k mo(1) _ w] md by simp
  then have ok3: "\<forall>s \<in> set (g_stores g3). ok s" by (simp add: reg_inv_def g3_def)
  obtain fs where g': "g' = dropAllIfFree P fs g3" using c ls q w r1
    by (auto simp: commitLocked_def Let_def meta_def[symmetric] g3_def split: if_splits)
  obtain ss' where d: "dropAllIfFree P fs g3 = g3\<lparr>g_stores := ss'\<rparr>"
    "list_all2 (trimmed ok view mapped (listed view (c_maxl P) (g_stores g3) \<union> staged (g_pending g3) \<union> mapped_digests (g_maps g3))) (g_stores g3) ss'"
    using dropAllIfFree_trim[OF ok3] by blast
  obtain q2 qs where q2: "ss' = q2 # qs" "trimmed ok view mapped (listed view (c_maxl P) (g_stores g3) \<union> staged (g_pending g3) \<union> mapped_digests (g_maps g3)) q' q2"
    using d(2) p(2) by (auto simp: g3_def list_all2_Cons1)
  have "rec_digests (c_maxl P) rec = snd ` set ls" using p(5) mo by (simp add: rec_digests_def meta_digests_slots)
  then have "snd ` set ls \<subseteq> listed view (c_maxl P) (g_stores g3)" using p(2,3) by (auto simp: listed_def g3_def)
  then have "\<forall>x \<in> snd ` set ls. v_blobs (view q2) x = v_blobs (view p) x"
    using trimmed_blob[OF q2(2)] p(4) by auto
  moreover have "v_recs (view q2) = (v_recs (view p))(key \<mapsto> rec)" using q2(2) p(3) by (simp add: trimmed_def)
  moreover have "g_seq g' = s + 1" "g_pending g' = clear_pending key (g_pending g)" "g_stores g' = q2 # qs"
    using p(2) d(1) q2(1) by (simp_all add: g' g3_def)
  moreover have "m_size (meta_slots (c_maxl P) meta) = sz" "m_installSeq (meta_slots (c_maxl P) meta) = s + 1"
    by (simp_all add: meta_slots_fields) (simp_all add: meta_def commit_meta_def Let_def)
  ultimately show ?thesis using ls(1) p(1,5) mo meta_digests_slots[OF mo(1)] by auto
qed

end


text \<open>
  A client that streams an image with \<open>RegistryWrite\<close>: the first chunk, the others, the end.  A
  chunk must be taken whole.
\<close>

fun write_chunks :: "'s reg_env \<Rightarrow> u64 option \<Rightarrow> byte list list \<Rightarrow> 's registry \<Rightarrow> 's registry option" where
  "write_chunks P now [] g = Some g"
| "write_chunks P now (c # cs) g =
     (case RegistryWrite P True now CONTINUE_WRITE None (Some c) g of
        (Inl e, g') \<Rightarrow> None
      | (Inr w, g') \<Rightarrow> if w = length c then write_chunks P now cs g' else None)"

definition install_image :: "'s reg_env \<Rightarrow> u64 option \<Rightarrow> string \<Rightarrow> byte list \<Rightarrow> byte list list \<Rightarrow> 's registry \<Rightarrow> 's registry option" where
  "install_image P now ref c cs g =
     (case RegistryWrite P True now START_WRITE (Some ref) (Some c) g of
        (Inl e, g1) \<Rightarrow> None
      | (Inr w, g1) \<Rightarrow>
          if w \<noteq> length c then None
          else (case write_chunks P now cs g1 of
                  None \<Rightarrow> None
                | Some g2 \<Rightarrow> (case RegistryWrite P True now FINISH_WRITE None None g2 of
                                 (Inl e, g3) \<Rightarrow> None | (Inr n, g3) \<Rightarrow> Some g3)))"

definition streaming :: "'s registry \<Rightarrow> registry_key \<Rightarrow> byte list \<Rightarrow> bool" where
  "streaming g key data \<longleftrightarrow> g_ready g \<and> g_pending g \<noteq> [] \<and> sg_active (g_stage g) \<and> sg_plain (g_stage g) \<and>
     sg_err (g_stage g) = None \<and> sg_key (g_stage g) = key \<and> sg_layer (g_stage g) = 0 \<and> sg_sha (g_stage g) = data"

lemma ensureReady_id: "g_ready g \<Longrightarrow> ensureReady P g = g"
  by (simp add: ensureReady_def)

context registry_core begin

lemma stageWrite_stream:
  assumes "stageWriteLocked P buf g = (Inr w, g')" "w = length buf" "streaming g key data"
  shows "streaming g' key (data @ buf)"
  using assms by (auto simp: stageWriteLocked_def streaming_def set_primary_def split: option.splits sum.splits prod.splits)

lemma start_stream:
  assumes "RegistryWrite P True now START_WRITE (Some ref) (Some c) g = (Inr w, g1)" "w = length c"
    "g_ready g" "g_pending g \<noteq> []" "reg_inv P ok view mapped g" "parseRef (Some ref) = Inr key"
  shows "streaming g1 key c \<and> reg_inv P ok view mapped g1 \<and> c \<noteq> []"
proof -
  have sw: "writeLayerLocked P True now START_WRITE (Some ref) 0 True (Some c) g = (Inr w, g1)"
    using assms(1,3) by (simp add: RegistryWrite_def ensureReady_id)
  obtain h s' where h: "c \<noteq> []" "stageWriteLocked P c ((set_primary s' g)\<lparr>g_stage := stage_zero\<lparr>sg_active := True, sg_plain := True,
      sg_handle := h, sg_key := key, sg_layer := 0\<rparr>\<rparr>) = (Inr w, g1)"
    using sw assms(6)
    by (auto simp: writeLayerLocked_def start_write_def Let_def split: option.splits if_splits sum.splits prod.splits)
  have "streaming ((set_primary s' g)\<lparr>g_stage := stage_zero\<lparr>sg_active := True, sg_plain := True,
      sg_handle := h, sg_key := key, sg_layer := 0\<rparr>\<rparr>) key []"
    using assms(3,4) by (simp add: streaming_def stage_zero_def set_primary_def)
  from stageWrite_stream[OF h(2) assms(2) this] show ?thesis
    using h(1) writeLayerLocked_inv[OF assms(5) sw] by simp
qed

lemma chunks_stream:
  "write_chunks P now cs g = Some g' \<Longrightarrow> streaming g key data \<Longrightarrow> reg_inv P ok view mapped g \<Longrightarrow>
   streaming g' key (data @ concat cs) \<and> reg_inv P ok view mapped g'"
proof (induction cs arbitrary: g data)
  case (Cons c cs)
  have rd: "g_ready g" "sg_active (g_stage g)" using Cons.prems(2) by (simp_all add: streaming_def)
  obtain w g1 where w: "RegistryWrite P True now CONTINUE_WRITE None (Some c) g = (Inr w, g1)" "w = length c"
    "write_chunks P now cs g1 = Some g'"
    using Cons.prems(1) by (auto split: prod.splits sum.splits if_splits)
  have wl: "writeLayerLocked P True now CONTINUE_WRITE None 0 True (Some c) g = (Inr w, g1)"
    using w(1) rd(1) by (simp add: RegistryWrite_def ensureReady_id)
  then have "stageWriteLocked P c g = (Inr w, g1)"
    by (auto simp: writeLayerLocked_def split: option.splits if_splits)
  from stageWrite_stream[OF this w(2) Cons.prems(2)] show ?case
    using Cons.IH[OF w(3), of "data @ c"] writeLayerLocked_inv[OF Cons.prems(3) wl] by simp
qed simp

lemma pendingAdd_primary:
  assumes inv: "reg_inv P ok view mapped g" and d: "length d = REGISTRY_META_DIGEST_LEN"
    and ss: "g_stores g = p # ps" "v_blobs (view p) d \<noteq> None" and ne: "g_pending g \<noteq> []"
  shows "\<exists>q qs. g_stores (pendingAdd P key idx d len g) = q # qs \<and> v_blobs (view q) d = v_blobs (view p) d"
proof -
  obtain j where j: "pending_scan key idx 0 None None (g_pending g) = Some j"
    using pending_scan_some[of "g_pending g"] ne by blast
  have jl: "j < length (g_pending g)" using pending_scan_first[OF j] by simp
  define y where "y = \<lparr>pe_used = True, pe_key = key, pe_index = idx, pe_digest = d, pe_len = len, pe_order = g_order g + 1\<rparr>"
  define g1 where "g1 = g\<lparr>g_order := g_order g + 1, g_pending := (g_pending g)[j := y]\<rparr>"
  have "y \<in> set ((g_pending g)[j := y])" using jl by (rule set_update_memI)
  then have "d \<in> staged (g_pending g1)" by (force simp: staged_def g1_def y_def)
  moreover have "\<forall>s \<in> set (g_stores g1). ok s" using inv by (simp add: g1_def reg_inv_def)
  from dropAllIfFree_trim[OF this, of "[pe_digest (g_pending g ! j)]"] obtain ss' where
    t: "dropIfFree P (pe_digest (g_pending g ! j)) g1 = g1\<lparr>g_stores := ss'\<rparr>"
    "list_all2 (trimmed ok view mapped (listed view (c_maxl P) (g_stores g1) \<union> staged (g_pending g1) \<union> mapped_digests (g_maps g1)))
      (g_stores g1) ss'" by (auto simp: dropIfFree_def)
  moreover obtain q qs where "ss' = q # qs" using t(2) ss(1) by (auto simp: g1_def list_all2_Cons1)
  ultimately have "v_blobs (view q) d = v_blobs (view p) d"
    using trimmed_blob[of ok view mapped _ p q d] ss(1) by (auto simp: g1_def)
  then show ?thesis using j t \<open>ss' = q # qs\<close> ss(1)
    by (auto simp: pendingAdd_def Let_def g1_def y_def)
qed

lemma finish_stream:
  assumes f: "RegistryWrite P True now FINISH_WRITE None None g = (Inr n, g')" and s: "streaming g key data"
    and inv: "reg_inv P ok view mapped g" and ne: "data \<noteq> []"
  shows "\<exists>q qs rec m blob. g_stores g' = q # qs \<and> v_recs (view q) key = Some rec \<and>
    RegistryRecordDecode (c_maxl P) rec = Some m \<and> meta_digests m = [c_sha P data] \<and>
    m_size m = of_nat (length data) \<and> v_blobs (view q) (c_sha P data) = Some blob \<and> c_sha P blob = c_sha P data"
proof -
  have st: "g_ready g" "g_pending g \<noteq> []" "sg_active (g_stage g)" "sg_plain (g_stage g)" "sg_err (g_stage g) = None"
    "sg_key (g_stage g) = key" "sg_layer (g_stage g) = 0" "sg_sha (g_stage g) = data"
    using s by (auto simp: streaming_def)
  obtain p ps data' where p: "g_stores g = p # ps" "primary g = Some p" "ok p" "intact (c_sha P) (view p)"
    "key_ok (sg_key (g_stage g))" "v_stages (view p) (sg_handle (g_stage g)) = Some data'"
    "sg_err (g_stage g) = None \<longrightarrow> data' = sg_sha (g_stage g) \<and> sg_len (g_stage g) = length data'"
    by (rule stage_live_active[OF inv st(3)])
  then have dd: "data' = data" "sg_len (g_stage g) = length data" "key_ok key" using st by auto
  define d where "d = c_sha P data"
  have wl: "writeLayerLocked P True now FINISH_WRITE None 0 True None g = (Inr n, g')"
    using f st(1) by (simp add: RegistryWrite_def ensureReady_id)
  then have fin: "stageFinishLocked P now g = (Inr n, g')"
    using st(3) by (auto simp: writeLayerLocked_def split: option.splits if_splits)
  obtain s' where e: "op_stageEnd (c_ops P) p (sg_handle (g_stage g)) d (length data) = (Inr (), s')"
    using fin st p dd ne by (auto simp: stageFinishLocked_def Let_def d_def split: prod.splits sum.splits)
  note law = stageEnd_law[OF p(3) p(6)[unfolded dd(1)] e]
  define g1 where "g1 = set_primary s' (stageClear g)"
  define g2 where "g2 = pendingAdd P key 0 d (of_nat (length data)) g1"
  have in': "intact (c_sha P) (view s')" using law p(4)
    by (auto simp: intact_def d_def keep_blob_def split: if_splits)
  have mono: "v_blobs (view p) \<subseteq>\<^sub>m v_blobs (view s')" using law
    by (auto simp: keep_blob_def intro!: map_leI)
  have i1: "reg_inv P ok view mapped g1" unfolding g1_def
    by (rule reg_inv_store[OF stageClear_inv[OF inv], of 0 s'])
      (use law in' mono p(1) listed_upd[of 0 "g_stores g" view s' "c_maxl P"]
        in \<open>auto simp: set_primary_def stageClear_def stage_live_def stage_zero_def\<close>)
  have has: "v_blobs (view s') d \<noteq> None" using law by (auto simp: keep_blob_def)
  have ss1: "g_stores g1 = s' # ps" using p(1) by (simp add: g1_def set_primary_def stageClear_def)
  have ne1: "g_pending g1 \<noteq> []" using st(2) by (simp add: g1_def set_primary_def stageClear_def)
  have dl: "length d = REGISTRY_META_DIGEST_LEN" by (simp add: d_def sha_len)
  have i2: "reg_inv P ok view mapped g2" unfolding g2_def
    using i1 dl has ss1 by (intro pendingAdd_inv) (auto simp: stored_def)
  obtain q qs where q: "g_stores g2 = q # qs" "v_blobs (view q) d = v_blobs (view s') d"
    using pendingAdd_primary[OF i1 dl ss1 has ne1] unfolding g2_def by blast
  obtain u g3 where c: "commitLocked P now key 1 None g2 = (Inr u, g3)" "g' = g3"
    using fin st p dd ne e by (auto simp: stageFinishLocked_def Let_def d_def g1_def g2_def split: prod.splits sum.splits)
  obtain ord where "pendingFind g2 key 0 = Some \<lparr>pe_used = True, pe_key = key, pe_index = 0, pe_digest = d,
      pe_len = of_nat (length data), pe_order = ord\<rparr>"
    using pendingFind_pendingAdd[OF ne1, of P key 0 d] unfolding g2_def by blast
  then have cl: "commit_layers g2 key 0 1 0 = Inr ([(of_nat (length data), d)], of_nat (length data))"
    by (simp add: numeral_eq_Suc)
  show ?thesis using commit_spec[OF i2 dd(3) c(1)] cl q has c(2) in' by (auto simp: d_def intact_def)
qed

end

text \<open>
  C3: An image streamed into the registry, in whatever chunks, is published as it was sent: after
  the last call the ref's record names exactly one layer, the digest of the bytes streamed, with
  their number as its size, and the store holds a blob of that digest.
\<close>

theorem install_publishes:
  assumes "registry_core P media ok view mapped" "reg_state P media ok view mapped g" "g_ready g" "g_pending g \<noteq> []"
    "parseRef (Some ref) = Inr key" "install_image P now ref c cs g = Some g'" "data = c @ concat cs"
  shows "\<exists>q qs rec m blob. g_stores g' = q # qs \<and> v_recs (view q) key = Some rec \<and>
    RegistryRecordDecode (c_maxl P) rec = Some m \<and> meta_digests m = [c_sha P data] \<and>
    m_size m = of_nat (length data) \<and> v_blobs (view q) (c_sha P data) = Some blob \<and> c_sha P blob = c_sha P data"
proof -
  have inv: "reg_inv P ok view mapped g" using assms(2,3) by (simp add: reg_state_def)
  obtain w g1 g2 n where w: "RegistryWrite P True now START_WRITE (Some ref) (Some c) g = (Inr w, g1)" "w = length c"
    "write_chunks P now cs g1 = Some g2" "RegistryWrite P True now FINISH_WRITE None None g2 = (Inr n, g')"
    using assms(6) by (auto simp: install_image_def split: prod.splits sum.splits if_splits option.splits)
  note s1 = registry_core.start_stream[OF assms(1) w(1,2) assms(3,4) inv assms(5)]
  have "streaming g2 key data" "reg_inv P ok view mapped g2" "data \<noteq> []"
    using registry_core.chunks_stream[OF assms(1) w(3)] s1 assms(7) by auto
  then show ?thesis using registry_core.finish_stream[OF assms(1) w(4)] by blast
qed

section \<open>Loading and removing\<close>

definition maps_kept :: "reg_map list \<Rightarrow> reg_map list \<Rightarrow> bool" where
  "maps_kept ms ms' \<longleftrightarrow> (\<forall>m \<in> set ms. mp_used m \<longrightarrow>
     (\<exists>m' \<in> set ms'. mp_used m' \<and> mp_digest m' = mp_digest m \<and> mp_map m' = mp_map m))"

definition map_entry :: "reg_map list \<Rightarrow> digest \<Rightarrow> nat \<times> nat \<Rightarrow> bool" where
  "map_entry ms d pl \<longleftrightarrow> (\<exists>m \<in> set ms. mp_used m \<and> mp_digest m = d \<and> pl = (bm_ptr (mp_map m), bm_len (mp_map m)))"

lemma maps_kept_refl: "maps_kept ms ms"
  by (auto simp: maps_kept_def)

lemma maps_kept_trans: "maps_kept a b \<Longrightarrow> maps_kept b c \<Longrightarrow> maps_kept a c"
  unfolding maps_kept_def by metis

lemma map_entry_kept: "map_entry ms d pl \<Longrightarrow> maps_kept ms ms' \<Longrightarrow> map_entry ms' d pl"
  unfolding map_entry_def maps_kept_def by metis

lemma maps_kept_new:
  assumes "\<not> mp_used (ms ! i)"
  shows "maps_kept ms (ms[i := x])"
  unfolding maps_kept_def
proof (intro ballI impI)
  fix m assume "m \<in> set ms" "mp_used m"
  then obtain k where k: "k < length ms" "ms ! k = m" by (auto simp: in_set_conv_nth)
  then have "k \<noteq> i" using assms \<open>mp_used m\<close> by auto
  then have "m \<in> set (ms[i := x])" using k by (metis length_list_update nth_list_update_neq nth_mem)
  then show "\<exists>m' \<in> set (ms[i := x]). mp_used m' \<and> mp_digest m' = mp_digest m \<and> mp_map m' = mp_map m"
    using \<open>mp_used m\<close> by blast
qed

lemma maps_kept_users: "maps_kept ms (upd_nth i (mp_users_update f) ms)"
  unfolding maps_kept_def
proof (intro ballI impI)
  fix m assume m: "m \<in> set ms" "mp_used m"
  then obtain k where k: "k < length ms" "ms ! k = m" by (auto simp: in_set_conv_nth)
  then have "upd_nth i (mp_users_update f) ms ! k \<in> set (upd_nth i (mp_users_update f) ms)" by simp
  moreover have "upd_nth i (mp_users_update f) ms ! k = (if k = i then mp_users_update f m else m)" using k by (auto simp: nth_upd_nth)
  ultimately show "\<exists>m' \<in> set (upd_nth i (mp_users_update f) ms). mp_used m' \<and> mp_digest m' = mp_digest m \<and> mp_map m' = mp_map m"
    using m(2) by (intro bexI[of _ "upd_nth i (mp_users_update f) ms ! k"]) auto
qed

lemma mapBlob_entry:
  assumes "mapBlob P d len g = (Inr pl, g')"
  shows "map_entry (g_maps g') d pl \<and> maps_kept (g_maps g) (g_maps g')"
proof (cases "find_idx (\<lambda>m. mp_used m \<and> mp_digest m = d) (g_maps g)")
  case (Some i)
  have i: "i < length (g_maps g)" "mp_used (g_maps g ! i)" "mp_digest (g_maps g ! i) = d" using find_idx_SomeD[OF Some] by auto
  have g': "g_maps g' = upd_nth i (mp_users_update Suc) (g_maps g)" "pl = (bm_ptr (mp_map (g_maps g ! i)), bm_len (mp_map (g_maps g ! i)))"
    using assms Some by (auto simp: mapBlob_def)
  have "map_entry (g_maps g) d pl" using i g'(2) by (auto simp: map_entry_def intro!: bexI[of _ "g_maps g ! i"])
  then show ?thesis unfolding g'(1) by (blast intro: map_entry_kept maps_kept_users)
next
  case None
  have "\<exists>i x. find_idx (\<lambda>m. \<not> mp_used m) (g_maps g) = Some i \<and> g_maps g' = (g_maps g)[i := x] \<and>
    mp_used x \<and> mp_digest x = d \<and> pl = (bm_ptr (mp_map x), bm_len (mp_map x))"
  proof (cases "residentByDigest g d")
    case (Some r)
    then have "re_digest r = d" using find_SomeD[OF Some[unfolded residentByDigest_def]] by simp
    then show ?thesis using assms None Some
      by (auto simp: mapBlob_def mapResident_def split: option.splits)
  next
    case no: None
    then show ?thesis using assms None by (auto simp: mapBlob_def split: option.splits sum.splits prod.splits)
  qed
  then obtain i x where x: "find_idx (\<lambda>m. \<not> mp_used m) (g_maps g) = Some i" "g_maps g' = (g_maps g)[i := x]"
    "mp_used x" "mp_digest x = d" "pl = (bm_ptr (mp_map x), bm_len (mp_map x))" by blast
  have i: "i < length (g_maps g)" "\<not> mp_used (g_maps g ! i)" using find_idx_SomeD[OF x(1)] by auto
  have "x \<in> set ((g_maps g)[i := x])" using i(1) by (rule set_update_memI)
  then show ?thesis using maps_kept_new[OF i(2)] x by (auto simp: map_entry_def)
qed

lemma map_layers_entry:
  "map_layers P ls acc g = (Inr res, g') \<Longrightarrow>
   \<exists>new. res = acc @ new \<and> list_all2 (\<lambda>l pl. map_entry (g_maps g') (fst l) pl) ls new \<and> maps_kept (g_maps g) (g_maps g')"
proof (induction ls arbitrary: acc g)
  case (Cons l ls)
  obtain d len where l: "l = (d, len)" by fastforce
  obtain pl g1 where m: "mapBlob P d (unat len) g = (Inr pl, g1)" "map_layers P ls (acc @ [pl]) g1 = (Inr res, g')"
    using Cons.prems l by (auto split: prod.splits sum.splits)
  obtain new where n: "res = (acc @ [pl]) @ new" "list_all2 (\<lambda>l pl. map_entry (g_maps g') (fst l) pl) ls new"
    "maps_kept (g_maps g1) (g_maps g')" using Cons.IH[OF m(2)] by blast
  note e = mapBlob_entry[OF m(1)]
  have "map_entry (g_maps g') d pl" "maps_kept (g_maps g) (g_maps g')"
    using e n(3) map_entry_kept maps_kept_trans by blast+
  then show ?case using n l by (intro exI[of _ "pl # new"]) auto
qed (auto simp: maps_kept_refl)

text \<open>
  C5: Loading an image that succeeds hands the wapp one mapping for each layer of the entry its name
  resolves to, the topmost layer first, and each is the shared mapping of the blob the entry's
  record names at that place.
\<close>

theorem load_maps_layers:
  assumes "registry_core P media ok view mapped" "reg_state P media ok view mapped g" "g_ready g"
    "RegistryLoad P (Some e) g = (Inr w, g')"
  shows "\<exists>key meta. resolve P g (keyFromEntry e) = Inr (key, meta) \<and>
    list_all2 (\<lambda>d pl. map_entry (g_maps g') d pl) (rev (meta_digests meta)) (zip (w_layers w) (w_lens w)) \<and>
    length (w_layers w) = unat (m_layerCount meta) \<and> length (w_lens w) = unat (m_layerCount meta) \<and>
    w_image w = strncpy_buf WAPP_MAX_NAME_LEN (k_name key) \<and> w_version w = strncpy_buf WAPP_MAX_VERSION_LEN (k_version key)"
proof -
  have inv: "reg_inv P ok view mapped g" using assms(2,3) by (simp add: reg_state_def)
  obtain key meta ls where m: "resolve P g (keyFromEntry e) = Inr (key, meta)"
    "map_layers P (rev (take (unat (m_layerCount meta)) (zip (m_layerDigest meta) (m_layerLen meta)))) [] g = (Inr ls, g')"
    "w = \<lparr>w_layers = map fst ls, w_lens = map snd ls, w_image = strncpy_buf WAPP_MAX_NAME_LEN (k_name key),
       w_version = strncpy_buf WAPP_MAX_VERSION_LEN (k_version key)\<rparr>"
    using assms(3,4) by (auto simp: RegistryLoad_def ensureReady_def mapLayersLocked_def Let_def split: sum.splits prod.splits)
  have mo: "meta_ok (c_maxl P) meta" by (rule registry_core.resolve_entry(3)[OF assms(1) inv m(1)])
  have la: "list_all2 (\<lambda>l pl. map_entry (g_maps g') (fst l) pl) (rev (take (unat (m_layerCount meta)) (zip (m_layerDigest meta) (m_layerLen meta)))) ls"
    using map_layers_entry[OF m(2)] by auto
  have "map fst (rev (take (unat (m_layerCount meta)) (zip (m_layerDigest meta) (m_layerLen meta)))) = rev (meta_digests meta)"
    using mo by (simp add: rev_map[symmetric] meta_digests_def take_zip meta_ok_def)
  then have "list_all2 (\<lambda>d pl. map_entry (g_maps g') d pl) (rev (meta_digests meta)) ls"
    using la by (metis list_all2_map1)
  moreover have "zip (map fst ls) (map snd ls) = ls" by (rule zip_map_fst_snd)
  moreover have "length ls = unat (m_layerCount meta)"
    using list_all2_lengthD[OF la] mo by (simp add: meta_ok_def)
  ultimately show ?thesis using m by auto
qed

text \<open>
  C7: Removing takes away exactly the record the entry resolves to and no other; a record marked as
  provided by the firmware is refused with \<open>EPERM\<close> and nothing changes; a removal that fails leaves
  every record in place.
\<close>

theorem remove_exact:
  assumes "registry_core P media ok view mapped" "reg_state P media ok view mapped g" "g_ready g"
    "g_stores g = p # ps" "RegistryRemove P (Some e) g = (r, g')"
  shows "\<exists>q qs. g_stores g' = q # qs \<and>
    (case r of
       Inl err \<Rightarrow> v_recs (view q) = v_recs (view p)
     | Inr u \<Rightarrow> (\<exists>key meta. resolve P g (keyFromEntry e) = Inr (key, meta) \<and>
         m_flags meta AND REGISTRY_META_SEEDED = 0 \<and> v_recs (view q) = (v_recs (view p))(key := None))) \<and>
    ((\<exists>key meta. resolve P g (keyFromEntry e) = Inr (key, meta) \<and> m_flags meta AND REGISTRY_META_SEEDED \<noteq> 0) \<and>
       op_recDel (c_ops P) p key_zero \<noteq> None \<longrightarrow> r = Inl EPERM \<and> g' = g)"
proof -
  have inv: "reg_inv P ok view mapped g" using assms(2,3) by (simp add: reg_state_def)
  have er: "ensureReady P g = g" using assms(3) by (rule ensureReady_id)
  have pr: "primary g = Some p" using assms(4) by (simp add: primary_def)
  have okp: "ok p" using inv assms(4) by (simp add: reg_inv_def)
  show ?thesis
  proof (cases "\<exists>key meta r1 q. resolve P g (keyFromEntry e) = Inr (key, meta) \<and> m_flags meta AND REGISTRY_META_SEEDED = 0 \<and>
      op_recDel (c_ops P) p key_zero \<noteq> None \<and> op_recDel (c_ops P) p key = Some (r1, q)")
    case False
    then have "g' = g" "\<exists>err. r = Inl err" "(\<exists>key meta. resolve P g (keyFromEntry e) = Inr (key, meta) \<and> m_flags meta AND REGISTRY_META_SEEDED \<noteq> 0) \<and>
       op_recDel (c_ops P) p key_zero \<noteq> None \<longrightarrow> r = Inl EPERM"
      using assms(5) er pr by (auto simp: RegistryRemove_def Let_def split: if_splits sum.splits option.splits)
    then show ?thesis using assms(4) by auto
  next
    case True
    then obtain key meta r1 q where c: "resolve P g (keyFromEntry e) = Inr (key, meta)" "m_flags meta AND REGISTRY_META_SEEDED = 0"
      "op_recDel (c_ops P) p key_zero \<noteq> None" "op_recDel (c_ops P) p key = Some (r1, q)" by blast
    have ko: "key_ok key" by (rule registry_core.resolve_entry(1)[OF assms(1) inv c(1)])
    note law = registry_store.recDel_law[OF registry_core.axioms(1)[OF assms(1)] okp ko c(4)]
    show ?thesis
    proof (cases r1)
      case (Inl err)
      then have "g' = set_primary q g" "r = Inl err" using assms(5) er pr c by (auto simp: RegistryRemove_def)
      then show ?thesis using law Inl assms(4) c by (auto simp: set_primary_def)
    next
      case (Inr u)
      let ?g1 = "(set_primary q g)\<lparr>g_visible := None\<rparr>"
      have g': "g' = dropAllIfFree P (meta_digests meta) ?g1" "r = Inr ()" using assms(5) er pr c Inr by (auto simp: RegistryRemove_def)
      have "\<forall>s \<in> set (g_stores ?g1). ok s" using inv law assms(4) by (auto simp: set_primary_def reg_inv_def)
      from registry_core.dropAllIfFree_trim[OF assms(1) this, of "meta_digests meta"] obtain ss' where
        t: "dropAllIfFree P (meta_digests meta) ?g1 = ?g1\<lparr>g_stores := ss'\<rparr>"
        "list_all2 (trimmed ok view mapped (listed view (c_maxl P) (g_stores ?g1) \<union> staged (g_pending ?g1) \<union> mapped_digests (g_maps ?g1))) (g_stores ?g1) ss'"
        by blast
      obtain q2 qs where "ss' = q2 # qs" "v_recs (view q2) = v_recs (view q)"
        using t(2) assms(4) by (auto simp: set_primary_def list_all2_Cons1 trimmed_def)
      then show ?thesis using g' t(1) law Inr c by auto
    qed
  qed
qed

section \<open>Walking the blobs\<close>

lemma visible_loop_spec:
  assumes "distinct bs" "length bs \<le> REGISTRY_MAX_BLOBS" "\<forall>d \<in> set bs. blobPresent P g d"
  shows "distinct (visible_loop P g bs ds) \<and> length (visible_loop P g bs ds) \<le> REGISTRY_MAX_BLOBS \<and>
    set (visible_loop P g bs ds) \<subseteq> set bs \<union> {d \<in> set ds. blobPresent P g d} \<and>
    (length (visible_loop P g bs ds) < REGISTRY_MAX_BLOBS \<longrightarrow>
      set (visible_loop P g bs ds) = set bs \<union> {d \<in> set ds. blobPresent P g d})"
  using assms
proof (induction ds arbitrary: bs)
  case (Cons d ds)
  show ?case
  proof (cases "d \<in> set bs \<or> \<not> blobPresent P g d")
    case True
    then show ?thesis using Cons.IH[OF Cons.prems] Cons.prems(3) by auto
  next
    case False
    show ?thesis
    proof (cases "length bs = REGISTRY_MAX_BLOBS")
      case True
      then show ?thesis using False Cons.prems by auto
    next
      case len: False
      have "distinct (bs @ [d])" "length (bs @ [d]) \<le> REGISTRY_MAX_BLOBS" "\<forall>x \<in> set (bs @ [d]). blobPresent P g x"
        using False len Cons.prems by auto
      from Cons.IH[OF this] show ?thesis using False len by auto
    qed
  qed
qed auto

lemma blobLookup_iff:
  "blobLookup P g d \<noteq> None \<longleftrightarrow> d \<in> set (concat (map meta_digests (listed_metas P g))) \<and> blobPresent P g d"
proof -
  have "meta_len m d \<noteq> None \<longleftrightarrow> d \<in> set (meta_digests m)" for m
    by (auto simp: meta_len_def find_idx_None)
  then have "concat (map (\<lambda>m. case meta_len m d of None \<Rightarrow> [] | Some l \<Rightarrow> [l]) (listed_metas P g)) \<noteq> [] \<longleftrightarrow>
      (\<exists>m \<in> set (listed_metas P g). d \<in> set (meta_digests m))"
    by (auto split: option.splits)
  then show ?thesis by (auto simp: blobLookup_def Let_def)
qed

text \<open>
  C8: A walk of the blobs from index 0 names each blob once, at most \<open>MAX_BLOBS\<close> of them, and names only
  blobs \<open>RegistryBlobInfo\<close> describes; where fewer than that are listed it names them all.
\<close>

theorem blob_walk:
  assumes "g_ready g" "RegistryBlobAt P 0 g = (r, g')"
  shows "\<exists>vs. g_visible g' = Some vs \<and> distinct vs \<and> length vs \<le> REGISTRY_MAX_BLOBS \<and>
    r = (if vs = [] then Inl ENOENT else Inr (hd vs)) \<and>
    (\<forall>n > 0. RegistryBlobAt P n g' = (if n < length vs then Inr (vs ! n) else Inl ENOENT, g')) \<and>
    (\<forall>d. d \<in> set vs \<longrightarrow> fst (RegistryBlobInfo P (Some d) g) \<noteq> Inl ENOENT) \<and>
    (length vs < REGISTRY_MAX_BLOBS \<longrightarrow> (\<forall>d. fst (RegistryBlobInfo P (Some d) g) \<noteq> Inl ENOENT \<longrightarrow> d \<in> set vs))"
proof -
  let ?vs = "visibleBlobs P g"
  have sp: "distinct ?vs" "length ?vs \<le> REGISTRY_MAX_BLOBS" "set ?vs \<subseteq> {d. blobLookup P g d \<noteq> None}"
    "length ?vs < REGISTRY_MAX_BLOBS \<longrightarrow> set ?vs = {d. blobLookup P g d \<noteq> None}"
    using visible_loop_spec[of "[]" P g "concat (map meta_digests (listed_metas P g))"]
    unfolding blobLookup_iff visibleBlobs_def by auto
  have er: "ensureReady P g = g" "ensureReady P (g\<lparr>g_visible := v\<rparr>) = g\<lparr>g_visible := v\<rparr>" for v
    using assms(1) by (simp_all add: ensureReady_def)
  have g': "g' = g\<lparr>g_visible := Some ?vs\<rparr>" "r = (if ?vs = [] then Inl ENOENT else Inr (hd ?vs))"
    using assms(2) er by (auto simp: RegistryBlobAt_def Let_def hd_conv_nth split: option.splits if_splits)
  have bi: "fst (RegistryBlobInfo P (Some d) g) \<noteq> Inl ENOENT \<longleftrightarrow> blobLookup P g d \<noteq> None" for d
    using er by (auto simp: RegistryBlobInfo_def Let_def split: option.splits)
  show ?thesis
  proof (intro exI[of _ ?vs] conjI)
    show "\<forall>n > 0. RegistryBlobAt P n g' = (if n < length ?vs then Inr (?vs ! n) else Inl ENOENT, g')"
      using er by (auto simp: RegistryBlobAt_def Let_def g')
  qed (use sp bi g' in auto)
qed

section \<open>Examples\<close>

text \<open>
  A registry on a small in-memory store, with a stand-in for the digest that keeps the bytes
  themselves.
\<close>

definition demo_env :: "mem_store reg_env" where
  "demo_env = \<lparr>c_ops = mem_ops, c_maxl = 1, c_sha = (\<lambda>bs. take 32 (bs @ replicate 32 0))\<rparr>"

definition demo_store :: "nat \<Rightarrow> mem_store" where
  "demo_store n = \<lparr>ms_blobs = replicate n blob_zero, ms_recs = replicate n rec_zero, ms_usedBytes = 0,
     ms_limit = 0, ms_failList = False, ms_stages = Map.empty, ms_next = 1, ms_mallocs = []\<rparr>"

definition demo_boot :: "mem_store registry" where
  "demo_boot = registry_boot (c_maxl demo_env) 2 [demo_store 2]"

definition demo_ready :: "mem_store registry" where
  "demo_ready = RegistryInit demo_env demo_boot"

definition demo_entry :: reg_entry where
  "demo_entry = \<lparr>e_name = ''a'', e_version = [], e_size = 0\<rparr>"

lemma demo_core: "registry_core demo_env mem_ok mem_ok mem_view mem_mapped"
  by (intro registry_core.intro registry_core_axioms.intro)
    (simp_all add: demo_env_def mem.registry_store_axioms REGISTRY_META_DIGEST_LEN_def REGISTRY_RECORD_ABS_MAX_LAYERS_def)

lemma demo_store_empty:
  "mem_ok (demo_store n)" "v_blobs (mem_view (demo_store n)) d = None" "v_recs (mem_view (demo_store n)) k = None"
  by (simp_all add: mem_ok_def demo_store_def tab_uniq_def blob_zero_def rec_zero_def mem_view_def tab_map_def find_idx_None)

lemma demo_media:
  "\<forall>s \<in> set [demo_store 2]. mem_ok s \<and> intact (c_sha demo_env) (mem_view s)"
  "listed mem_view (c_maxl demo_env) [demo_store 2] \<subseteq> stored mem_view [demo_store 2]"
  by (auto simp: demo_store_empty intact_def listed_def)

lemma demo_ready_state: "reg_state demo_env mem_ok mem_ok mem_view mem_mapped demo_ready" "reg_reach demo_env demo_boot demo_ready"
proof -
  have "start_ok demo_env demo_boot" by (simp add: start_ok_def demo_boot_def registry_boot_def demo_env_def mem_ops_def)
  then show r: "reg_reach demo_env demo_boot demo_ready"
    unfolding demo_ready_def by (intro reg_reach.step[OF reg_reach.start] reg_step.init)
  show "reg_state demo_env mem_ok mem_ok mem_view mem_mapped demo_ready"
    by (rule boot_reach[OF demo_core demo_media r[unfolded demo_boot_def]])
qed

definition demo_installed :: "mem_store registry" where
  "demo_installed = the (install_image demo_env None ''a:1'' [1] [[2, 3]] demo_ready)"

lemma demo_install: "install_image demo_env None ''a:1'' [1] [[2, 3]] demo_ready = Some demo_installed"
proof -
  have "install_image demo_env None ''a:1'' [1] [[2, 3]] demo_ready \<noteq> None" by code_simp
  then show ?thesis by (simp add: demo_installed_def)
qed

lemma write_reach:
  assumes "reg_reach P g0 g" "g_ready g" "RegistryWrite P shaOk now s ref buf g = (r, g')"
  shows "reg_reach P g0 g' \<and> g_ready g'"
proof -
  have "reg_step P g (snd (RegistryWrite P shaOk now s ref buf g))"
    using assms(2) by (intro reg_step.plain_write) (simp add: start_ok_def)
  moreover have "g_ready g'"
    using assms(2,3) ready_writeLayer[of P shaOk now s ref 0 True buf g r g'] by (simp add: RegistryWrite_def ensureReady_id)
  ultimately show ?thesis using assms(1,3) reg_reach.step by fastforce
qed

lemma chunks_reach: "write_chunks P now cs g = Some g' \<Longrightarrow> reg_reach P g0 g \<Longrightarrow> g_ready g \<Longrightarrow> reg_reach P g0 g' \<and> g_ready g'"
proof (induction cs arbitrary: g)
  case (Cons c cs)
  obtain r g1 where w: "RegistryWrite P True now CONTINUE_WRITE None (Some c) g = (r, g1)" "write_chunks P now cs g1 = Some g'"
    using Cons.prems(1) by (auto split: prod.splits sum.splits if_splits)
  show ?case using Cons.IH[OF w(2)] write_reach[OF Cons.prems(2,3) w(1)] by simp
qed simp

lemma install_reach:
  assumes "install_image P now ref c cs g = Some g'" "reg_reach P g0 g" "g_ready g"
  shows "reg_reach P g0 g' \<and> g_ready g'"
proof -
  obtain r g1 g2 r3 where w: "RegistryWrite P True now START_WRITE (Some ref) (Some c) g = (r, g1)"
    "write_chunks P now cs g1 = Some g2" "RegistryWrite P True now FINISH_WRITE None None g2 = (r3, g')"
    using assms(1) by (auto simp: install_image_def split: prod.splits sum.splits if_splits option.splits)
  have "reg_reach P g0 g1 \<and> g_ready g1" by (rule write_reach[OF assms(2,3) w(1)])
  then have "reg_reach P g0 g2 \<and> g_ready g2" using chunks_reach[OF w(2)] by blast
  then show ?thesis using write_reach[OF _ _ w(3)] by blast
qed

lemma demo_ready_ready: "g_ready demo_ready" "g_pending demo_ready \<noteq> []"
  by code_simp+

lemma demo_installed_reach: "reg_reach demo_env demo_boot demo_installed" "g_ready demo_installed"
  using install_reach[OF demo_install demo_ready_state(2) demo_ready_ready(1)] by auto

lemma demo_installed_state: "reg_state demo_env mem_ok mem_ok mem_view mem_mapped demo_installed"
  by (rule boot_reach[OF demo_core demo_media demo_installed_reach(1)[unfolded demo_boot_def]])

theorem registry_no_dangling_witness:
  "listed mem_view (c_maxl demo_env) (g_stores demo_installed) \<union> staged (g_pending demo_installed) \<subseteq>
   stored mem_view (g_stores demo_installed) \<union> resident_digests (g_resident demo_installed)"
  by (rule registry_no_dangling[OF demo_core demo_media demo_installed_reach(1)[unfolded demo_boot_def]])

definition demo_loaded :: "mem_store registry" where
  "demo_loaded = snd (RegistryLoad demo_env (Some demo_entry) demo_installed)"

lemma demo_loaded_reach: "reg_reach demo_env demo_boot demo_loaded"
  unfolding demo_loaded_def
  by (intro reg_reach.step[OF demo_installed_reach(1)] reg_step.load) (simp add: start_ok_def demo_installed_reach(2))


definition demo_meta1 :: registry_meta where
  "demo_meta1 = snd (projr (resolve demo_env demo_installed \<lparr>k_name = ''a'', k_version = []\<rparr>))"


definition demo_staged :: "mem_store registry" where
  "demo_staged = snd (RegistryWriteLayer demo_env True None FINISH_WRITE None 0 None
     (snd (RegistryWriteLayer demo_env True None START_WRITE (Some ''b:2'') 0 (Some [4, 5]) demo_installed)))"

lemma demo_staged_reach: "reg_reach demo_env demo_boot demo_staged" "g_ready demo_staged"
proof -
  let ?g1 = "snd (RegistryWriteLayer demo_env True None START_WRITE (Some ''b:2'') 0 (Some [4, 5]) demo_installed)"
  have r: "g_ready ?g1" by code_simp
  show "g_ready demo_staged" by code_simp
  have "reg_reach demo_env demo_boot ?g1"
    by (intro reg_reach.step[OF demo_installed_reach(1)] reg_step.write_layer) (simp add: start_ok_def demo_installed_reach(2))
  then show "reg_reach demo_env demo_boot demo_staged"
    unfolding demo_staged_def by (rule reg_reach.step) (intro reg_step.write_layer, simp add: start_ok_def r)
qed

lemma demo_staged_state: "reg_state demo_env mem_ok mem_ok mem_view mem_mapped demo_staged"
  by (rule boot_reach[OF demo_core demo_media demo_staged_reach(1)[unfolded demo_boot_def]])


theorem install_publishes_witness:
  "\<exists>q qs rec m. g_stores demo_installed = q # qs \<and> v_recs (mem_view q) \<lparr>k_name = ''a'', k_version = ''1''\<rparr> = Some rec \<and>
     RegistryRecordDecode (c_maxl demo_env) rec = Some m \<and> meta_digests m = [c_sha demo_env [1, 2, 3]] \<and> m_size m = 3"
proof -
  have p: "parseRef (Some ''a:1'') = Inr \<lparr>k_name = ''a'', k_version = ''1''\<rparr>" by code_simp
  show ?thesis
    using install_publishes[OF demo_core demo_ready_state(1) demo_ready_ready p demo_install, of "[1, 2, 3]"] by auto
qed

theorem load_maps_layers_witness:
  "\<exists>w. fst (RegistryLoad demo_env (Some demo_entry) demo_installed) = Inr w \<and> length (w_layers w) = 1 \<and> w_version w = ''1''"
proof -
  let ?w = "projr (fst (RegistryLoad demo_env (Some demo_entry) demo_installed))"
  have l: "fst (RegistryLoad demo_env (Some demo_entry) demo_installed) = Inr ?w" by code_simp
  then have e: "RegistryLoad demo_env (Some demo_entry) demo_installed = (Inr ?w, demo_loaded)"
    by (metis demo_loaded_def prod.collapse)
  have k: "resolve demo_env demo_installed (keyFromEntry demo_entry) = Inr (\<lparr>k_name = ''a'', k_version = ''1''\<rparr>, demo_meta1)" by code_simp
  have n: "m_layerCount demo_meta1 = 1" by code_simp
  show ?thesis using load_maps_layers[OF demo_core demo_installed_state demo_installed_reach(2) e] k n l
    by (auto simp: strncpy_buf_def WAPP_MAX_VERSION_LEN_def)
qed

theorem remove_exact_witness:
  "\<exists>q qs. g_stores (snd (RegistryRemove demo_env (Some demo_entry) demo_installed)) = q # qs \<and>
     v_recs (mem_view q) \<lparr>k_name = ''a'', k_version = ''1''\<rparr> = None"
proof -
  obtain r g' where c: "RegistryRemove demo_env (Some demo_entry) demo_installed = (r, g')" by fastforce
  have "fst (RegistryRemove demo_env (Some demo_entry) demo_installed) = Inr ()" by code_simp
  then have c': "RegistryRemove demo_env (Some demo_entry) demo_installed = (Inr (), g')" using c by simp
  have "length (g_stores demo_installed) = 1" by code_simp
  then have "g_stores demo_installed = hd (g_stores demo_installed) # tl (g_stores demo_installed)"
    by (cases "g_stores demo_installed") auto
  from remove_exact[OF demo_core demo_installed_state demo_installed_reach(2) this c']
  obtain q qs key meta where q: "g_stores g' = q # qs" "resolve demo_env demo_installed (keyFromEntry demo_entry) = Inr (key, meta)"
    "v_recs (mem_view q) = (v_recs (mem_view (hd (g_stores demo_installed))))(key := None)" by auto
  have k: "resolve demo_env demo_installed (keyFromEntry demo_entry) = Inr (\<lparr>k_name = ''a'', k_version = ''1''\<rparr>, demo_meta1)" by code_simp
  show ?thesis using q k by (simp add: c')
qed

theorem blob_walk_witness:
  "\<exists>vs. g_visible (snd (RegistryBlobAt demo_env 0 demo_installed)) = Some vs \<and> distinct vs \<and> vs \<noteq> []"
proof -
  obtain r g' where c: "RegistryBlobAt demo_env 0 demo_installed = (r, g')" by fastforce
  have "fst (RegistryBlobAt demo_env 0 demo_installed) \<noteq> Inl ENOENT" by code_simp
  then show ?thesis using blob_walk[OF demo_installed_reach(2) c] c by auto
qed

section \<open>What goes wrong\<close>


text \<open>A store with \<open>n\<close> records, and a registry on it with a resident image and a staged layer.\<close>

definition demo_recs :: "nat \<Rightarrow> mem_rec list" where
  "demo_recs n = map (\<lambda>i. \<lparr>r_used = True, r_key = \<lparr>k_name = ''n'', k_version = dec_string i\<rparr>, r_data = []\<rparr>) [0..<n]"

definition demo_full :: "nat \<Rightarrow> mem_store registry" where
  "demo_full n = (registry_boot 1 2 [(demo_store 1)\<lparr>ms_recs := demo_recs n @ [rec_zero]\<rparr>])
     \<lparr>g_ready := True,
      g_pending := [\<lparr>pe_used = True, pe_key = \<lparr>k_name = ''r'', k_version = ''1''\<rparr>, pe_index = 0,
        pe_digest = c_sha demo_env [4, 5], pe_len = 2, pe_order = 1\<rparr>],
      g_resident := [\<lparr>re_used = True, re_key = \<lparr>k_name = ''r'', k_version = ''1''\<rparr>, re_addr = 7, re_data = [9],
        re_created = 0, re_digest = c_sha demo_env [9]\<rparr>]\<rparr>"

lemma find_idx_append:
  "find_idx Q (xs @ ys) = (case find_idx Q xs of Some i \<Rightarrow> Some i | None \<Rightarrow> map_option (\<lambda>i. length xs + i) (find_idx Q ys))"
  proof (induction xs)
  case Nil
  have "(+) (0 :: nat) = id" by auto
  then show ?case by (simp add: option.map_id)
next
  case (Cons x xs)
  then show ?case by (auto split: option.splits simp: option.map_comp o_def intro!: option.map_cong)
qed

lemma demo_recs_used: "filter r_used (demo_recs n) = demo_recs n" "length (demo_recs n) = n"
  by (simp_all add: demo_recs_def)

lemma demo_recs_find:
  "findRec ((demo_store 1)\<lparr>ms_recs := demo_recs n @ [rec_zero]\<rparr>) \<lparr>k_name = ''r'', k_version = ''1''\<rparr> = None"
  "find_idx (\<lambda>r. \<not> r_used r) (demo_recs n @ [rec_zero]) = Some n"
proof -
  have "find_idx (\<lambda>r. \<not> r_used r) (demo_recs n) = None" by (auto simp: find_idx_None demo_recs_def)
  then show "find_idx (\<lambda>r. \<not> r_used r) (demo_recs n @ [rec_zero]) = Some n"
    by (simp add: find_idx_append demo_recs_used rec_zero_def)
  show "findRec ((demo_store 1)\<lparr>ms_recs := demo_recs n @ [rec_zero]\<rparr>) \<lparr>k_name = ''r'', k_version = ''1''\<rparr> = None"
    by (auto simp: findRec_def find_idx_None demo_recs_def rec_zero_def REGISTRY_KEY_NAME_LEN_def numeral_eq_Suc)
qed

lemma demo_full_count: "recordCount demo_env (demo_full n) = int n"
  by (simp add: recordCount_def primary_def demo_full_def registry_boot_def demo_env_def mem_ops_def mem_RecList_def
      demo_store_def demo_recs_used rec_zero_def)

lemma demo_full_get: "recGet demo_env (demo_full n) \<lparr>k_name = ''r'', k_version = ''1''\<rparr> = Inl ENOENT"
  using demo_recs_find(1)[of n]
  by (simp add: recGet_def primary_def demo_full_def registry_boot_def demo_env_def mem_ops_def mem_RecGet_def)

lemma demo_full_put:
  assumes "RegistryRecordEncode (c_maxl demo_env) meta REGISTRY_RECORD_MAX \<noteq> []"
  shows "\<exists>g2. writeMeta demo_env \<lparr>k_name = ''r'', k_version = ''1''\<rparr> meta (syncSeq demo_env (demo_full n)) = (Inr (), g2)"
proof -
  obtain q where q: "syncSeq demo_env (demo_full n) = (demo_full n)\<lparr>g_seq := q\<rparr>"
    using registry_core.syncSeq_frame[OF demo_core] by blast
  show ?thesis unfolding q using assms demo_recs_find[of n]
    by (simp add: writeMeta_def primary_def demo_full_def registry_boot_def demo_env_def mem_ops_def mem_RecPut_def
        mem_malloc_def demo_store_def Let_def set_primary_def)
qed


text \<open>
  Once a store has more than \<open>REGISTRY_MAX_ENTRIES\<close> records, nothing is ever freed again: neither
  a replaced nor a removed entry's blobs, nor at a restart.
\<close>

theorem over_limit_frees_nothing:
  assumes "recordCount P g > int REGISTRY_MAX_ENTRIES"
  shows "dropAllIfFree P ds g = g \<and> reclaim P g = g\<lparr>g_visible := None\<rparr>"
proof -
  have "listedDigests P g = None" using assms
    by (auto simp: recordCount_def listedDigests_def split: option.splits sum.splits)
  moreover have "listedDigests P (g\<lparr>g_visible := None\<rparr>) = listedDigests P g"
    by (simp add: listedDigests_def primary_def)
  ultimately show ?thesis by (simp add: dropAllIfFree_def reclaim_def)
qed

theorem over_limit_frees_nothing_witness:
  "dropAllIfFree demo_env [c_sha demo_env [4, 5]] (demo_full 51) = demo_full 51"
  using over_limit_frees_nothing[of demo_env "demo_full 51" "[c_sha demo_env [4, 5]]"]
  by (simp add: demo_full_count REGISTRY_MAX_ENTRIES_def)

definition demo_linked :: "mem_store registry" where
  "demo_linked = snd (RegistryCommit demo_env None (Some ''b:1'') 1 None
     (snd (RegistryLinkLayer demo_env (Some ''b:1'') 0 (c_sha demo_env [9])
       (snd (RegistryAddResident demo_env True (Some ''r:1'') (Some (7, [9])) 0 demo_boot)))))"


end
