(* ===== verification/TarFs.thy ===== *)
theory TarFs
  imports VfsDir "HOL-Library.Char_ord" "HOL-Library.List_Lexorder" "HOL-Library.Multiset" "HOL-Library.Sublist"
begin

text \<open>
  The image filesystem (\<open>src/vfs/vfs-tarfs.c\<close>): the scan of the tar layers of an image into one sorted
  index, lookups by binary search, reads, seeks and directory listings.

  A layer is the list of its bytes and a path the string up to its NUL.  An index entry keeps its path
  itself and whether the code's pointer to it leads into the path pool.  The answers of the allocator
  are a list in the context.  A result \<open>None\<close> says that the code does not return properly: it loops, or it
  reads or writes outside its buffers.  The pool moves when it grows, so growing it while an index
  entry points into it gives \<open>None\<close> too: the index then refers to freed memory, which the next search
  or sort reads.  Sizes are those of a 64-bit build.
\<close>

section \<open>Strings and numbers\<close>

definition str_of :: "byte list \<Rightarrow> string" where
  "str_of bs = map (\<lambda>b. char_of (unat b)) bs"

text \<open>The C string that starts at the first of the bytes; \<open>None\<close> when no NUL ends it.\<close>

definition cstr :: "byte list \<Rightarrow> string option" where
  "cstr bs = (if 0 \<in> set bs then Some (str_of (takeWhile (\<lambda>b. b \<noteq> 0) bs)) else None)"

text \<open>The string of at most \<open>n\<close> bytes: \<open>strnlen(s, n)\<close> is its length.\<close>

definition strn :: "nat \<Rightarrow> byte list \<Rightarrow> string" where
  "strn n bs = str_of (takeWhile (\<lambda>b. b \<noteq> 0) (take n bs))"

fun strcmp :: "string \<Rightarrow> string \<Rightarrow> int" where
  "strcmp [] [] = 0"
| "strcmp [] (b # bs) = -1"
| "strcmp (a # as) [] = 1"
| "strcmp (a # as) (b # bs) = (if a = b then strcmp as bs else if (of_char a :: nat) < of_char b then -1 else 1)"

definition TAR_BLOCK_SIZE :: nat where "TAR_BLOCK_SIZE = 512"
definition TARFS_WHITEOUT :: "16 word" where "TARFS_WHITEOUT = 0xFFFF"
definition TARFS_OPAQUE :: "16 word" where "TARFS_OPAQUE = 0xFFFE"
definition OPAQUE_NAME :: string where "OPAQUE_NAME = ''.wh..wh..opq''"
definition PROBE_MAX :: nat where "PROBE_MAX = 512"
definition TAR_NAME_LEN :: nat where "TAR_NAME_LEN = 100"
definition TAR_SIZE_OFFSET :: nat where "TAR_SIZE_OFFSET = 124"
definition TAR_SIZE_LEN :: nat where "TAR_SIZE_LEN = 12"
definition TAR_TYPEFLAG_OFFSET :: nat where "TAR_TYPEFLAG_OFFSET = 156"
definition TAR_PREFIX_OFFSET :: nat where "TAR_PREFIX_OFFSET = 345"
definition INDEX_INIT_CAP :: "16 word" where "INDEX_INIT_CAP = 16"
definition OWNED_INIT_CAP :: "16 word" where "OWNED_INIT_CAP = 4"
definition PATH_POOL_INIT_CAP :: nat where "PATH_POOL_INIT_CAP = 256"

lemmas tar_consts = TAR_BLOCK_SIZE_def TAR_NAME_LEN_def TAR_SIZE_OFFSET_def TAR_SIZE_LEN_def
  TAR_TYPEFLAG_OFFSET_def TAR_PREFIX_OFFSET_def

fun octal_loop :: "u32 \<Rightarrow> byte list \<Rightarrow> u32" where
  "octal_loop v [] = v"
| "octal_loop v (b # bs) =
     (if 0x30 \<le> b \<and> b \<le> 0x37 then octal_loop (push_bit 3 v OR ucast (b - 0x30)) bs else v)"

definition parseOctal :: "byte list \<Rightarrow> nat \<Rightarrow> u32" where
  "parseOctal s n = octal_loop 0 (take n s)"

definition alignUp512 :: "nat \<Rightarrow> nat" where
  "alignUp512 n = (n + (TAR_BLOCK_SIZE - 1)) div TAR_BLOCK_SIZE * TAR_BLOCK_SIZE"

definition isZeroBlock :: "byte list \<Rightarrow> bool" where
  "isZeroBlock b = list_all (\<lambda>x. x = 0) (take TAR_BLOCK_SIZE b)"

section \<open>PAX records\<close>

definition is_digit :: "byte \<Rightarrow> bool" where
  "is_digit b \<longleftrightarrow> 0x30 \<le> b \<and> b \<le> 0x39"

text \<open>Decimal digits as a \<open>size_t\<close> and as a \<open>uint32_t\<close>; both wrap.\<close>

definition dec_u64 :: "byte list \<Rightarrow> u64" where
  "dec_u64 ds = foldl (\<lambda>n b. n * 10 + ucast (b - 0x30)) 0 ds"

definition dec_u32 :: "byte list \<Rightarrow> u32" where
  "dec_u32 ds = foldl (\<lambda>n b. n * 10 + ucast (b - 0x30)) 0 ds"

definition pax_key :: "string \<Rightarrow> byte list" where
  "pax_key s = map (\<lambda>c. of_nat (of_char c)) s"

text \<open>
  The loop of \<open>parsePaxData\<close> from \<open>pos\<close>: the value of the last \<open>path\<close> and of the last \<open>size\<close> record.
  The end of a record is a sum of \<open>size_t\<close> values and wraps.
\<close>

partial_function (option) pax_loop :: "byte list \<Rightarrow> nat \<Rightarrow> byte list option \<Rightarrow> u32 \<Rightarrow> (byte list option \<times> u32) option" where
  "pax_loop data pos path sz =
     (if pos < length data then
        let ds = takeWhile is_digit (drop pos data); rec_len = dec_u64 ds; p1 = pos + length ds in
        if rec_len = 0 \<or> p1 \<ge> length data \<or> data ! p1 \<noteq> 0x20 then Some (path, sz)
        else
          let rec_end = unat (of_nat pos + rec_len :: u64) in
          if rec_end > length data then Some (path, sz)
          else
            let key = takeWhile (\<lambda>b. b \<noteq> 0x3d \<and> b \<noteq> 0x0a) (take (rec_end - (p1 + 1)) (drop (p1 + 1) data));
                p2 = p1 + 1 + length key in
            if p2 \<ge> rec_end \<or> data ! p2 \<noteq> 0x3d then pax_loop data rec_end path sz
            else
              let val_len = (if rec_end - 1 > p2 + 1 then rec_end - 1 - (p2 + 1) else 0);
                  val = take val_len (drop (p2 + 1) data) in
              if key = pax_key ''path'' then pax_loop data rec_end (Some val) sz
              else if key = pax_key ''size'' then pax_loop data rec_end path (dec_u32 (takeWhile is_digit val))
              else pax_loop data rec_end path sz
      else Some (path, sz))"

declare pax_loop.simps [code]

definition parsePaxData :: "byte list \<Rightarrow> u32 \<Rightarrow> (byte list option \<times> u32) option" where
  "parsePaxData data sz = pax_loop data 0 None sz"

section \<open>Context and index\<close>

record tar_index_entry =
  e_path :: string
  e_pool :: bool
  e_layer :: "16 word"
  e_hdr_offset :: nat
  e_fsize :: u32

record tarfs =
  t_layers :: "byte list list"
  t_index :: "tar_index_entry list"
  t_index_cap :: "16 word"
  t_skipped :: "16 word"
  t_owned_len :: nat
  t_owned_cap :: "16 word"
  t_pool_used :: nat
  t_pool_cap :: nat
  t_entrypoint :: "(nat \<times> nat \<times> u32) option"
  t_mallocs :: "bool list"

definition tarfs_zero :: "byte list list \<Rightarrow> bool list \<Rightarrow> tarfs" where
  "tarfs_zero layers mallocs = \<lparr>t_layers = layers, t_index = [], t_index_cap = 0, t_skipped = 0, t_owned_len = 0,
     t_owned_cap = 0, t_pool_used = 0, t_pool_cap = 0, t_entrypoint = None, t_mallocs = mallocs\<rparr>"

text \<open>\<open>WantedMalloc\<close>: whether it succeeds.\<close>

definition tar_malloc :: "tarfs \<Rightarrow> bool \<times> tarfs" where
  "tar_malloc t = (case t_mallocs t of [] \<Rightarrow> (True, t) | b # bs \<Rightarrow> (b, t\<lparr>t_mallocs := bs\<rparr>))"

function indexContains_loop :: "tar_index_entry list \<Rightarrow> nat \<Rightarrow> nat \<Rightarrow> string \<Rightarrow> bool" where
  "indexContains_loop idx lo hi path =
     (if lo < hi then
        let mid = lo + (hi - lo) div 2; c = strcmp (e_path (idx ! mid)) path in
        if c < 0 then indexContains_loop idx (mid + 1) hi path
        else if c > 0 then indexContains_loop idx lo mid path
        else True
      else False)"
  by pat_completeness auto
termination by (relation "measure (\<lambda>(idx, lo, hi, path). hi - lo)") auto

declare indexContains_loop.simps [simp del]

definition indexContains :: "tar_index_entry list \<Rightarrow> nat \<Rightarrow> string \<Rightarrow> bool" where
  "indexContains idx n path = indexContains_loop idx 0 n path"

function lowerBound_loop :: "tar_index_entry list \<Rightarrow> nat \<Rightarrow> nat \<Rightarrow> string \<Rightarrow> nat" where
  "lowerBound_loop idx lo hi key =
     (if lo < hi then
        let mid = lo + (hi - lo) div 2 in
        if strcmp (e_path (idx ! mid)) key < 0 then lowerBound_loop idx (mid + 1) hi key
        else lowerBound_loop idx lo mid key
      else lo)"
  by pat_completeness auto
termination by (relation "measure (\<lambda>(idx, lo, hi, key). hi - lo)") auto

declare lowerBound_loop.simps [simp del]

definition lowerBound :: "tar_index_entry list \<Rightarrow> nat \<Rightarrow> string \<Rightarrow> nat" where
  "lowerBound idx n key = lowerBound_loop idx 0 n key"

text \<open>
  \<open>growIndex\<close>: the capacity is a \<open>uint16_t\<close>, and doubling 32768 gives 0.  The entries are then copied
  into an array that does not hold them.
\<close>

definition growIndex :: "tarfs \<Rightarrow> (errno + tarfs) option" where
  "growIndex t =
     (let new_cap = (if t_index_cap t \<noteq> 0 then t_index_cap t * 2 else INDEX_INIT_CAP) in
      case tar_malloc t of
        (False, t1) \<Rightarrow> Some (Inl ENOMEM)
      | (True, t1) \<Rightarrow> if length (t_index t) > unat new_cap then None else Some (Inr (t1\<lparr>t_index_cap := new_cap\<rparr>)))"

definition rememberOwned :: "tarfs \<Rightarrow> (errno + tarfs) option" where
  "rememberOwned t =
     (if t_owned_len t = unat (t_owned_cap t) then
        let nc = (if t_owned_cap t \<noteq> 0 then t_owned_cap t * 2 else OWNED_INIT_CAP) in
        (case tar_malloc t of
           (False, t1) \<Rightarrow> Some (Inl ENOMEM)
         | (True, t1) \<Rightarrow>
             if t_owned_len t \<ge> unat nc then None
             else Some (Inr (t1\<lparr>t_owned_cap := nc, t_owned_len := t_owned_len t + 1\<rparr>)))
      else Some (Inr (t\<lparr>t_owned_len := t_owned_len t + 1\<rparr>)))"

function pool_cap_loop :: "nat \<Rightarrow> nat \<Rightarrow> nat" where
  "pool_cap_loop cap need = (if cap = 0 then 0 else if cap < need then pool_cap_loop (cap * 2) need else cap)"
  by pat_completeness auto
termination by (relation "measure (\<lambda>(cap, need). need - cap)") auto

declare pool_cap_loop.simps [simp del]

text \<open>\<open>internPath\<close>: room in the pool for a path of \<open>len\<close> characters and its NUL.\<close>

definition internPath :: "tarfs \<Rightarrow> nat \<Rightarrow> (errno + tarfs) option" where
  "internPath t len =
     (if t_pool_used t + len + 1 > t_pool_cap t then
        let new_cap = pool_cap_loop (if t_pool_cap t \<noteq> 0 then t_pool_cap t * 2 else PATH_POOL_INIT_CAP)
                        (t_pool_used t + len + 1) in
        (case tar_malloc t of
           (False, t1) \<Rightarrow> Some (Inl ENOMEM)
         | (True, t1) \<Rightarrow>
             if list_ex e_pool (t_index t) then None
             else Some (Inr (t1\<lparr>t_pool_cap := new_cap, t_pool_used := t_pool_used t + len + 1\<rparr>)))
      else Some (Inr (t\<lparr>t_pool_used := t_pool_used t + len + 1\<rparr>)))"

section \<open>Indexing a layer\<close>

definition pathBasename :: "string \<Rightarrow> string" where
  "pathBasename path = rev (takeWhile (\<lambda>c. c \<noteq> CHR ''/'') (rev path))"

definition makeWhiteoutTarget :: "string \<Rightarrow> string" where
  "makeWhiteoutTarget path =
     (let base = pathBasename path in take (length path - length base) path @ drop 4 base)"

definition isMarker :: "tar_index_entry \<Rightarrow> bool" where
  "isMarker e \<longleftrightarrow> e_layer e = TARFS_WHITEOUT \<or> e_layer e = TARFS_OPAQUE"

text \<open>The scan of the entries that share the path, from the lower bound on.\<close>

definition indexHasKind :: "tar_index_entry list \<Rightarrow> nat \<Rightarrow> string \<Rightarrow> 16 word \<Rightarrow> bool" where
  "indexHasKind idx n path kind =
     list_ex (\<lambda>e. e_layer e = kind)
       (takeWhile (\<lambda>e. strcmp (e_path e) path = 0) (drop (lowerBound_loop idx 0 n path) (take n idx)))"

definition coveredByNewer :: "tarfs \<Rightarrow> nat \<Rightarrow> string \<Rightarrow> bool" where
  "coveredByNewer t n path \<longleftrightarrow>
     indexContains (t_index t) n path \<or>
     indexHasKind (t_index t) n OPAQUE_NAME TARFS_OPAQUE \<or>
     list_ex (\<lambda>i. path ! i = CHR ''/'' \<and>
        (indexHasKind (t_index t) n (take i path) TARFS_WHITEOUT \<or>
         indexHasKind (t_index t) n (take i path @ CHR ''/'' # OPAQUE_NAME) TARFS_OPAQUE))
       (filter (\<lambda>i. i + (length OPAQUE_NAME + 1) + 1 < PROBE_MAX) [0..<length path])"

text \<open>The part of the loop body that adds an entry the newer layers do not decide.\<close>

definition addEntry :: "tarfs \<Rightarrow> nat \<Rightarrow> nat \<Rightarrow> nat \<Rightarrow> string \<Rightarrow> bool \<Rightarrow> 16 word \<Rightarrow> u32 \<Rightarrow> (errno + tarfs) option" where
  "addEntry t layer sorted_len off path pool kind sz =
     (if coveredByNewer t sorted_len path then Some (Inr t)
      else
        let file = (kind \<noteq> TARFS_WHITEOUT \<and> kind \<noteq> TARFS_OPAQUE);
            t1 = (if file \<and> path = ''app.wasm'' \<and> t_entrypoint t = None
                  then t\<lparr>t_entrypoint := Some (layer, off + TAR_BLOCK_SIZE, sz)\<rparr> else t) in
        case (if length (t_index t1) = unat (t_index_cap t1) then growIndex t1 else Some (Inr t1)) of
          None \<Rightarrow> None
        | Some (Inl e) \<Rightarrow> Some (Inl e)
        | Some (Inr t2) \<Rightarrow>
            Some (Inr (t2\<lparr>t_index := t_index t2 @ [\<lparr>e_path = path, e_pool = pool, e_layer = kind,
              e_hdr_offset = off, e_fsize = sz\<rparr>]\<rparr>)))"

text \<open>A regular entry: a file, a whiteout of the path its name encodes, or an opaque marker.\<close>

definition indexFile :: "tarfs \<Rightarrow> nat \<Rightarrow> nat \<Rightarrow> nat \<Rightarrow> string \<Rightarrow> bool \<Rightarrow> u32 \<Rightarrow> (errno + tarfs) option" where
  "indexFile t layer sorted_len off path pool sz =
     (let base = pathBasename path in
      if base = OPAQUE_NAME then addEntry t layer sorted_len off path pool TARFS_OPAQUE sz
      else if take 4 base = ''.wh.'' \<and> length base > 4 then
        (case tar_malloc t of
           (False, t1) \<Rightarrow> Some (Inl ENOMEM)
         | (True, t1) \<Rightarrow>
             (case rememberOwned t1 of
                None \<Rightarrow> None
              | Some (Inl e) \<Rightarrow> Some (Inl e)
              | Some (Inr t2) \<Rightarrow> addEntry t2 layer sorted_len off (makeWhiteoutTarget path) False TARFS_WHITEOUT sz))
      else addEntry t layer sorted_len off path pool (of_nat layer) sz)"

text \<open>Leading \<open>./\<close> or \<open>/\<close>.\<close>

definition strip_lead :: "string \<Rightarrow> string" where
  "strip_lead s =
     (if take 2 s = ''./'' then drop 2 s else if take 1 s = ''/'' then drop 1 s else s)"

text \<open>
  What one header contributes: an error, nothing with the overrides of the next entry, or an entry
  with its effective path and size.  An override path carries whether it is in the pool.
\<close>

datatype tar_scan =
    ScanFail errno
  | ScanNext tarfs "(string \<times> bool) option" u32
  | ScanEntry tarfs string bool u32

definition scan_pax :: "tarfs \<Rightarrow> byte list \<Rightarrow> (string \<times> bool) option \<Rightarrow> u32 \<Rightarrow> tar_scan option" where
  "scan_pax t data ovp ovs =
     (case parsePaxData data ovs of
        None \<Rightarrow> None
      | Some (None, sz) \<Rightarrow> Some (ScanNext t ovp sz)
      | Some (Some raw, sz) \<Rightarrow>
          let p = strip_lead (str_of raw) in
          if raw = [] \<or> p = [] then Some (ScanNext t ovp sz)
          else
            (case internPath t (length p) of
               None \<Rightarrow> None
             | Some (Inl e) \<Rightarrow> Some (ScanFail e)
             | Some (Inr t1) \<Rightarrow> Some (ScanNext t1 (Some (takeWhile (\<lambda>c. c \<noteq> CHR 0x00) p, True)) sz)))"

text \<open>A GNU long name is used where it lies, up to the first NUL of the layer.\<close>

definition scan_long :: "tarfs \<Rightarrow> byte list \<Rightarrow> nat \<Rightarrow> (string \<times> bool) option \<Rightarrow> u32 \<Rightarrow> tar_scan option" where
  "scan_long t rest sz ovp ovs =
     (let s = strn sz rest; k = length s - length (strip_lead s) in
      if sz > 0 \<and> rest \<noteq> [] \<and> strip_lead s \<noteq> [] then
        (case cstr (drop k rest) of
           None \<Rightarrow> None
         | Some p \<Rightarrow> Some (ScanNext t (Some (p, False)) ovs))
      else Some (ScanNext t ovp ovs))"

definition scan_name :: "tarfs \<Rightarrow> byte list \<Rightarrow> u32 \<Rightarrow> tar_scan option" where
  "scan_name t hdr sz =
     (let name = strn TAR_NAME_LEN hdr in
      if length name = TAR_NAME_LEN \<or> name = [] then Some (ScanNext t None 0)
      else if hdr ! TAR_PREFIX_OFFSET \<noteq> 0 then
        let prefix = strn 155 (drop TAR_PREFIX_OFFSET hdr); tot = length prefix + 1 + length name in
        if tot \<ge> 257 then Some (ScanNext t None 0)
        else
          (case internPath t tot of
             None \<Rightarrow> None
           | Some (Inl e) \<Rightarrow> Some (ScanFail e)
           | Some (Inr t1) \<Rightarrow> Some (ScanEntry t1 (strip_lead (prefix @ CHR ''/'' # name)) True sz))
      else Some (ScanEntry t (strip_lead name) False sz))"

text \<open>The entry itself; one that is no regular file is dropped, and counted unless it is a directory.\<close>

definition scan_entry :: "tarfs \<Rightarrow> byte list \<Rightarrow> (string \<times> bool) option \<Rightarrow> u32 \<Rightarrow> tar_scan option" where
  "scan_entry t hdr ovp eff_size =
     (let typeflag = hdr ! TAR_TYPEFLAG_OFFSET in
      case (case ovp of Some (p, pool) \<Rightarrow> Some (ScanEntry t p pool eff_size) | None \<Rightarrow> scan_name t hdr eff_size) of
        Some (ScanEntry t1 p pool s) \<Rightarrow>
          if typeflag = 0x30 \<or> typeflag = 0 then Some (ScanEntry t1 p pool s)
          else
            Some (ScanNext (if typeflag \<noteq> 0x35 \<and> t_skipped t1 < 0xFFFF
                            then t1\<lparr>t_skipped := t_skipped t1 + 1\<rparr> else t1) None 0)
      | r \<Rightarrow> r)"

definition scan_header :: "tarfs \<Rightarrow> byte list \<Rightarrow> u32 \<Rightarrow> (string \<times> bool) option \<Rightarrow> u32 \<Rightarrow> tar_scan option" where
  "scan_header t hdr sz ovp ovs =
     (let typeflag = hdr ! TAR_TYPEFLAG_OFFSET; rest = drop TAR_BLOCK_SIZE hdr in
      if typeflag = 0x78 then scan_pax t (take (unat sz) rest) ovp ovs
      else if typeflag = 0x67 \<or> typeflag = 0x4b then Some (ScanNext t ovp ovs)
      else if typeflag = 0x4c then scan_long t rest (unat sz) ovp ovs
      else scan_entry t hdr ovp (if ovs \<noteq> 0 then ovs else sz))"

function indexLayer_loop :: "tarfs \<Rightarrow> nat \<Rightarrow> nat \<Rightarrow> byte list \<Rightarrow> nat \<Rightarrow> nat \<Rightarrow> (string \<times> bool) option \<Rightarrow> u32 \<Rightarrow> (errno + tarfs) option" where
  "indexLayer_loop t layer sorted_len buf off empty_run ovp ovs =
     (if off + TAR_BLOCK_SIZE \<le> length buf then
        if isZeroBlock (drop off buf) then
          if empty_run + 1 \<ge> 2 then Some (Inr t)
          else indexLayer_loop t layer sorted_len buf (off + TAR_BLOCK_SIZE) (empty_run + 1) ovp ovs
        else
          let sz = parseOctal (drop (off + TAR_SIZE_OFFSET) buf) TAR_SIZE_LEN in
          if unat sz > length buf - off - TAR_BLOCK_SIZE then Some (Inr t)
          else
            let next_off = off + TAR_BLOCK_SIZE + alignUp512 (unat sz) in
            (case scan_header t (drop off buf) sz ovp ovs of
               None \<Rightarrow> None
             | Some (ScanFail e) \<Rightarrow> Some (Inl e)
             | Some (ScanNext t1 p s) \<Rightarrow> indexLayer_loop t1 layer sorted_len buf next_off 0 p s
             | Some (ScanEntry t1 p pool s) \<Rightarrow>
                 (case indexFile t1 layer sorted_len off p pool s of
                    None \<Rightarrow> None
                  | Some (Inl e) \<Rightarrow> Some (Inl e)
                  | Some (Inr t2) \<Rightarrow> indexLayer_loop t2 layer sorted_len buf next_off 0 None 0))
      else Some (Inr t))"
  by pat_completeness auto
termination by (relation "measure (\<lambda>(t, layer, n, buf, off, _). length buf - off)") (auto simp: TAR_BLOCK_SIZE_def)

declare indexLayer_loop.simps [simp del]

definition indexLayer :: "tarfs \<Rightarrow> nat \<Rightarrow> nat \<Rightarrow> (errno + tarfs) option" where
  "indexLayer t layer sorted_len = indexLayer_loop t layer sorted_len (t_layers t ! layer) 0 0 None 0"

definition indexCmp :: "tar_index_entry \<Rightarrow> tar_index_entry \<Rightarrow> int" where
  "indexCmp ea eb =
     (let c = strcmp (e_path ea) (e_path eb) in
      if c \<noteq> 0 then c else of_bool (isMarker ea) - of_bool (isMarker eb))"

section \<open>The sort of the C library\<close>

text \<open>
  \<open>qsort\<close> promises a permutation in the order of the comparison, and nothing about elements that
  compare equal.
\<close>

type_synonym qsort = "(tar_index_entry \<Rightarrow> tar_index_entry \<Rightarrow> int) \<Rightarrow> tar_index_entry list \<Rightarrow> tar_index_entry list"

definition cmp_order :: "('a \<Rightarrow> 'a \<Rightarrow> int) \<Rightarrow> bool" where
  "cmp_order cmp \<longleftrightarrow> (\<forall>a b. cmp a b \<le> 0 \<or> cmp b a \<le> 0) \<and> (\<forall>a b c. cmp a b \<le> 0 \<longrightarrow> cmp b c \<le> 0 \<longrightarrow> cmp a c \<le> 0)"

locale c_qsort =
  fixes qs :: qsort
  assumes qs_mset: "mset (qs cmp xs) = mset xs"
    and qs_sorted: "cmp_order cmp \<Longrightarrow> sorted_wrt (\<lambda>a b. cmp a b \<le> 0) (qs cmp xs)"

fun insert_by :: "('a \<Rightarrow> 'a \<Rightarrow> int) \<Rightarrow> 'a \<Rightarrow> 'a list \<Rightarrow> 'a list" where
  "insert_by cmp x [] = [x]"
| "insert_by cmp x (y # ys) = (if cmp x y \<le> 0 then x # y # ys else y # insert_by cmp x ys)"

definition sort_by :: "('a \<Rightarrow> 'a \<Rightarrow> int) \<Rightarrow> 'a list \<Rightarrow> 'a list" where
  "sort_by cmp xs = foldr (insert_by cmp) xs []"

fun index_layers :: "qsort \<Rightarrow> tarfs \<Rightarrow> nat list \<Rightarrow> (errno + tarfs) option" where
  "index_layers qs t [] = Some (Inr t)"
| "index_layers qs t (i # is) =
     (case indexLayer t i (length (t_index t)) of
        None \<Rightarrow> None
      | Some (Inl e) \<Rightarrow> Some (Inl e)
      | Some (Inr t1) \<Rightarrow>
          index_layers qs (if t_index t1 = [] then t1 else t1\<lparr>t_index := qs indexCmp (t_index t1)\<rparr>) is)"

text \<open>\<open>TarFsInit\<close>: a missing layer is an empty one; the inner \<open>None\<close> is \<open>NULL\<close>.\<close>

definition TarFsInit :: "qsort \<Rightarrow> nat \<Rightarrow> byte list list \<Rightarrow> bool list \<Rightarrow> tarfs option option" where
  "TarFsInit qs max_layers layers mallocs =
     (if layers = [] \<or> length layers > max_layers then Some None
      else
        case tar_malloc (tarfs_zero layers mallocs) of
          (False, t) \<Rightarrow> Some None
        | (True, t) \<Rightarrow>
            if list_ex (\<lambda>l. l = []) layers then Some None
            else
              (case index_layers qs t [0..<length layers] of
                 None \<Rightarrow> None
               | Some (Inl e) \<Rightarrow> Some None
               | Some (Inr t1) \<Rightarrow> Some (Some t1)))"

definition TarFsEntrypointWasm :: "tarfs \<Rightarrow> (nat \<times> nat \<times> u32) option" where
  "TarFsEntrypointWasm t = t_entrypoint t"

definition TarFsSkipped :: "tarfs option \<Rightarrow> 16 word" where
  "TarFsSkipped t = (case t of None \<Rightarrow> 0 | Some t \<Rightarrow> t_skipped t)"

definition TarFsIndexLen :: "tarfs option \<Rightarrow> nat" where
  "TarFsIndexLen t = (case t of None \<Rightarrow> 0 | Some t \<Rightarrow> length (t_index t))"

section \<open>Files and directories\<close>

definition findExact :: "tarfs \<Rightarrow> string \<Rightarrow> tar_index_entry option" where
  "findExact t path =
     (let pos = lowerBound (t_index t) (length (t_index t)) path in
      if pos < length (t_index t) \<and> strcmp (e_path (t_index t ! pos)) path = 0
      then Some (t_index t ! pos) else None)"

text \<open>The loop of \<open>directoryExists\<close> over the entries from the lower bound on.\<close>

fun dir_scan :: "string \<Rightarrow> tar_index_entry list \<Rightarrow> bool" where
  "dir_scan pfx [] = False"
| "dir_scan pfx (e # es) =
     (if length pfx > 0 \<and> strncmp (length pfx) (e_path e) pfx \<noteq> 0 then False
      else if \<not> isMarker e then True else dir_scan pfx es)"

definition directoryExists :: "tarfs \<Rightarrow> string \<Rightarrow> bool" where
  "directoryExists t pfx =
     dir_scan pfx (drop (if length pfx > 0 then lowerBound (t_index t) (length (t_index t)) pfx else 0) (t_index t))"

datatype tarfs_file =
    TarFile "16 word" nat u32 u32
  | TarDir string

definition VFS_O_CREAT :: oflags where "VFS_O_CREAT = 0x40"
definition VFS_O_TRUNC :: oflags where "VFS_O_TRUNC = 0x200"
definition VFS_O_DIRECTORY :: oflags where "VFS_O_DIRECTORY = 0x10000"

definition allocFileHandle :: "bool \<Rightarrow> tar_index_entry \<Rightarrow> tarfs_file option" where
  "allocFileHandle ok e = (if ok then Some (TarFile (e_layer e) (e_hdr_offset e) (e_fsize e) 0) else None)"

definition allocDirHandle :: "bool \<Rightarrow> bool \<Rightarrow> string \<Rightarrow> tarfs_file option" where
  "allocDirHandle ok ok2 pfx = (if ok \<and> ok2 then Some (TarDir pfx) else None)"

text \<open>\<open>TarFs_Open\<close>; \<open>ok\<close> and \<open>ok2\<close> are the answers of the allocator to the handle and its prefix.\<close>

definition TarFs_Open :: "tarfs \<Rightarrow> bool \<Rightarrow> bool \<Rightarrow> string \<Rightarrow> oflags \<Rightarrow> tarfs_file option" where
  "TarFs_Open t ok ok2 path flags =
     (if flags AND 3 \<noteq> VFS_O_RDONLY then None
      else if flags AND (VFS_O_CREAT OR VFS_O_TRUNC) \<noteq> 0 then None
      else
        let p = dropWhile (\<lambda>c. c = CHR ''/'') path;
            trailing_slash = (p \<noteq> [] \<and> last p = CHR ''/'');
            work = (if trailing_slash then butlast p else p) in
        if length work > 512 then None
        else if work = [] then allocDirHandle ok ok2 []
        else
          case (if trailing_slash then None else
                  (case findExact t work of None \<Rightarrow> None | Some e \<Rightarrow> if isMarker e then None else Some e)) of
            Some e \<Rightarrow> if flags AND VFS_O_DIRECTORY \<noteq> 0 then None else allocFileHandle ok e
          | None \<Rightarrow>
              if directoryExists t (work @ ''/'') then allocDirHandle ok ok2 (work @ ''/'') else None)"

definition INT_MAX :: nat where "INT_MAX = 2 ^ 31 - 1"

text \<open>\<open>TarFs_Read\<close>: the bytes and the moved handle; \<open>None\<close> when they are not all inside the layer.\<close>

definition TarFs_Read :: "tarfs \<Rightarrow> tarfs_file \<Rightarrow> nat \<Rightarrow> (errno + byte list \<times> tarfs_file) option" where
  "TarFs_Read t h nbyte =
     (case h of
        TarDir pfx \<Rightarrow> Some (Inl EISDIR)
      | TarFile layer off sz pos \<Rightarrow>
          if pos \<ge> sz then Some (Inr ([], h))
          else
            let n = min (min nbyte (unat (sz - pos))) INT_MAX;
                start = off + TAR_BLOCK_SIZE + unat pos;
                buf = t_layers t ! unat layer in
            if start + n > length buf then None
            else Some (Inr (take n (drop start buf), TarFile layer off sz (pos + of_nat n))))"

definition VFS_FILETYPE_REGULAR_FILE :: nat where "VFS_FILETYPE_REGULAR_FILE = 4"

text \<open>\<open>TarFs_Stat\<close>: file type and size; the link count is always 1 and the rest 0.\<close>

definition TarFs_Stat :: "tarfs_file \<Rightarrow> nat \<times> u32" where
  "TarFs_Stat h =
     (case h of TarDir pfx \<Rightarrow> (VFS_FILETYPE_DIRECTORY, 0) | TarFile layer off sz pos \<Rightarrow> (VFS_FILETYPE_REGULAR_FILE, sz))"

definition LONG_MAX :: int where "LONG_MAX = 2 ^ 63 - 1"

text \<open>\<open>TarFs_Seek\<close>: \<open>None\<close> when the sum of two \<open>long\<close> values overflows.\<close>

definition TarFs_Seek :: "tarfs_file \<Rightarrow> int \<Rightarrow> nat \<Rightarrow> (errno + int \<times> tarfs_file) option" where
  "TarFs_Seek h offs whence =
     (case h of
        TarDir pfx \<Rightarrow> Some (Inl EISDIR)
      | TarFile layer off sz pos \<Rightarrow>
          if whence > 2 then Some (Inl EINVAL)
          else
            let new_pos = (if whence = 0 then offs else if whence = 1 then uint pos + offs else uint sz + offs) in
            if new_pos > LONG_MAX then None
            else if new_pos < 0 then Some (Inl EINVAL)
            else
              let np = (if new_pos > uint sz then uint sz else new_pos) in
              Some (Inr (np, TarFile layer off sz (of_int np))))"

text \<open>
  The entries from \<open>next_i\<close> on that lie under the same subdirectory: how many, and whether one of
  them is a file.
\<close>

fun subdir_scan :: "string \<Rightarrow> string \<Rightarrow> tar_index_entry list \<Rightarrow> nat \<times> bool" where
  "subdir_scan pfx name [] = (0, False)"
| "subdir_scan pfx name (e # es) =
     (if length pfx > 0 \<and> strncmp (length pfx) (e_path e) pfx \<noteq> 0 then (0, False)
      else
        let s = drop (length pfx) (e_path e) in
        if strncmp (length name) s name \<noteq> 0 \<or> \<not> (length name < length s \<and> s ! length name = CHR ''/'') then (0, False)
        else (case subdir_scan pfx name es of (n, f) \<Rightarrow> (n + 1, f \<or> \<not> isMarker e)))"

function readdir_loop :: "tar_index_entry list \<Rightarrow> string \<Rightarrow> nat \<Rightarrow> nat \<Rightarrow> nat \<Rightarrow> dirent list \<times> nat \<times> nat" where
  "readdir_loop idx pfx bufLen i used =
     (if i < length idx then
        let e = idx ! i in
        if length pfx > 0 \<and> strncmp (length pfx) (e_path e) pfx \<noteq> 0 then ([], i, used)
        else
          let suffix = drop (length pfx) (e_path e) in
          if suffix = [] then readdir_loop idx pfx bufLen (i + 1) used
          else
            let (name, after) = strchr_split CHR ''/'' suffix; is_subdir = (after \<noteq> None) in
            if \<not> is_subdir \<and> isMarker e then readdir_loop idx pfx bufLen (i + 1) used
            else if used + dirent_size + length name > bufLen then ([], i, used)
            else
              let (n, f) = (if is_subdir then subdir_scan pfx name (drop (i + 1) idx) else (0, False));
                  next_i = i + 1 + n in
              if is_subdir \<and> \<not> (f \<or> \<not> isMarker e) then readdir_loop idx pfx bufLen next_i used
              else
                let dir = \<lparr>d_next = next_i, d_ino = i, d_namlen = length name,
                           d_type = (if is_subdir then VFS_FILETYPE_DIRECTORY else VFS_FILETYPE_REGULAR_FILE), d_name = name\<rparr>;
                    (ds, i', used') = readdir_loop idx pfx bufLen next_i (used + dirent_size + length name)
                in (dir # ds, i', used')
      else ([], i, used))"
  by pat_completeness auto
termination by (relation "measure (\<lambda>(idx, _, _, i, _). length idx - i)") auto

declare readdir_loop.simps [simp del]

text \<open>\<open>TarFs_ReadDir\<close>: the entries packed, the cookie to go on from and the bytes used.\<close>

definition TarFs_ReadDir :: "tarfs \<Rightarrow> tarfs_file \<Rightarrow> nat \<Rightarrow> nat \<Rightarrow> errno + dirent list \<times> nat \<times> nat" where
  "TarFs_ReadDir t h bufLen cookie =
     (case h of
        TarFile layer off sz pos \<Rightarrow> Inl ENOTDIR
      | TarDir pfx \<Rightarrow>
          if cookie > length (t_index t) then Inl EINVAL
          else
            Inr (readdir_loop (t_index t) pfx bufLen
              (if cookie = 0 then lowerBound (t_index t) (length (t_index t)) pfx else cookie) 0))"

end
