(* ===== verification/TarFsIndex.thy ===== *)
theory TarFsIndex imports TarFs begin

text \<open>
  The index of the image filesystem: its binary searches find what is there, indexing a layer adds what
  the newer layers do not decide, and the index of a stack of layers is their overlay.
\<close>

section \<open>Order of paths\<close>

lemma strcmp_eq [simp]: "strcmp a b = 0 \<longleftrightarrow> a = b"
  by (induction a b rule: strcmp.induct) auto

lemma strcmp_less [simp]: "strcmp a b < 0 \<longleftrightarrow> a < b"
  by (induction a b rule: strcmp.induct) (auto simp: less_char_def)

lemma strcmp_greater [simp]: "strcmp a b > 0 \<longleftrightarrow> b < a"
  using strcmp_eq[of a b] strcmp_less[of a b] by (metis linorder_less_linear order_less_asym)

lemma strcmp_le [simp]: "strcmp a b \<le> 0 \<longleftrightarrow> a \<le> b"
  using strcmp_greater[of a b] by (metis not_less)

section \<open>Binary search\<close>

abbreviation path_sorted :: "tar_index_entry list \<Rightarrow> bool" where
  "path_sorted idx \<equiv> sorted (map e_path idx)"

lemma path_sorted_nth: "path_sorted idx \<Longrightarrow> i \<le> j \<Longrightarrow> j < length idx \<Longrightarrow> e_path (idx ! i) \<le> e_path (idx ! j)"
  using sorted_nth_mono[of "map e_path idx" i j] by simp

lemma lowerBound_loop_spec:
  assumes "path_sorted idx" "lo \<le> hi" "hi \<le> n" "n \<le> length idx"
    "\<forall>j < lo. e_path (idx ! j) < key" "\<forall>j < n. hi \<le> j \<longrightarrow> key \<le> e_path (idx ! j)"
  shows "lowerBound_loop idx lo hi key \<le> n \<and> (\<forall>j < lowerBound_loop idx lo hi key. e_path (idx ! j) < key) \<and>
    (\<forall>j < n. lowerBound_loop idx lo hi key \<le> j \<longrightarrow> key \<le> e_path (idx ! j))"
  using assms
proof (induction idx lo hi key rule: lowerBound_loop.induct)
  case (1 idx lo hi key)
  define mid where "mid = lo + (hi - lo) div 2"
  show ?case
  proof (cases "lo < hi")
    case False
    then show ?thesis using "1.prems" by (subst (1 2 3) lowerBound_loop.simps) auto
  next
    case True
    then have m: "lo \<le> mid" "mid < hi" by (auto simp: mid_def)
    show ?thesis
    proof (cases "e_path (idx ! mid) < key")
      case less: True
      have "\<forall>j < mid + 1. e_path (idx ! j) < key"
        using path_sorted_nth[OF "1.prems"(1), of _ mid] less m "1.prems"(3,4) by (force simp: less_Suc_eq_le)
      moreover have u: "lowerBound_loop idx lo hi key = lowerBound_loop idx (mid + 1) hi key"
        using True less by (subst lowerBound_loop.simps) (simp add: mid_def[symmetric] Let_def)
      ultimately show ?thesis unfolding u using less m "1.prems" by (intro "1.IH"(1)[OF True mid_def]) auto
    next
      case False
      have "\<forall>j < n. mid \<le> j \<longrightarrow> key \<le> e_path (idx ! j)"
        using path_sorted_nth[OF "1.prems"(1), of mid] False "1.prems"(4) by (meson leD leI order_less_le_trans order_trans)
      moreover have u: "lowerBound_loop idx lo hi key = lowerBound_loop idx lo mid key"
        using True False by (subst lowerBound_loop.simps) (simp add: mid_def[symmetric] Let_def)
      ultimately show ?thesis unfolding u using False m "1.prems" by (intro "1.IH"(2)[OF True mid_def]) auto
    qed
  qed
qed

lemmas lowerBound_spec = lowerBound_loop_spec[of _ 0 "n" n for n, simplified]

lemma indexContains_loop_spec:
  assumes "path_sorted idx" "hi \<le> length idx"
  shows "indexContains_loop idx lo hi path \<longleftrightarrow> (\<exists>j < hi. lo \<le> j \<and> e_path (idx ! j) = path)"
  using assms
proof (induction idx lo hi path rule: indexContains_loop.induct)
  case (1 idx lo hi path)
  define mid where "mid = lo + (hi - lo) div 2"
  show ?case
  proof (cases "lo < hi")
    case False
    then show ?thesis by (subst indexContains_loop.simps) auto
  next
    case True
    then have m: "lo \<le> mid" "mid < hi" by (auto simp: mid_def)
    note s = path_sorted_nth[OF "1.prems"(1)]
    consider (l) "e_path (idx ! mid) < path" | (g) "path < e_path (idx ! mid)" | (e) "e_path (idx ! mid) = path"
      using linorder_less_linear by blast
    then show ?thesis
    proof cases
      case l
      have "(\<exists>j < hi. lo \<le> j \<and> e_path (idx ! j) = path) \<longleftrightarrow> (\<exists>j < hi. mid + 1 \<le> j \<and> e_path (idx ! j) = path)"
      proof -
        have "\<not> j \<le> mid" if "j < hi" "e_path (idx ! j) = path" for j using s[of j mid] l that m "1.prems"(2) by auto
        then show ?thesis using m by (metis Suc_eq_plus1 not_less_eq_eq order_trans nat_le_linear)
      qed
      moreover have u: "indexContains_loop idx lo hi path = indexContains_loop idx (mid + 1) hi path"
        using True l by (subst indexContains_loop.simps) (simp add: mid_def[symmetric] Let_def)
      ultimately show ?thesis unfolding u using "1.IH"(1)[OF True mid_def refl _ "1.prems"] l by simp
    next
      case g
      have "(\<exists>j < hi. lo \<le> j \<and> e_path (idx ! j) = path) \<longleftrightarrow> (\<exists>j < mid. lo \<le> j \<and> e_path (idx ! j) = path)"
      proof (intro iff_exI)
        fix j
        show "j < hi \<and> lo \<le> j \<and> e_path (idx ! j) = path \<longleftrightarrow> j < mid \<and> lo \<le> j \<and> e_path (idx ! j) = path"
          using s[of mid j] g m "1.prems"(2) by (cases "mid \<le> j") auto
      qed
      moreover have u: "indexContains_loop idx lo hi path = indexContains_loop idx lo mid path"
        using True g order_less_not_sym[OF g] by (subst indexContains_loop.simps) (simp add: mid_def[symmetric] Let_def)
      moreover have "mid \<le> length idx" using m "1.prems"(2) by simp
      ultimately show ?thesis unfolding u using "1.IH"(2)[OF True mid_def refl _ _ "1.prems"(1)] g order_less_not_sym[OF g] by simp
    next
      case e
      then show ?thesis using True m by (subst indexContains_loop.simps) (auto simp: mid_def[symmetric] Let_def)
    qed
  qed
qed

lemma ex_set_take: "n \<le> length xs \<Longrightarrow> (\<exists>x \<in> set (take n xs). Q x) \<longleftrightarrow> (\<exists>j < n. Q (xs ! j))"
proof -
  assume "n \<le> length xs"
  then show ?thesis using nth_image[of n xs, symmetric] by force
qed

lemma indexContains_iff:
  "path_sorted idx \<Longrightarrow> n \<le> length idx \<Longrightarrow> indexContains idx n path \<longleftrightarrow> (\<exists>e \<in> set (take n idx). e_path e = path)"
  by (simp add: indexContains_def indexContains_loop_spec ex_set_take)

text \<open>The entries with one path are the run from the lower bound on.\<close>

lemma lower_run:
  assumes "path_sorted idx" "n \<le> length idx"
  shows "set (takeWhile (\<lambda>e. e_path e = path) (drop (lowerBound_loop idx 0 n path) (take n idx))) =
    {e \<in> set (take n idx). e_path e = path}"
proof -
  let ?r = "lowerBound_loop idx 0 n path" and ?xs = "take n idx"
  have spec: "?r \<le> n" "\<forall>j < ?r. e_path (idx ! j) < path" "\<forall>j < n. ?r \<le> j \<longrightarrow> path \<le> e_path (idx ! j)"
    using lowerBound_loop_spec[OF assms(1) _ _ assms(2), of 0 n path] by auto
  have "e_path e < path" if "e \<in> set (take ?r ?xs)" for e
    using that spec(1,2) assms(2) by (auto simp: in_set_conv_nth)
  moreover have "set ?xs = set (take ?r ?xs) \<union> set (drop ?r ?xs)" by (metis append_take_drop_id set_append)
  ultimately have "{e \<in> set ?xs. e_path e = path} = {e \<in> set (drop ?r ?xs). e_path e = path}" by auto
  also have "\<dots> = set (takeWhile (\<lambda>e. e_path e = path) (drop ?r ?xs))"
  proof -
    let ?ys = "drop ?r ?xs"
    have s: "sorted (map e_path ?ys)" using assms(1) by (simp add: drop_map[symmetric] take_map[symmetric] sorted_wrt_drop sorted_wrt_take)
    have ge: "\<forall>e \<in> set ?ys. path \<le> e_path e"
      using spec(3) assms(2) by (auto simp: in_set_conv_nth)
    have "{e \<in> set ys. e_path e = path} = set (takeWhile (\<lambda>e. e_path e = path) ys)"
      if "sorted (map e_path ys)" "\<forall>e \<in> set ys. path \<le> e_path e" for ys
      using that by (induction ys) force+
    then show ?thesis using s ge by blast
  qed
  finally show ?thesis by simp
qed

lemma indexHasKind_iff:
  "path_sorted idx \<Longrightarrow> n \<le> length idx \<Longrightarrow>
   indexHasKind idx n path kind \<longleftrightarrow> (\<exists>e \<in> set (take n idx). e_path e = path \<and> e_layer e = kind)"
  using lower_run[of idx n path] by (auto simp: indexHasKind_def list_ex_iff)

text \<open>A search of the first \<open>n\<close> entries looks at no others.\<close>

lemma lowerBound_loop_take: "hi \<le> n \<Longrightarrow> lowerBound_loop (take n idx) lo hi key = lowerBound_loop idx lo hi key"
proof (induction idx lo hi key rule: lowerBound_loop.induct)
  case (1 idx lo hi key)
  define mid where "mid = lo + (hi - lo) div 2"
  show ?case
  proof (cases "lo < hi")
    case True
    then have "mid < hi" by (auto simp: mid_def)
    then have "take n idx ! mid = idx ! mid" "mid \<le> n" using "1.prems" by auto
    then show ?thesis using "1.IH"[OF True mid_def] "1.prems" True
      by (subst (1 2) lowerBound_loop.simps) (simp add: mid_def[symmetric] Let_def)
  qed (subst (1 2) lowerBound_loop.simps, simp)
qed

lemma indexContains_loop_take: "hi \<le> n \<Longrightarrow> indexContains_loop (take n idx) lo hi key = indexContains_loop idx lo hi key"
proof (induction idx lo hi key rule: indexContains_loop.induct)
  case (1 idx lo hi key)
  define mid where "mid = lo + (hi - lo) div 2"
  show ?case
  proof (cases "lo < hi")
    case True
    then have "mid < hi" by (auto simp: mid_def)
    then have "take n idx ! mid = idx ! mid" "mid \<le> n" using "1.prems" by auto
    then show ?thesis using "1.IH"[OF True mid_def refl] "1.prems" True
      by (subst (1 2) indexContains_loop.simps) (simp add: mid_def[symmetric] Let_def)
  qed (subst (1 2) indexContains_loop.simps, simp)
qed

lemma contains_prefix:
  assumes "path_sorted (take n idx)" "n \<le> length idx"
  shows "indexContains idx n path \<longleftrightarrow> (\<exists>e \<in> set (take n idx). e_path e = path)"
  using indexContains_iff[of "take n idx" n path] assms indexContains_loop_take[of n n idx 0 path]
  by (simp add: indexContains_def)

lemma kind_prefix:
  assumes "path_sorted (take n idx)" "n \<le> length idx"
  shows "indexHasKind idx n path kind \<longleftrightarrow> (\<exists>e \<in> set (take n idx). e_path e = path \<and> e_layer e = kind)"
  using indexHasKind_iff[of "take n idx" n path] assms lowerBound_loop_take[of n n idx 0 path]
  by (simp add: indexHasKind_def)

section \<open>What decides a path\<close>

definition opaque_root :: "tar_index_entry \<Rightarrow> bool" where
  "opaque_root e \<longleftrightarrow> e_path e = OPAQUE_NAME \<and> e_layer e = TARFS_OPAQUE"

text \<open>An entry that hides everything below the directory \<open>d\<close>.\<close>

definition hides_below :: "tar_index_entry \<Rightarrow> string \<Rightarrow> bool" where
  "hides_below e d \<longleftrightarrow> e_path e = d \<and> e_layer e = TARFS_WHITEOUT \<or>
     e_path e = d @ CHR ''/'' # OPAQUE_NAME \<and> e_layer e = TARFS_OPAQUE"

text \<open>
  Whether one of the entries decides the path: it is at the path itself, it is an opaque marker at the
  root, or it hides a directory above the path, among the directories whose name is shorter than \<open>lim\<close>.
\<close>

definition covers :: "nat \<Rightarrow> tar_index_entry set \<Rightarrow> string \<Rightarrow> bool" where
  "covers lim S path \<longleftrightarrow> (\<exists>e \<in> S. e_path e = path \<or> opaque_root e \<or>
     (\<exists>d r. path = d @ CHR ''/'' # r \<and> length d < lim \<and> hides_below e d))"

definition PROBE_LIM :: nat where "PROBE_LIM = 498"

lemma probe_lim: "i + (length OPAQUE_NAME + 1) + 1 < PROBE_MAX \<longleftrightarrow> i < PROBE_LIM"
  by (auto simp: OPAQUE_NAME_def PROBE_MAX_def PROBE_LIM_def)

lemma slash_split: "(\<exists>i < length path. path ! i = c \<and> Q (take i path)) \<longleftrightarrow> (\<exists>d r. path = d @ c # r \<and> Q d)"
proof
  assume "\<exists>i < length path. path ! i = c \<and> Q (take i path)"
  then obtain i where "i < length path" "path ! i = c" "Q (take i path)" by blast
  then have "path = take i path @ c # drop (Suc i) path" using id_take_nth_drop by metis
  with \<open>Q (take i path)\<close> show "\<exists>d r. path = d @ c # r \<and> Q d" by blast
next
  assume "\<exists>d r. path = d @ c # r \<and> Q d"
  then obtain d r where "path = d @ c # r" "Q d" by blast
  then show "\<exists>i < length path. path ! i = c \<and> Q (take i path)" by (intro exI[of _ "length d"]) auto
qed

lemma coveredByNewer_iff:
  assumes "path_sorted (take n (t_index t))" "n \<le> length (t_index t)"
  shows "coveredByNewer t n path \<longleftrightarrow> covers PROBE_LIM (set (take n (t_index t))) path"
proof -
  let ?S = "set (take n (t_index t))"
  have "list_ex (\<lambda>i. path ! i = CHR ''/'' \<and>
        (indexHasKind (t_index t) n (take i path) TARFS_WHITEOUT \<or>
         indexHasKind (t_index t) n (take i path @ CHR ''/'' # OPAQUE_NAME) TARFS_OPAQUE))
       (filter (\<lambda>i. i + (length OPAQUE_NAME + 1) + 1 < PROBE_MAX) [0..<length path]) \<longleftrightarrow>
     (\<exists>i < length path. path ! i = CHR ''/'' \<and> (\<lambda>d. length d < PROBE_LIM \<and> (\<exists>e \<in> ?S. hides_below e d)) (take i path))"
    unfolding kind_prefix[OF assms] probe_lim list_ex_iff hides_below_def by fastforce
  also have "\<dots> \<longleftrightarrow> (\<exists>d r. path = d @ CHR ''/'' # r \<and> length d < PROBE_LIM \<and> (\<exists>e \<in> ?S. hides_below e d))"
    by (rule slash_split)
  finally show ?thesis
    unfolding coveredByNewer_def contains_prefix[OF assms] kind_prefix[OF assms] covers_def opaque_root_def by blast
qed

section \<open>What an archive says\<close>

text \<open>
  The entries of a layer by themselves, in order: the scan of the headers with no index and an
  allocator that never fails.  An item is the offset of its header, the path, whether the path needs
  the pool, and the size.
\<close>

type_synonym tar_item = "nat \<times> string \<times> bool \<times> u32"

definition no_tarfs :: tarfs where "no_tarfs = tarfs_zero [] []"

function archive_items :: "byte list \<Rightarrow> nat \<Rightarrow> nat \<Rightarrow> (string \<times> bool) option \<Rightarrow> u32 \<Rightarrow> tar_item list option" where
  "archive_items buf off empty_run ovp ovs =
     (if off + TAR_BLOCK_SIZE \<le> length buf then
        if isZeroBlock (drop off buf) then
          if empty_run + 1 \<ge> 2 then Some []
          else archive_items buf (off + TAR_BLOCK_SIZE) (empty_run + 1) ovp ovs
        else
          let sz = parseOctal (drop (off + TAR_SIZE_OFFSET) buf) TAR_SIZE_LEN in
          if unat sz > length buf - off - TAR_BLOCK_SIZE then Some []
          else
            let next_off = off + TAR_BLOCK_SIZE + alignUp512 (unat sz) in
            (case scan_header no_tarfs (drop off buf) sz ovp ovs of
               None \<Rightarrow> None
             | Some (ScanFail e) \<Rightarrow> None
             | Some (ScanNext t1 p s) \<Rightarrow> archive_items buf next_off 0 p s
             | Some (ScanEntry t1 p pool s) \<Rightarrow> map_option ((#) (off, p, pool, s)) (archive_items buf next_off 0 None 0))
      else Some [])"
  by pat_completeness auto
termination by (relation "measure (\<lambda>(buf, off, _). length buf - off)") (auto simp: TAR_BLOCK_SIZE_def)

declare archive_items.simps [simp del]

text \<open>The index entry an item stands for: a file of layer \<open>k\<close>, a whiteout or an opaque marker.\<close>

definition item_entry :: "nat \<Rightarrow> tar_item \<Rightarrow> tar_index_entry" where
  "item_entry k x =
     (case x of (off, path, pool, sz) \<Rightarrow>
        let base = pathBasename path in
        if base = OPAQUE_NAME
        then \<lparr>e_path = path, e_pool = pool, e_layer = TARFS_OPAQUE, e_hdr_offset = off, e_fsize = sz\<rparr>
        else if take 4 base = ''.wh.'' \<and> length base > 4
        then \<lparr>e_path = makeWhiteoutTarget path, e_pool = False, e_layer = TARFS_WHITEOUT, e_hdr_offset = off, e_fsize = sz\<rparr>
        else \<lparr>e_path = path, e_pool = pool, e_layer = of_nat k, e_hdr_offset = off, e_fsize = sz\<rparr>)"

definition layer_entries :: "nat \<Rightarrow> byte list \<Rightarrow> tar_index_entry list" where
  "layer_entries k buf = (case archive_items buf 0 0 None 0 of None \<Rightarrow> [] | Some xs \<Rightarrow> map (item_entry k) xs)"

section \<open>The index of a layer\<close>

definition same_index :: "tarfs \<Rightarrow> tarfs \<Rightarrow> bool" where
  "same_index t t' \<longleftrightarrow> t_index t' = t_index t \<and> t_layers t' = t_layers t \<and> t_entrypoint t' = t_entrypoint t"

lemma same_index_refl [simp]: "same_index t t"
  by (simp add: same_index_def)

lemma same_index_trans [trans]: "same_index a b \<Longrightarrow> same_index b c \<Longrightarrow> same_index a c"
  by (simp add: same_index_def)

lemma tar_malloc_same: "tar_malloc t = (ok, t1) \<Longrightarrow> same_index t t1"
  by (auto simp: tar_malloc_def same_index_def split: list.splits)

lemma internPath_same: "internPath t n = Some (Inr t1) \<Longrightarrow> same_index t t1"
  by (auto simp: internPath_def same_index_def Let_def dest!: tar_malloc_same split: if_splits prod.splits bool.splits)

lemma growIndex_same: "growIndex t = Some (Inr t1) \<Longrightarrow> same_index t t1"
  by (auto simp: growIndex_def same_index_def Let_def dest!: tar_malloc_same split: if_splits prod.splits bool.splits)

lemma rememberOwned_same: "rememberOwned t = Some (Inr t1) \<Longrightarrow> same_index t t1"
  by (auto simp: rememberOwned_def same_index_def Let_def dest!: tar_malloc_same split: if_splits prod.splits bool.splits)

lemma internPath_free: "\<exists>t1. internPath no_tarfs n = Some (Inr t1)"
  by (simp add: internPath_def no_tarfs_def tarfs_zero_def tar_malloc_def Let_def)

text \<open>A scan of a header that goes through reads the same from it whatever the context.\<close>

lemma scan_pax_next:
  "scan_pax t d p s = Some r \<Longrightarrow> (\<exists>e. r = ScanFail e) \<or>
   (\<exists>t1 p1 s1 t0. r = ScanNext t1 p1 s1 \<and> same_index t t1 \<and> scan_pax no_tarfs d p s = Some (ScanNext t0 p1 s1))"
proof (cases "parsePaxData d s")
  case (Some x)
  moreover assume "scan_pax t d p s = Some r"
  moreover obtain raw sz where x: "x = (raw, sz)" by (cases x)
  ultimately show ?thesis
  proof (cases raw)
    case (Some bs)
    let ?n = "length (strip_lead (str_of bs))"
    obtain t0 where "internPath no_tarfs ?n = Some (Inr t0)" using internPath_free by blast
    then show ?thesis using \<open>parsePaxData d s = Some x\<close> x Some \<open>scan_pax t d p s = Some r\<close> internPath_same[of t ?n]
      by (cases "internPath t ?n") (auto simp: scan_pax_def Let_def split: sum.splits if_splits)
  qed (auto simp: scan_pax_def)
qed (simp add: scan_pax_def)

lemma scan_long_next:
  "scan_long t d n p s = Some r \<Longrightarrow>
   \<exists>p1. r = ScanNext t p1 s \<and> scan_long no_tarfs d n p s = Some (ScanNext no_tarfs p1 s)"
  by (auto simp: scan_long_def Let_def split: option.splits if_splits)

lemma scan_name_cases:
  assumes "scan_name t h sz = Some r"
  shows "(\<exists>e. r = ScanFail e) \<or> r = ScanNext t None 0 \<and> scan_name no_tarfs h sz = Some (ScanNext no_tarfs None 0) \<or>
   (\<exists>t1 p b t0. r = ScanEntry t1 p b sz \<and> same_index t t1 \<and> scan_name no_tarfs h sz = Some (ScanEntry t0 p b sz))"
proof -
  let ?n = "length (strn 155 (drop TAR_PREFIX_OFFSET h)) + 1 + length (strn TAR_NAME_LEN h)"
  obtain t0 where "internPath no_tarfs ?n = Some (Inr t0)" using internPath_free by blast
  then show ?thesis using assms internPath_same[of t ?n]
    by (cases "internPath t ?n") (auto simp: scan_name_def Let_def split: sum.splits if_splits)
qed

lemma scan_entry_cases:
  assumes "scan_entry t h p es = Some r"
  shows "(\<exists>e. r = ScanFail e) \<or>
    (\<exists>t1 t0. r = ScanNext t1 None 0 \<and> same_index t t1 \<and> scan_entry no_tarfs h p es = Some (ScanNext t0 None 0)) \<or>
    (\<exists>t1 q b t0. r = ScanEntry t1 q b es \<and> same_index t t1 \<and> scan_entry no_tarfs h p es = Some (ScanEntry t0 q b es))"
proof (cases p)
  case None
  then obtain r' where r': "scan_name t h es = Some r'" using assms by (cases "scan_name t h es") (auto simp: scan_entry_def Let_def)
  from scan_name_cases[OF r'] show ?thesis
  proof (elim disjE exE conjE)
    fix t1 q b t0
    assume "r' = ScanEntry t1 q b es" "same_index t t1" "scan_name no_tarfs h es = Some (ScanEntry t0 q b es)"
    then show ?thesis using assms None r' by (auto simp: scan_entry_def Let_def same_index_def split: if_splits)
  qed (use assms None r' in \<open>auto simp: scan_entry_def Let_def\<close>)
next
  case (Some a)
  then show ?thesis using assms by (cases a) (auto simp: scan_entry_def Let_def same_index_def split: if_splits)
qed

lemma scan_cases:
  assumes "scan_header t h sz p s = Some r"
  shows "(\<exists>e. r = ScanFail e) \<or>
    (\<exists>t1 p1 s1 t0. r = ScanNext t1 p1 s1 \<and> same_index t t1 \<and> scan_header no_tarfs h sz p s = Some (ScanNext t0 p1 s1)) \<or>
    (\<exists>t1 q b z t0. r = ScanEntry t1 q b z \<and> same_index t t1 \<and> scan_header no_tarfs h sz p s = Some (ScanEntry t0 q b z))"
proof -
  let ?ty = "h ! TAR_TYPEFLAG_OFFSET"
  consider "?ty = 0x78" | "?ty = 0x67 \<or> ?ty = 0x4b" | "?ty = 0x4c" | "?ty \<notin> {0x78, 0x67, 0x4b, 0x4c}" by auto
  then show ?thesis
  proof cases
    case 1
    then show ?thesis using assms scan_pax_next[of t _ p s r] by (simp add: scan_header_def Let_def) blast
  next
    case 2
    then show ?thesis using assms by (auto simp: scan_header_def Let_def)
  next
    case 3
    then have "scan_long t (drop TAR_BLOCK_SIZE h) (unat sz) p s = Some r" using assms by (simp add: scan_header_def Let_def)
    from scan_long_next[OF this] 3 show ?thesis by (auto simp: scan_header_def Let_def)
  next
    case 4
    then have h: "scan_header t h sz p s = scan_entry t h p (if s \<noteq> 0 then s else sz)" for t
      by (simp add: scan_header_def Let_def)
    from scan_entry_cases[OF assms[unfolded h]] show ?thesis unfolding h by blast
  qed
qed

definition file_at :: "tar_index_entry \<Rightarrow> string \<Rightarrow> bool" where
  "file_at e p \<longleftrightarrow> e_path e = p \<and> \<not> isMarker e"

text \<open>The entrypoint after entries of layer \<open>k\<close> are added: the one there is, else their first \<open>app.wasm\<close>.\<close>

definition boot_from :: "nat \<Rightarrow> (nat \<times> nat \<times> u32) option \<Rightarrow> tar_index_entry list \<Rightarrow> (nat \<times> nat \<times> u32) option" where
  "boot_from k b es = (case b of Some x \<Rightarrow> Some x | None \<Rightarrow>
     map_option (\<lambda>e. (k, e_hdr_offset e + TAR_BLOCK_SIZE, e_fsize e)) (find (\<lambda>e. file_at e ''app.wasm'') es))"

lemma boot_from_Nil [simp]: "boot_from k b [] = b"
  by (simp add: boot_from_def split: option.splits)

lemma boot_from_append: "boot_from k b (xs @ ys) = boot_from k (boot_from k b xs) ys"
  by (induction xs) (auto simp: boot_from_def split: option.splits)

lemma coveredByNewer_same: "same_index t t' \<Longrightarrow> coveredByNewer t' n path = coveredByNewer t n path"
  by (simp add: coveredByNewer_def same_index_def)

lemma addEntry_spec:
  assumes "addEntry t k n off path pool kind sz = Some (Inr t')"
  shows "t_layers t' = t_layers t \<and> t_index t' = t_index t @ (if coveredByNewer t n path then [] else
    [\<lparr>e_path = path, e_pool = pool, e_layer = kind, e_hdr_offset = off, e_fsize = sz\<rparr>]) \<and>
    t_entrypoint t' = boot_from k (t_entrypoint t) (if coveredByNewer t n path then [] else
    [\<lparr>e_path = path, e_pool = pool, e_layer = kind, e_hdr_offset = off, e_fsize = sz\<rparr>])"
proof (cases "coveredByNewer t n path")
  case False
  define t1 where "t1 = (if (kind \<noteq> TARFS_WHITEOUT \<and> kind \<noteq> TARFS_OPAQUE) \<and> path = ''app.wasm'' \<and> t_entrypoint t = None
                  then t\<lparr>t_entrypoint := Some (k, off + TAR_BLOCK_SIZE, sz)\<rparr> else t)"
  define r where "r = (if length (t_index t1) = unat (t_index_cap t1) then growIndex t1 else Some (Inr t1))"
  have a: "addEntry t k n off path pool kind sz = (case r of None \<Rightarrow> None | Some (Inl e) \<Rightarrow> Some (Inl e)
        | Some (Inr t2) \<Rightarrow> Some (Inr (t2\<lparr>t_index := t_index t2 @ [\<lparr>e_path = path, e_pool = pool, e_layer = kind,
              e_hdr_offset = off, e_fsize = sz\<rparr>]\<rparr>)))"
    using False by (simp only: addEntry_def if_False Let_def t1_def r_def)
  obtain t2 where r: "r = Some (Inr t2)" using assms unfolding a by (auto split: option.splits sum.splits)
  then have "same_index t1 t2" using growIndex_same[of t1] by (auto simp: r_def split: if_splits)
  moreover have "t_index t1 = t_index t" "t_layers t1 = t_layers t" by (simp_all add: t1_def)
  moreover have "t_entrypoint t1 = boot_from k (t_entrypoint t)
      [\<lparr>e_path = path, e_pool = pool, e_layer = kind, e_hdr_offset = off, e_fsize = sz\<rparr>]"
    by (auto simp: t1_def boot_from_def file_at_def isMarker_def split: option.splits)
  ultimately show ?thesis using assms False unfolding a r by (auto simp: same_index_def)
qed (use assms in \<open>auto simp: addEntry_def boot_from_def split: option.splits\<close>)

lemma indexFile_spec:
  assumes "indexFile t k n off path pool sz = Some (Inr t')"
  shows "t_layers t' = t_layers t \<and> t_index t' = t_index t @
    (let e = item_entry k (off, path, pool, sz) in if coveredByNewer t n (e_path e) then [] else [e]) \<and>
    t_entrypoint t' = boot_from k (t_entrypoint t)
      (let e = item_entry k (off, path, pool, sz) in if coveredByNewer t n (e_path e) then [] else [e])"
proof -
  let ?b = "pathBasename path"
  consider (o) "?b = OPAQUE_NAME" | (w) "?b \<noteq> OPAQUE_NAME" "take 4 ?b = ''.wh.'' \<and> length ?b > 4"
    | (f) "?b \<noteq> OPAQUE_NAME" "\<not> (take 4 ?b = ''.wh.'' \<and> length ?b > 4)" by blast
  then show ?thesis
  proof cases
    case w
    then obtain t1 t2 where "tar_malloc t = (True, t1)" "rememberOwned t1 = Some (Inr t2)"
      and a: "addEntry t2 k n off (makeWhiteoutTarget path) False TARFS_WHITEOUT sz = Some (Inr t')"
      using assms by (auto simp: indexFile_def Let_def split: prod.splits bool.splits option.splits sum.splits)
    then have "same_index t t2" using tar_malloc_same rememberOwned_same same_index_trans by blast
    then show ?thesis using addEntry_spec[OF a] w coveredByNewer_same[of t t2] by (simp add: item_entry_def Let_def same_index_def)
  qed (use assms in \<open>auto simp: indexFile_def item_entry_def Let_def dest!: addEntry_spec\<close>)
qed

abbreviation fresh :: "tar_index_entry set \<Rightarrow> tar_index_entry list \<Rightarrow> tar_index_entry list" where
  "fresh S es \<equiv> filter (\<lambda>e. \<not> covers PROBE_LIM S (e_path e)) es"

text \<open>Indexing a layer appends what it says that the newer layers do not decide.\<close>

lemma indexLayer_loop_spec:
  assumes "indexLayer_loop t k n buf off er p s = Some (Inr t')" "n \<le> length (t_index t)" "path_sorted (take n (t_index t))"
  shows "\<exists>xs. archive_items buf off er p s = Some xs \<and> t_layers t' = t_layers t \<and>
    t_index t' = t_index t @ fresh (set (take n (t_index t))) (map (item_entry k) xs) \<and>
    t_entrypoint t' = boot_from k (t_entrypoint t) (fresh (set (take n (t_index t))) (map (item_entry k) xs))"
  using assms
proof (induction t k n buf off er p s arbitrary: t' rule: indexLayer_loop.induct)
  case (1 t k n buf off er p s)
  let ?sz = "parseOctal (drop (off + TAR_SIZE_OFFSET) buf) TAR_SIZE_LEN"
  let ?nx = "off + TAR_BLOCK_SIZE + alignUp512 (unat ?sz)"
  consider (e) "\<not> off + TAR_BLOCK_SIZE \<le> length buf"
    | (z) "off + TAR_BLOCK_SIZE \<le> length buf" "isZeroBlock (drop off buf)"
    | (big) "off + TAR_BLOCK_SIZE \<le> length buf" "\<not> isZeroBlock (drop off buf)" "unat ?sz > length buf - off - TAR_BLOCK_SIZE"
    | (h) "off + TAR_BLOCK_SIZE \<le> length buf" "\<not> isZeroBlock (drop off buf)" "\<not> unat ?sz > length buf - off - TAR_BLOCK_SIZE"
    by blast
  then show ?case
  proof cases
    case e
    then show ?thesis using "1.prems"(1) by (subst (asm) indexLayer_loop.simps, subst archive_items.simps) auto
  next
    case z
    show ?thesis
    proof (cases "er + 1 \<ge> 2")
      case True
      then show ?thesis using z "1.prems"(1) by (subst (asm) indexLayer_loop.simps, subst archive_items.simps) auto
    next
      case False
      then have "indexLayer_loop t k n buf (off + TAR_BLOCK_SIZE) (er + 1) p s = Some (Inr t')"
        using z "1.prems"(1) by (subst (asm) indexLayer_loop.simps) simp
      from "1.IH"(1)[OF z False this "1.prems"(2,3)] show ?thesis using z False by (subst archive_items.simps) simp
    qed
  next
    case big
    then show ?thesis using "1.prems"(1)
      by (subst (asm) indexLayer_loop.simps, subst archive_items.simps) (auto simp: Let_def)
  next
    case h
    obtain r where r: "scan_header t (drop off buf) ?sz p s = Some r"
      using "1.prems"(1) h by (subst (asm) indexLayer_loop.simps) (auto simp: Let_def split: option.splits)
    from scan_cases[OF r] show ?thesis
    proof (elim disjE exE conjE)
      fix e assume "r = ScanFail e"
      then show ?thesis using "1.prems"(1) h r by (subst (asm) indexLayer_loop.simps) (simp add: Let_def)
    next
      fix t1 p1 s1 t0
      assume a: "r = ScanNext t1 p1 s1" "same_index t t1" "scan_header no_tarfs (drop off buf) ?sz p s = Some (ScanNext t0 p1 s1)"
      then have l: "indexLayer_loop t1 k n buf ?nx 0 p1 s1 = Some (Inr t')"
        using "1.prems"(1) h r by (subst (asm) indexLayer_loop.simps) (simp add: Let_def)
      show ?thesis using "1.IH"(2)[OF h(1,2) refl h(3) refl r a(1) l] "1.prems"(2,3) a h
        by (subst archive_items.simps) (simp add: Let_def same_index_def)
    next
      fix t1 q b z t0
      assume a: "r = ScanEntry t1 q b z" "same_index t t1" "scan_header no_tarfs (drop off buf) ?sz p s = Some (ScanEntry t0 q b z)"
      then obtain t2 where f: "indexFile t1 k n off q b z = Some (Inr t2)"
        and l: "indexLayer_loop t2 k n buf ?nx 0 None 0 = Some (Inr t')"
        using "1.prems"(1) h r by (subst (asm) indexLayer_loop.simps) (auto simp: Let_def split: option.splits sum.splits)
      define e where "e = item_entry k (off, q, b, z)"
      have i2: "t_index t2 = t_index t @ (if coveredByNewer t n (e_path e) then [] else [e])" "t_layers t2 = t_layers t"
        "t_entrypoint t2 = boot_from k (t_entrypoint t) (if coveredByNewer t n (e_path e) then [] else [e])"
        using indexFile_spec[OF f] a(2) coveredByNewer_same[OF a(2)] by (auto simp: Let_def e_def same_index_def)
      then have "n \<le> length (t_index t2)" "take n (t_index t2) = take n (t_index t)" using "1.prems"(2) by auto
      with "1.IH"(3)[OF h(1,2) refl h(3) refl r a(1) f refl l] "1.prems"(3) obtain xs where
        "archive_items buf ?nx 0 None 0 = Some xs" "t_layers t' = t_layers t2"
        "t_index t' = t_index t2 @ fresh (set (take n (t_index t))) (map (item_entry k) xs)"
        "t_entrypoint t' = boot_from k (t_entrypoint t2) (fresh (set (take n (t_index t))) (map (item_entry k) xs))" by auto
      then show ?thesis using a(3) h i2 coveredByNewer_iff[OF "1.prems"(3,2)]
        by (subst archive_items.simps) (simp add: Let_def e_def boot_from_append[symmetric])
    qed
  qed
qed

section \<open>Sorting\<close>

lemma indexCmp_le: "indexCmp a b \<le> 0 \<longleftrightarrow> e_path a < e_path b \<or> e_path a = e_path b \<and> (isMarker a \<longrightarrow> isMarker b)"
proof (cases "e_path a = e_path b")
  case False
  then show ?thesis using strcmp_le[of "e_path a" "e_path b"] by (simp add: indexCmp_def Let_def order_less_le)
qed (simp add: indexCmp_def)

lemma indexCmp_order: "cmp_order indexCmp"
  unfolding cmp_order_def indexCmp_le using linorder_less_linear by (metis order_less_trans)

definition index_sorted :: "tar_index_entry list \<Rightarrow> bool" where
  "index_sorted idx \<longleftrightarrow> sorted_wrt (\<lambda>a b. indexCmp a b \<le> 0) idx"

lemma index_sorted_path: "index_sorted idx \<Longrightarrow> path_sorted idx"
  unfolding index_sorted_def sorted_map by (erule sorted_wrt_mono_rel[rotated]) (auto simp: indexCmp_le)

lemma set_insert_by: "set (insert_by cmp x xs) = insert x (set xs)"
  by (induction xs) auto

lemma insert_by_sorted:
  assumes "cmp_order cmp" "sorted_wrt (\<lambda>a b. cmp a b \<le> 0) xs"
  shows "sorted_wrt (\<lambda>a b. cmp a b \<le> 0) (insert_by cmp x xs)"
  using assms(2)
proof (induction xs)
  case (Cons y ys)
  have t: "cmp a c \<le> 0" if "cmp a b \<le> 0" "cmp b c \<le> 0" for a b c using assms(1) that unfolding cmp_order_def by blast
  show ?case
  proof (cases "cmp x y \<le> 0")
    case True
    then show ?thesis using Cons.prems t[of x y] by auto
  next
    case False
    then have "cmp y x \<le> 0" using assms(1) unfolding cmp_order_def by blast
    then show ?thesis using Cons False by (auto simp: set_insert_by)
  qed
qed simp

interpretation isort: c_qsort sort_by
proof
  show "mset (sort_by cmp xs) = mset xs" for cmp and xs :: "tar_index_entry list"
  proof -
    have "mset (insert_by cmp x ys) = add_mset x (mset ys)" for x and ys :: "tar_index_entry list"
      by (induction ys) auto
    then show ?thesis by (induction xs) (simp_all add: sort_by_def)
  qed
  show "sorted_wrt (\<lambda>a b. cmp a b \<le> 0) (sort_by cmp xs)" if "cmp_order cmp" for cmp and xs :: "tar_index_entry list"
    by (induction xs) (simp_all add: sort_by_def insert_by_sorted[OF that])
qed

section \<open>The index of a stack of layers\<close>

fun stack :: "tar_index_entry set \<Rightarrow> tar_index_entry list list \<Rightarrow> tar_index_entry set" where
  "stack S [] = S"
| "stack S (L # Ls) = stack (S \<union> set (fresh S L)) Ls"

text \<open>The entrypoint of a stack: that of the first layer with one that is not decided before.\<close>

fun stack_boot :: "(nat \<times> nat \<times> u32) option \<Rightarrow> tar_index_entry set \<Rightarrow> (nat \<times> tar_index_entry list) list \<Rightarrow> (nat \<times> nat \<times> u32) option" where
  "stack_boot b S [] = b"
| "stack_boot b S ((k, L) # Ls) = stack_boot (boot_from k b (fresh S L)) (S \<union> set (fresh S L)) Ls"

context c_qsort begin

lemma index_layers_spec:
  assumes "index_layers qs t ks = Some (Inr t')" "index_sorted (t_index t)"
  shows "set (t_index t') = stack (set (t_index t)) (map (\<lambda>k. layer_entries k (t_layers t ! k)) ks) \<and>
    t_entrypoint t' = stack_boot (t_entrypoint t) (set (t_index t)) (map (\<lambda>k. (k, layer_entries k (t_layers t ! k))) ks) \<and>
    index_sorted (t_index t') \<and> t_layers t' = t_layers t \<and> (\<forall>k \<in> set ks. archive_items (t_layers t ! k) 0 0 None 0 \<noteq> None)"
  using assms
proof (induction ks arbitrary: t)
  case (Cons k ks)
  obtain t1 where t1: "indexLayer t k (length (t_index t)) = Some (Inr t1)"
    using Cons.prems(1) by (auto split: option.splits sum.splits)
  have ps: "path_sorted (take (length (t_index t)) (t_index t))" using index_sorted_path[OF Cons.prems(2)] by simp
  from indexLayer_loop_spec[OF t1[unfolded indexLayer_def] order_refl ps] obtain xs where
    xs: "archive_items (t_layers t ! k) 0 0 None 0 = Some xs" "t_layers t1 = t_layers t"
    "t_index t1 = t_index t @ fresh (set (t_index t)) (map (item_entry k) xs)"
    "t_entrypoint t1 = boot_from k (t_entrypoint t) (fresh (set (t_index t)) (map (item_entry k) xs))" by auto
  define t2 where "t2 = (if t_index t1 = [] then t1 else t1\<lparr>t_index := qs indexCmp (t_index t1)\<rparr>)"
  have "index_layers qs t2 ks = Some (Inr t')" using Cons.prems(1) t1 by (simp add: t2_def)
  moreover have "index_sorted (t_index t2)" using qs_sorted[OF indexCmp_order] by (simp add: t2_def index_sorted_def)
  moreover have "set (t_index t2) = set (t_index t) \<union> set (fresh (set (t_index t)) (layer_entries k (t_layers t ! k)))"
    using mset_eq_setD[OF qs_mset] xs(1,3) by (auto simp: t2_def layer_entries_def)
  moreover have "t_layers t2 = t_layers t" using xs(2) by (simp add: t2_def)
  moreover have "t_entrypoint t2 = boot_from k (t_entrypoint t) (fresh (set (t_index t)) (layer_entries k (t_layers t ! k)))"
    using xs(1,4) by (simp add: t2_def layer_entries_def)
  ultimately show ?case using Cons.IH[of t2] xs(1) by simp
qed simp

lemma TarFsInit_spec:
  assumes "TarFsInit qs maxl layers mallocs = Some (Some t)"
  shows "set (t_index t) = stack {} (map2 layer_entries [0..<length layers] layers) \<and> index_sorted (t_index t) \<and>
    t_entrypoint t = stack_boot None {} (zip [0..<length layers] (map2 layer_entries [0..<length layers] layers)) \<and>
    t_layers t = layers \<and> (\<forall>buf \<in> set layers. archive_items buf 0 0 None 0 \<noteq> None)"
proof -
  obtain t0 where t0: "tar_malloc (tarfs_zero layers mallocs) = (True, t0)" "index_layers qs t0 [0..<length layers] = Some (Inr t)"
    using assms by (auto simp: TarFsInit_def split: if_splits prod.splits bool.splits option.splits sum.splits)
  then have s: "t_index t0 = []" "t_layers t0 = layers" using tar_malloc_same[OF t0(1)] by (auto simp: same_index_def tarfs_zero_def)
  have m: "map (\<lambda>k. layer_entries k (layers ! k)) [0..<length layers] = map2 layer_entries [0..<length layers] layers"
    by (rule nth_equalityI) auto
  have z: "map (\<lambda>k. (k, layer_entries k (layers ! k))) [0..<length layers] =
      zip [0..<length layers] (map2 layer_entries [0..<length layers] layers)" by (rule nth_equalityI) auto
  have "t_entrypoint t0 = None" using tar_malloc_same[OF t0(1)] by (simp add: same_index_def tarfs_zero_def)
  then show ?thesis using index_layers_spec[OF t0(2)] s m z by (auto simp: index_sorted_def in_set_conv_nth)
qed

end

section \<open>Overlay\<close>

text \<open>Whether a layer by itself says anything about a path.\<close>

definition decides :: "tar_index_entry list \<Rightarrow> string \<Rightarrow> bool" where
  "decides L p \<longleftrightarrow> (\<exists>e \<in> set L. e_path e = p \<or> opaque_root e \<or> (\<exists>d r. p = d @ CHR ''/'' # r \<and> hides_below e d))"

text \<open>
  Layers that agree on which paths are directories: no path is a file in one and has something below
  it in another.  Paths are within the length the code probes, and no whiteout is of an opaque marker.
\<close>

definition tidy :: "tar_index_entry list list \<Rightarrow> bool" where
  "tidy Ls \<longleftrightarrow> (\<forall>L \<in> set Ls. \<forall>e \<in> set L. length (e_path e) \<le> PROBE_LIM \<and>
     (e_layer e = TARFS_OPAQUE \<longleftrightarrow> pathBasename (e_path e) = OPAQUE_NAME) \<and>
     (\<not> isMarker e \<longrightarrow> (\<forall>L' \<in> set Ls. \<forall>f \<in> set L'. \<not> prefix (e_path e @ ''/'') (e_path f))))"

lemma stack_snoc: "stack S (Ls @ [L]) = stack S Ls \<union> set (fresh (stack S Ls) L)"
  by (induction Ls arbitrary: S) auto

lemma stack_sub: "stack {} Ls \<subseteq> (\<Union>L \<in> set Ls. set L)"
  by (induction Ls rule: rev_induct) (auto simp: stack_snoc)

lemma covers_mono: "covers lim S p \<Longrightarrow> S \<subseteq> T \<Longrightarrow> covers lim T p"
  by (auto simp: covers_def)

lemma basename_plain: "CHR ''/'' \<notin> set b \<Longrightarrow> pathBasename b = b"
proof -
  assume "CHR ''/'' \<notin> set b"
  then have "\<forall>c \<in> set (rev b). c \<noteq> CHR ''/''" by auto
  then have "takeWhile (\<lambda>c. c \<noteq> CHR ''/'') (rev b) = rev b" by (simp add: takeWhile_eq_all_conv)
  then show ?thesis unfolding pathBasename_def by (simp only: rev_rev_ident)
qed

lemma basename_slash: "CHR ''/'' \<notin> set b \<Longrightarrow> pathBasename (d @ CHR ''/'' # b) = b"
proof -
  assume "CHR ''/'' \<notin> set b"
  then have "\<forall>c \<in> set (rev b). c \<noteq> CHR ''/''" by auto
  then have "takeWhile (\<lambda>c. c \<noteq> CHR ''/'') (rev b @ CHR ''/'' # rev d) = rev b"
    by (subst takeWhile_append2) auto
  then show ?thesis by (simp add: pathBasename_def)
qed

lemma opaque_no_slash [simp]: "CHR ''/'' \<notin> set OPAQUE_NAME"
  by (simp add: OPAQUE_NAME_def)

lemma opaque_not_whiteout [simp]: "TARFS_OPAQUE \<noteq> TARFS_WHITEOUT" "TARFS_WHITEOUT \<noteq> TARFS_OPAQUE"
  by (simp_all add: TARFS_OPAQUE_def TARFS_WHITEOUT_def)

lemma dir_of_slash:
  assumes "d @ CHR ''/'' # b = d' @ CHR ''/'' # r'" "CHR ''/'' \<notin> set b"
  shows "d' = d \<or> (\<exists>r''. d = d' @ CHR ''/'' # r'')"
  using assms by (auto simp: append_eq_append_conv2 Cons_eq_append_conv append_eq_Cons_conv)

lemma hides_belowE:
  assumes "hides_below e d"
  obtains "e_path e = d" "e_layer e = TARFS_WHITEOUT" | "e_path e = d @ CHR ''/'' # OPAQUE_NAME" "e_layer e = TARFS_OPAQUE"
  using assms by (auto simp: hides_below_def)

lemma covers_below:
  "y \<in> S \<Longrightarrow> hides_below y d \<Longrightarrow> p = d @ CHR ''/'' # r \<Longrightarrow> length d < lim \<Longrightarrow> covers lim S p"
  unfolding covers_def by blast

text \<open>
  What hides a hiding entry hides what that entry hides: dropping the entry loses nothing, as long as
  the path is not below a file.
\<close>

lemma covered_hider:
  assumes hid: "hides_below x d" "p = d @ CHR ''/'' # r" "length p \<le> lim"
    and cov: "covers lim S (e_path x)"
    and nofile: "\<forall>y \<in> S. \<not> isMarker y \<longrightarrow> \<not> prefix (e_path y @ ''/'') p"
    and opq: "\<forall>y \<in> insert x S. e_layer y = TARFS_OPAQUE \<longleftrightarrow> pathBasename (e_path y) = OPAQUE_NAME"
  shows "covers lim S p"
proof -
  have ld: "length d < lim" using hid(2,3) by simp
  from cov obtain y where y: "y \<in> S" "e_path y = e_path x \<or> opaque_root y \<or>
      (\<exists>d' r'. e_path x = d' @ CHR ''/'' # r' \<and> length d' < lim \<and> hides_below y d')" by (auto simp: covers_def)
  from y(2) show ?thesis
  proof (elim disjE exE conjE)
    assume eq: "e_path y = e_path x"
    have "hides_below y d"
    proof (cases "e_layer x = TARFS_OPAQUE")
      case True
      then have e: "e_path x = d @ CHR ''/'' # OPAQUE_NAME" using hid(1) by (auto elim: hides_belowE)
      then have "pathBasename (e_path y) = OPAQUE_NAME" using eq by (simp add: basename_slash)
      then have "e_layer y = TARFS_OPAQUE" using opq y(1) by auto
      then show ?thesis using e eq by (simp add: hides_below_def)
    next
      case False
      then have e: "e_path x = d" "e_layer x = TARFS_WHITEOUT" using hid(1) by (auto elim: hides_belowE)
      then have "isMarker y" using nofile y(1) eq hid(2) by (auto simp: prefix_def)
      moreover have "e_layer y \<noteq> TARFS_OPAQUE" using opq y(1) eq False by simp
      ultimately show ?thesis using e eq by (simp add: hides_below_def isMarker_def)
    qed
    then show ?thesis using covers_below[OF y(1)] hid(2) ld by blast
  next
    assume "opaque_root y"
    then show ?thesis using y(1) by (auto simp: covers_def)
  next
    fix d' r' assume a: "e_path x = d' @ CHR ''/'' # r'" "length d' < lim" "hides_below y d'"
    have "d' = d \<or> (\<exists>r''. d = d' @ CHR ''/'' # r'')"
      using hid(1) by (rule hides_belowE) (use a(1) dir_of_slash[OF _ opaque_no_slash, of d d' r'] in auto)
    then show ?thesis using covers_below[OF y(1) a(3)] a(2) hid(2) by auto
  qed
qed

lemma covered_root:
  assumes "opaque_root x" "covers lim S (e_path x)"
    "\<forall>y \<in> insert x S. e_layer y = TARFS_OPAQUE \<longleftrightarrow> pathBasename (e_path y) = OPAQUE_NAME"
  shows "covers lim S p"
proof -
  have e: "e_path x = OPAQUE_NAME" using assms(1) by (simp add: opaque_root_def)
  from assms(2) obtain y where y: "y \<in> S" "e_path y = e_path x \<or> opaque_root y \<or>
      (\<exists>d' r'. e_path x = d' @ CHR ''/'' # r' \<and> length d' < lim \<and> hides_below y d')" by (auto simp: covers_def)
  moreover have "e_path x \<noteq> d' @ CHR ''/'' # r'" for d' r'
    using e opaque_no_slash by (metis in_set_conv_decomp)
  moreover have "opaque_root y" if "e_path y = e_path x"
    using that e assms(3) y(1) by (simp add: opaque_root_def basename_plain)
  ultimately show ?thesis by (auto simp: covers_def)
qed

lemma tidy_snocD: "tidy (Ls @ [L]) \<Longrightarrow> tidy Ls"
  by (auto simp: tidy_def)

text \<open>The index decides a path exactly when one of its layers does.\<close>

lemma stack_covers:
  assumes "tidy Ls" "length p \<le> PROBE_LIM" "\<forall>L \<in> set Ls. \<forall>y \<in> set L. \<not> isMarker y \<longrightarrow> \<not> prefix (e_path y @ ''/'') p"
  shows "covers PROBE_LIM (stack {} Ls) p \<longleftrightarrow> (\<exists>L \<in> set Ls. decides L p)"
proof
  assume "covers PROBE_LIM (stack {} Ls) p"
  then show "\<exists>L \<in> set Ls. decides L p" using stack_sub[of Ls] unfolding covers_def decides_def by blast
next
  assume "\<exists>L \<in> set Ls. decides L p"
  with assms show "covers PROBE_LIM (stack {} Ls) p"
  proof (induction Ls rule: rev_induct)
    case (snoc L Ls)
    let ?S = "stack {} Ls" and ?T = "stack {} (Ls @ [L])"
    have sub: "?S \<subseteq> ?T" by (auto simp: stack_snoc)
    have files: "\<forall>y \<in> ?S. \<not> isMarker y \<longrightarrow> \<not> prefix (e_path y @ ''/'') p" using snoc.prems(3) stack_sub[of Ls] by auto
    show ?case
    proof (cases "\<exists>L \<in> set Ls. decides L p")
      case True
      then have "covers PROBE_LIM ?S p" using snoc.IH[OF tidy_snocD[OF snoc.prems(1)] snoc.prems(2)] snoc.prems(3) by auto
      then show ?thesis using covers_mono sub by blast
    next
      case False
      then have "decides L p" using snoc.prems(4) by auto
      then obtain x where x: "x \<in> set L" "e_path x = p \<or> opaque_root x \<or> (\<exists>d r. p = d @ CHR ''/'' # r \<and> hides_below x d)"
        by (auto simp: decides_def)
      have opq: "\<forall>y \<in> insert x ?S. e_layer y = TARFS_OPAQUE \<longleftrightarrow> pathBasename (e_path y) = OPAQUE_NAME"
        using snoc.prems(1) x(1) stack_sub[of Ls] unfolding tidy_def by auto
      show ?thesis
      proof (cases "covers PROBE_LIM ?S (e_path x)")
        case True
        have "covers PROBE_LIM ?S p" using x(2)
        proof (elim disjE exE conjE)
          assume "opaque_root x"
          then show ?thesis by (rule covered_root[OF _ True opq])
        next
          fix d r assume "p = d @ CHR ''/'' # r" "hides_below x d"
          then show ?thesis using covered_hider[OF _ _ snoc.prems(2) True files opq] by blast
        qed (use True in simp)
        then show ?thesis using covers_mono sub by blast
      next
        case f: False
        then have "x \<in> ?T" using x(1) by (simp add: stack_snoc)
        then show ?thesis using x(2) snoc.prems(2) unfolding covers_def by fastforce
      qed
    qed
  qed simp
qed

lemma stack_iff: "e \<in> stack {} Ls \<longleftrightarrow> (\<exists>k < length Ls. e \<in> set (Ls ! k) \<and> \<not> covers PROBE_LIM (stack {} (take k Ls)) (e_path e))"
proof (induction Ls rule: rev_induct)
  case (snoc L Ls)
  have "(\<exists>k < length (Ls @ [L]). e \<in> set ((Ls @ [L]) ! k) \<and> \<not> covers PROBE_LIM (stack {} (take k (Ls @ [L]))) (e_path e)) \<longleftrightarrow>
    (\<exists>k < length Ls. e \<in> set (Ls ! k) \<and> \<not> covers PROBE_LIM (stack {} (take k Ls)) (e_path e)) \<or>
    e \<in> set L \<and> \<not> covers PROBE_LIM (stack {} Ls) (e_path e)"
    by (simp add: Ex_less_Suc nth_append disj_commute cong: conj_cong)
  then show ?case using snoc.IH by (simp add: stack_snoc)
qed simp

lemma tidy_take: "tidy Ls \<Longrightarrow> tidy (take k Ls)"
  unfolding tidy_def by (meson in_set_takeD)

text \<open>The stack has an entry of a layer exactly when no newer layer decides its path.\<close>

lemma stack_overlay:
  assumes "tidy Ls"
  shows "e \<in> stack {} Ls \<longleftrightarrow> (\<exists>k < length Ls. e \<in> set (Ls ! k) \<and> (\<forall>j < k. \<not> decides (Ls ! j) (e_path e)))"
proof -
  have "covers PROBE_LIM (stack {} (take k Ls)) (e_path e) \<longleftrightarrow> (\<exists>j < k. decides (Ls ! j) (e_path e))"
    if "k < length Ls" "e \<in> set (Ls ! k)" for k
  proof -
    have m: "Ls ! k \<in> set Ls" using that by simp
    have "covers PROBE_LIM (stack {} (take k Ls)) (e_path e) \<longleftrightarrow> (\<exists>L \<in> set (take k Ls). decides L (e_path e))"
      using assms m that(2) by (intro stack_covers tidy_take) (auto simp: tidy_def dest!: in_set_takeD)
    then show ?thesis using ex_set_take[of k Ls] that(1) by simp
  qed
  then show ?thesis unfolding stack_iff by blast
qed

lemma find_first: "find Q xs = Some x \<longleftrightarrow> (\<exists>k < length xs. xs ! k = x \<and> Q x \<and> (\<forall>j < k. \<not> Q (xs ! j)))"
  by (auto simp: find_Some_iff)

lemma stack_file:
  assumes "tidy Ls" "file_at e p"
  shows "e \<in> stack {} Ls \<longleftrightarrow> (\<exists>L. find (\<lambda>L. decides L p) Ls = Some L \<and> e \<in> set L)"
proof -
  have "decides L p" if "e \<in> set L" for L using that assms(2) by (auto simp: decides_def file_at_def)
  then show ?thesis using assms(2) unfolding stack_overlay[OF assms(1)] find_first file_at_def by blast
qed

end
