(* ===== verification/TarFsArchive.thy ===== *)
theory TarFsArchive imports TarFsIndex begin

text \<open>
  Archives as a ustar writer makes them: a header with the name and the octal size for each member,
  its bytes padded to a block, and two zero blocks.  Walking such an archive as \<open>indexLayer\<close> does
  gives its members back.
\<close>

section \<open>Writing an archive\<close>

fun oct :: "nat \<Rightarrow> nat \<Rightarrow> byte list" where
  "oct 0 n = []"
| "oct (Suc k) n = oct k (n div 8) @ [0x30 + of_nat (n mod 8)]"

definition bytes_of :: "string \<Rightarrow> byte list" where
  "bytes_of s = map (\<lambda>c. of_nat (of_char c)) s"

definition ustar_header :: "string \<Rightarrow> nat \<Rightarrow> byte list" where
  "ustar_header name n = bytes_of name @ replicate (124 - length name) 0 @ oct 11 n @ replicate 21 0 @ [0x30] @ replicate 355 0"

definition tar_member :: "string \<times> byte list \<Rightarrow> byte list" where
  "tar_member m = (case m of (name, content) \<Rightarrow>
     ustar_header name (length content) @ content @ replicate (alignUp512 (length content) - length content) 0)"

definition tar_archive :: "(string \<times> byte list) list \<Rightarrow> byte list" where
  "tar_archive ms = concat (map tar_member ms) @ replicate 1024 0"

text \<open>The members a ustar header can carry: a relative name of less than 100 characters, and a size of 32 bits.\<close>

definition good_member :: "string \<times> byte list \<Rightarrow> bool" where
  "good_member m \<longleftrightarrow> (case m of (name, content) \<Rightarrow> name \<noteq> [] \<and> length name < 100 \<and> CHR 0x00 \<notin> set name \<and>
     strip_lead name = name \<and> length content < 2 ^ 32)"

fun member_items :: "nat \<Rightarrow> (string \<times> byte list) list \<Rightarrow> tar_item list" where
  "member_items off [] = []"
| "member_items off ((name, content) # ms) =
     (off, name, False, of_nat (length content)) # member_items (off + TAR_BLOCK_SIZE + alignUp512 (length content)) ms"

section \<open>Reading it back\<close>

lemma lt_8: "d < (8 :: nat) \<Longrightarrow> d \<in> {0, 1, 2, 3, 4, 5, 6, 7}"
  by auto

lemma octal_digit:
  assumes "d < 8"
  shows "push_bit 3 v OR ucast ((0x30 + of_nat d :: byte) - 0x30) = v * 8 + (of_nat d :: u32)"
proof -
  have u: "ucast ((0x30 + of_nat d :: byte) - 0x30) = (of_nat d :: u32)" using lt_8[OF assms] by auto
  have t: "take_bit 3 (of_nat d :: u32) = of_nat d" using assms by (simp add: take_bit_of_nat take_bit_nat_eq_self)
  have "push_bit 3 v AND (of_nat d :: u32) = 0"
  proof (rule bit_word_eqI)
    fix n
    have "bit (of_nat d :: u32) n \<longrightarrow> n < 3" using t by (metis bit_take_bit_iff)
    then show "bit (push_bit 3 v AND (of_nat d :: u32)) n = bit 0 n" by (auto simp: bit_and_iff bit_push_bit_iff)
  qed
  then have "push_bit 3 v OR of_nat d = push_bit 3 v + (of_nat d :: u32)" by (simp add: disjunctive_add_eq_or)
  then show ?thesis using u by (simp add: push_bit_eq_mult)
qed

lemma digit_range: "d < 8 \<Longrightarrow> 0x30 \<le> (0x30 + of_nat d :: byte) \<and> (0x30 + of_nat d :: byte) \<le> 0x37"
  by (drule lt_8) auto

lemma octal_oct: "octal_loop v (oct k n @ ys) = octal_loop (v * 8 ^ k + of_nat (n mod 8 ^ k)) ys"
proof (induction k arbitrary: n ys)
  case (Suc k)
  have d: "n mod 8 < 8" by simp
  let ?b = "0x30 + of_nat (n mod 8) :: byte"
  have "octal_loop v (oct (Suc k) n @ ys) = octal_loop (v * 8 ^ k + of_nat (n div 8 mod 8 ^ k)) (?b # ys)"
    using Suc.IH[of "n div 8" "?b # ys"] by simp
  also have "\<dots> = octal_loop ((v * 8 ^ k + of_nat (n div 8 mod 8 ^ k)) * 8 + of_nat (n mod 8)) ys"
    by (simp only: octal_loop.simps digit_range[OF d] octal_digit[OF d] simp_thms if_True)
  also have "(v * 8 ^ k + of_nat (n div 8 mod 8 ^ k)) * 8 + of_nat (n mod 8) =
      v * 8 ^ Suc k + (of_nat ((n div 8 mod 8 ^ k) * 8 + n mod 8) :: u32)" by (simp add: algebra_simps)
  also have "(n div 8 mod 8 ^ k) * 8 + n mod 8 = n mod 8 ^ Suc k"
    by (simp add: mod_mult2_eq)
  finally show ?case .
qed simp

lemma oct_length [simp]: "length (oct k n) = k"
  by (induction k arbitrary: n) auto

lemma header_length [simp]: "length name \<le> 124 \<Longrightarrow> length (ustar_header name n) = 512"
  by (simp add: ustar_header_def bytes_of_def)

lemma header_size:
  assumes "length name < 100" "n < 2 ^ 32"
  shows "parseOctal (drop TAR_SIZE_OFFSET (ustar_header name n @ rest)) TAR_SIZE_LEN = of_nat n"
proof -
  have "take TAR_SIZE_LEN (drop TAR_SIZE_OFFSET (ustar_header name n @ rest)) = oct 11 n @ [0]"
    using assms(1) by (simp add: ustar_header_def bytes_of_def TAR_SIZE_LEN_def TAR_SIZE_OFFSET_def)
  moreover have "n mod 8 ^ 11 = n" using assms(2) by simp
  ultimately show ?thesis using octal_oct[of 0 11 n "[0]"] by (simp add: parseOctal_def)
qed

lemma bytes_of_char:
  fixes c :: char
  assumes "b = (of_nat (of_char c) :: byte)"
  shows "char_of (unat b) = c" "c \<noteq> CHR 0x00 \<Longrightarrow> b \<noteq> 0"
proof -
  have u: "unat b = of_char c" using assms by (simp add: unat_of_nat take_bit_nat_eq_self)
  then show "char_of (unat b) = c" by simp
  assume "c \<noteq> CHR 0x00"
  moreover have "char_of (0 :: nat) = CHR 0x00" by (simp add: char_of_def)
  ultimately show "b \<noteq> 0" using \<open>char_of (unat b) = c\<close> by (metis unsigned_0)
qed

lemma bytes_of_str [simp]: "str_of (bytes_of s) = s"
  by (induction s) (auto simp: str_of_def bytes_of_def bytes_of_char(1)[OF refl])

lemma header_name:
  assumes "length name < 100" "CHR 0x00 \<notin> set name"
  shows "strn TAR_NAME_LEN (ustar_header name n @ rest) = name"
proof -
  have b: "\<forall>b \<in> set (bytes_of name). b \<noteq> 0"
  proof
    fix b assume "b \<in> set (bytes_of name)"
    then obtain c where "c \<in> set name" "b = of_nat (of_char c)" by (auto simp: bytes_of_def)
    then show "b \<noteq> 0" using assms(2) bytes_of_char(2)[of b c] by metis
  qed
  have len: "length (bytes_of name) = length name" by (simp add: bytes_of_def)
  have "take TAR_NAME_LEN (ustar_header name n @ rest) = bytes_of name @ replicate (100 - length name) 0"
    unfolding ustar_header_def TAR_NAME_LEN_def append_assoc take_append len using assms(1) len by simp
  also have "replicate (100 - length name) (0 :: byte) = 0 # replicate (99 - length name) 0"
    using assms(1) by (simp flip: replicate_Suc add: Suc_diff_le)
  finally have t: "take TAR_NAME_LEN (ustar_header name n @ rest) = bytes_of name @ 0 # replicate (99 - length name) 0" .
  have "takeWhile (\<lambda>b. b \<noteq> 0) (bytes_of name @ 0 # replicate (99 - length name) 0) = bytes_of name"
    using b by (subst takeWhile_append2) auto
  then show ?thesis unfolding strn_def t by simp
qed

lemma header_type: "length name < 100 \<Longrightarrow> (ustar_header name n @ rest) ! TAR_TYPEFLAG_OFFSET = 0x30"
  by (auto simp: ustar_header_def bytes_of_def TAR_TYPEFLAG_OFFSET_def nth_append nth_Cons')

lemma header_prefix: "length name < 100 \<Longrightarrow> (ustar_header name n @ rest) ! TAR_PREFIX_OFFSET = 0"
  by (auto simp: ustar_header_def bytes_of_def TAR_PREFIX_OFFSET_def nth_append nth_Cons')

lemma header_not_zero: "length name < 100 \<Longrightarrow> \<not> isZeroBlock (ustar_header name n @ rest)"
proof
  assume "length name < 100" "isZeroBlock (ustar_header name n @ rest)"
  moreover have "0x30 \<in> set (ustar_header name n)" by (simp add: ustar_header_def)
  ultimately show False by (auto simp: isZeroBlock_def TAR_BLOCK_SIZE_def list_all_iff)
qed

lemma header_scan:
  assumes "good_member (name, content)"
  shows "scan_header t (ustar_header name n @ rest) sz None 0 = Some (ScanEntry t name False sz)"
  using assms header_name[of name n rest] header_type[of name n rest] header_prefix[of name n rest]
  by (auto simp: good_member_def scan_header_def scan_entry_def scan_name_def Let_def TAR_NAME_LEN_def)

lemma align_ge: "n \<le> alignUp512 n"
  by (simp add: alignUp512_def TAR_BLOCK_SIZE_def)

lemma member_length: "good_member (name, content) \<Longrightarrow> length (tar_member (name, content)) = TAR_BLOCK_SIZE + alignUp512 (length content)"
  using align_ge[of "length content"] by (simp add: tar_member_def good_member_def TAR_BLOCK_SIZE_def)

lemma archive_end: "archive_items (pre @ replicate 1024 0) (length pre) 0 None 0 = Some []"
  by (subst archive_items.simps, subst archive_items.simps) (simp add: TAR_BLOCK_SIZE_def isZeroBlock_def list_all_iff)

lemma archive_members:
  "list_all good_member ms \<Longrightarrow>
   archive_items (pre @ tar_archive ms) (length pre) 0 None 0 = Some (member_items (length pre) ms)"
proof (induction ms arbitrary: pre)
  case Nil
  then show ?case using archive_end by (simp add: tar_archive_def)
next
  case (Cons m ms)
  obtain name content where m: "m = (name, content)" by (cases m)
  define n where "n = length content"
  define rest where "rest = content @ replicate (alignUp512 n - n) 0 @ tar_archive ms"
  have g: "good_member (name, content)" using Cons.prems m by simp
  then have l: "length name < 100" "n < 2 ^ 32" by (auto simp: good_member_def n_def)
  have buf: "pre @ tar_archive (m # ms) = pre @ ustar_header name n @ rest"
    by (simp add: tar_archive_def tar_member_def m rest_def n_def)
  have d: "drop (length pre) (pre @ ustar_header name n @ rest) = ustar_header name n @ rest"
    "drop (length pre + TAR_SIZE_OFFSET) (pre @ ustar_header name n @ rest) = drop TAR_SIZE_OFFSET (ustar_header name n @ rest)"
    by simp_all
  have sz: "parseOctal (drop TAR_SIZE_OFFSET (ustar_header name n @ rest)) TAR_SIZE_LEN = of_nat n" using header_size[OF l] .
  have un: "unat (of_nat n :: u32) = n" using l(2) by (simp add: unat_of_nat take_bit_nat_eq_self)
  have ge: "\<not> length rest < n" by (simp add: rest_def n_def)
  have len: "length (ustar_header name n) = 512" using l(1) by simp
  let ?pre = "pre @ tar_member m"
  have pl: "length ?pre = length pre + TAR_BLOCK_SIZE + alignUp512 n" using member_length[OF g] m by (simp add: n_def)
  have "archive_items (pre @ ustar_header name n @ rest) (length ?pre) 0 None 0 = Some (member_items (length ?pre) ms)"
    using Cons.IH[of ?pre] Cons.prems buf by (simp add: tar_archive_def)
  then show ?case unfolding buf pl
    by (subst archive_items.simps)
      (simp add: d sz un ge len header_not_zero[OF l(1)] header_scan[OF g] Let_def m n_def[symmetric] TAR_BLOCK_SIZE_def
        del: drop_append)
qed

lemma archive_walk: "list_all good_member ms \<Longrightarrow> archive_items (tar_archive ms) 0 0 None 0 = Some (member_items 0 ms)"
  using archive_members[of ms "[]"] by simp

lemma member_items_plain: "list_all (\<lambda>(off, path, pool, sz). \<not> pool) (member_items off ms)"
  by (induction off ms rule: member_items.induct) auto

lemma member_items_length [simp]: "length (member_items off ms) = length ms"
  by (induction off ms rule: member_items.induct) auto

lemma archive_entries: "list_all good_member ms \<Longrightarrow> layer_entries k (tar_archive ms) = map (item_entry k) (member_items 0 ms)"
  by (simp add: layer_entries_def archive_walk)

lemma archive_not_empty [simp]: "tar_archive ms \<noteq> []"
  by (simp add: tar_archive_def)

text \<open>Where a member lies in its archive.\<close>

lemma member_place:
  assumes "list_all good_member ms" "i < length ms" "ms ! i = (name, content)"
  shows "\<exists>pre post. tar_archive ms = pre @ tar_member (name, content) @ post \<and>
    member_items off ms ! i = (off + length pre, name, False, of_nat (length content))"
  using assms
proof (induction ms arbitrary: i off)
  case (Cons m ms)
  obtain n c where m: "m = (n, c)" by (cases m)
  show ?case
  proof (cases i)
    case 0
    then show ?thesis using Cons.prems(3) m by (auto simp: tar_archive_def intro!: exI[of _ "[]"])
  next
    case (Suc j)
    obtain pre post where p: "tar_archive ms = pre @ tar_member (name, content) @ post"
      "member_items (off + TAR_BLOCK_SIZE + alignUp512 (length c)) ms ! j =
        (off + TAR_BLOCK_SIZE + alignUp512 (length c) + length pre, name, False, of_nat (length content))"
      using Cons.IH[of j] Cons.prems Suc by fastforce
    have "tar_archive (m # ms) = (tar_member m @ pre) @ tar_member (name, content) @ post" using p(1) by (simp add: tar_archive_def)
    moreover have "length (tar_member m) = TAR_BLOCK_SIZE + alignUp512 (length c)" using Cons.prems(1) m member_length by simp
    ultimately show ?thesis using p(2) Suc m by (intro exI[of _ "tar_member m @ pre"] exI[of _ post]) simp
  qed
qed simp

lemma member_content:
  assumes "good_member (name, content)" "buf = pre @ tar_member (name, content) @ post"
  shows "take (length content) (drop (length pre + TAR_BLOCK_SIZE) buf) = content"
    "length pre + TAR_BLOCK_SIZE + length content \<le> length buf"
    "parseOctal (drop (length pre + TAR_SIZE_OFFSET) buf) TAR_SIZE_LEN = of_nat (length content)"
proof -
  have l: "length name < 100" "length content < 2 ^ 32" using assms(1) by (auto simp: good_member_def)
  define rest where "rest = replicate (alignUp512 (length content) - length content) 0 @ post"
  have b: "buf = pre @ ustar_header name (length content) @ content @ rest" using assms(2) by (simp add: tar_member_def rest_def)
  have h: "length (ustar_header name (length content)) = TAR_BLOCK_SIZE" using l(1) by (simp add: TAR_BLOCK_SIZE_def)
  show "take (length content) (drop (length pre + TAR_BLOCK_SIZE) buf) = content" by (simp add: b h)
  show "length pre + TAR_BLOCK_SIZE + length content \<le> length buf" by (simp add: b h)
  show "parseOctal (drop (length pre + TAR_SIZE_OFFSET) buf) TAR_SIZE_LEN = of_nat (length content)"
    using header_size[OF l, of "content @ rest"] by (simp add: b del: drop_append) simp
qed

end
