(* ===== verification/TarFsLoad.thy ===== *)
theory TarFsLoad imports TarFsArchive begin

text \<open>
  Loading an image comes to an end: the loop over PAX records, and \<open>TarFsInit\<close> over the layers.
\<close>

section \<open>PAX records\<close>

lemma digit_value: "is_digit b \<Longrightarrow> unat (ucast (b - 0x30) :: u64) \<le> 9"
proof -
  assume "is_digit b"
  then have "0x30 \<le> b" "unat b \<le> 57" by (auto simp: is_digit_def word_le_nat_alt)
  then have "unat (b - 0x30) \<le> 9" by (simp add: unat_sub word_le_nat_alt)
  then show ?thesis by (simp add: unsigned_ucast_eq take_bit_nat_eq_self)
qed

lemma dec_u64_bound: "list_all is_digit ds \<Longrightarrow> length ds \<le> 18 \<Longrightarrow> unat (dec_u64 ds) < 10 ^ length ds"
proof (induction ds rule: rev_induct)
  case (snoc b ds)
  then have IH: "unat (dec_u64 ds) < 10 ^ length ds" and d: "unat (ucast (b - 0x30) :: u64) \<le> 9"
    using digit_value[of b] by auto
  have p: "(10 :: nat) ^ Suc (length ds) \<le> 10 ^ 18" using snoc.prems(2) by (intro power_increasing) auto
  then have s: "unat (dec_u64 ds) * 10 + unat (ucast (b - 0x30) :: u64) < 2 ^ 64" using IH d by simp
  have "dec_u64 (ds @ [b]) = dec_u64 ds * 10 + ucast (b - 0x30)" by (simp add: dec_u64_def)
  then have "unat (dec_u64 (ds @ [b])) = (unat (dec_u64 ds) * 10 + unat (ucast (b - 0x30) :: u64)) mod 2 ^ 64"
    by (simp add: unat_word_ariths mod_simps)
  then show ?case using s IH d by simp
qed (simp add: dec_u64_def)

lemma pax_progress:
  assumes "pos < length data" "length data < 2 ^ 63" "ds = takeWhile is_digit (drop pos data)" "length ds \<le> 18" "dec_u64 ds \<noteq> 0"
  shows "pos < unat (of_nat pos + dec_u64 ds :: u64)"
proof -
  have "list_all is_digit ds" using assms(3) set_takeWhileD by (metis list.pred_set)
  then have "unat (dec_u64 ds) < 10 ^ length ds" using dec_u64_bound assms(4) by blast
  also have "\<dots> \<le> 10 ^ 18" using assms(4) by (intro power_increasing) auto
  finally have "pos + unat (dec_u64 ds) < 2 ^ 64" using assms(1,2) by simp
  moreover have "unat (of_nat pos :: u64) = pos" using assms(1,2) by (simp add: unat_of_nat take_bit_nat_eq_self)
  ultimately have "unat (of_nat pos + dec_u64 ds :: u64) = pos + unat (dec_u64 ds)" by (simp add: unat_word_ariths)
  moreover have "unat (dec_u64 ds) > 0" using assms(5) by (simp add: unat_gt_0)
  ultimately show ?thesis by simp
qed

lemma pax_loop_returns:
  assumes "length data < 2 ^ 63" "\<forall>i < length data. length (takeWhile is_digit (drop i data)) \<le> 18"
  shows "\<exists>r. pax_loop data pos path sz = Some r"
proof (induction "length data - pos" arbitrary: pos path sz rule: less_induct)
  case less
  let ?ds = "takeWhile is_digit (drop pos data)"
  let ?re = "unat (of_nat pos + dec_u64 ?ds :: u64)"
  have IH: "\<exists>r. pax_loop data ?re path sz = Some r" if "pos < length data" "dec_u64 ?ds \<noteq> 0" "?re \<le> length data" for path sz
    using pax_progress[OF that(1) assms(1) refl _ that(2)] assms(2) that less by (metis diff_less_mono2)
  show ?case by (subst pax_loop.simps) (use IH in \<open>auto simp: Let_def\<close>)
qed

text \<open>
  C15: The PAX header of an archive is read to its end: where no run of digits in it is longer than 18,
  so that no length wraps, \<open>parsePaxData\<close> returns whatever the records say.
\<close>

theorem pax_terminates:
  assumes "length data < 2 ^ 63" "list_all (\<lambda>i. length (takeWhile is_digit (drop i data)) \<le> 18) [0..<length data]"
  shows "\<exists>r. parsePaxData data sz = Some r"
  unfolding parsePaxData_def using pax_loop_returns[OF assms(1)] assms(2) by (simp add: list_all_iff)

theorem pax_terminates_witness:
  "length (pax_key ''12 path=ab'') = 10 \<and>
   list_all (\<lambda>i. length (takeWhile is_digit (drop i (pax_key ''12 path=ab''))) \<le> 18) [0..<10] \<and>
   (\<exists>r. parsePaxData (pax_key ''12 path=ab'') 0 = Some r)"
proof -
  have l: "length (pax_key ''12 path=ab'') = 10" by code_simp
  have d: "list_all (\<lambda>i. length (takeWhile is_digit (drop i (pax_key ''12 path=ab''))) \<le> 18) [0..<10]" by code_simp
  show ?thesis using pax_terminates[of "pax_key ''12 path=ab''" 0] l d by simp
qed

text \<open>A record whose length is \<open>2\<^sup>6\<^sup>4 - 6\<close> sends the loop back to the record before it.\<close>

definition pax_cycle :: "byte list" where
  "pax_cycle = pax_key ''6 a=b'' @ [0x0a] @ pax_key ''18446744073709551610 x''"

lemma pax_cycle_facts:
  "length pax_cycle = 28"
  "takeWhile is_digit pax_cycle = [0x36]" "dec_u64 [0x36] = 6" "pax_cycle ! Suc 0 = 0x20"
  "takeWhile (\<lambda>b. b \<noteq> 0x3d \<and> b \<noteq> 0x0a) (take 4 (drop (Suc (Suc 0)) pax_cycle)) = [0x61]" "pax_cycle ! Suc (Suc (Suc 0)) = 0x3d" "pax_cycle ! 26 = 0x20"
  "length (takeWhile is_digit (drop 6 pax_cycle)) = 20" "dec_u64 (takeWhile is_digit (drop 6 pax_cycle)) = - 6"
  "pax_key ''path'' = [0x70, 0x61, 0x74, 0x68]" "pax_key ''size'' = [0x73, 0x69, 0x7a, 0x65]"
  by code_simp+

lemma pax_cycle_diverges:
  assumes "pax_loop d pos path sz = Some r"
  shows "\<not> (d = pax_cycle \<and> (pos = 0 \<or> pos = 6))"
proof (rule pax_loop.raw_induct[OF _ assms], goal_cases)
  case (1 f d pos path sz r)
  show ?case
  proof
    assume "d = pax_cycle \<and> (pos = 0 \<or> pos = 6)"
    with 1(2) have "f pax_cycle 6 path sz = Some r \<or> f pax_cycle 0 path sz = Some r"
      by (auto simp: Let_def pax_cycle_facts)
    then show False using 1(1) by blast
  qed
qed

text \<open>
  The reader of PAX headers does not return on every archive: lengths wrap, and a record can send it
  back to one it has read.
\<close>

theorem pax_never_returns: "parsePaxData pax_cycle sz = None"
  using pax_cycle_diverges[of pax_cycle 0 None sz] by (cases "pax_loop pax_cycle 0 None sz") (auto simp: parsePaxData_def)

section \<open>Indexing returns\<close>

text \<open>A capacity that doubles from a power of two: within it, and never past \<open>2\<^sup>1\<^sup>5\<close>.\<close>

definition cap_ok :: "16 word \<Rightarrow> nat \<Rightarrow> bool" where
  "cap_ok c n \<longleftrightarrow> n \<le> unat c \<and> (c = 0 \<or> (\<exists>i. i \<le> 15 \<and> unat c = 2 ^ i))"

lemma cap_grow:
  assumes "cap_ok c n" "n = unat c" "n < 32768" "unat init = 2 ^ j" "j \<le> 15"
  shows "n < unat (if c \<noteq> 0 then c * 2 else init) \<and> cap_ok (if c \<noteq> 0 then c * 2 else init) (Suc n)"
proof (cases "c = 0")
  case True
  then have "n = 0" using assms(2) by simp
  moreover have "(1 :: nat) \<le> 2 ^ j" by simp
  ultimately show ?thesis using True assms(4,5) by (auto simp: cap_ok_def)
next
  case False
  then obtain i where i: "i \<le> 15" "unat c = 2 ^ i" using assms(1) by (auto simp: cap_ok_def)
  have "i \<noteq> 15" using assms(2,3) i(2) by auto
  then have lt: "i < 15" using i(1) by simp
  then have "(2 :: nat) ^ Suc i \<le> 2 ^ 15" by (intro power_increasing) auto
  then have "unat (c * 2) = 2 ^ Suc i" using i(2) by (simp add: unat_word_ariths)
  then show ?thesis using False lt assms(2) i(2) by (auto simp: cap_ok_def intro!: exI[of _ "Suc i"])
qed

definition room :: "tarfs \<Rightarrow> nat \<Rightarrow> nat \<Rightarrow> bool" where
  "room t m n \<longleftrightarrow> cap_ok (t_index_cap t) (length (t_index t)) \<and> cap_ok (t_owned_cap t) (t_owned_len t) \<and>
     length (t_index t) + m \<le> 32768 \<and> t_owned_len t + n \<le> 32768 \<and> \<not> list_ex e_pool (t_index t)"

text \<open>A step that returns, keeps room for what is to come, and fails only if the allocator does.\<close>

definition returns :: "tarfs \<Rightarrow> nat \<Rightarrow> nat \<Rightarrow> (errno + tarfs) option \<Rightarrow> bool" where
  "returns t m n x \<longleftrightarrow> (case x of None \<Rightarrow> False | Some (Inl e) \<Rightarrow> t_mallocs t \<noteq> []
     | Some (Inr t') \<Rightarrow> room t' m n \<and> t_layers t' = t_layers t \<and> (t_mallocs t = [] \<longrightarrow> t_mallocs t' = []))"

lemma tar_malloc_cases:
  obtains bs where "tar_malloc t = (False, t\<lparr>t_mallocs := bs\<rparr>)" "t_mallocs t \<noteq> []"
  | bs where "tar_malloc t = (True, t\<lparr>t_mallocs := bs\<rparr>)" "t_mallocs t = [] \<longrightarrow> bs = []"
  by (cases "t_mallocs t"; cases "hd (t_mallocs t)") (auto simp: tar_malloc_def)

lemma room_weaken: "room t m n \<Longrightarrow> m' \<le> m \<Longrightarrow> n' \<le> n \<Longrightarrow> room t m' n'"
  by (auto simp: room_def)

lemma returns_from:
  "t_mallocs t = [] \<longrightarrow> t_mallocs t1 = [] \<Longrightarrow> t_layers t1 = t_layers t \<Longrightarrow> returns t1 m n x \<Longrightarrow> returns t m n x"
  by (auto simp: returns_def split: option.splits sum.splits)

lemma addEntry_returns:
  assumes "room t (Suc m) n" "\<not> pool"
  shows "returns t m n (addEntry t k l off path pool kind sz)"
proof (cases "coveredByNewer t l path")
  case True
  then show ?thesis using room_weaken[OF assms(1), of m n] by (simp add: addEntry_def returns_def)
next
  case False
  define t1 where "t1 = (if (kind \<noteq> TARFS_WHITEOUT \<and> kind \<noteq> TARFS_OPAQUE) \<and> path = ''app.wasm'' \<and> t_entrypoint t = None
                  then t\<lparr>t_entrypoint := Some (k, off + TAR_BLOCK_SIZE, sz)\<rparr> else t)"
  have a: "addEntry t k l off path pool kind sz = (case (if length (t_index t1) = unat (t_index_cap t1) then growIndex t1 else Some (Inr t1)) of
        None \<Rightarrow> None | Some (Inl e) \<Rightarrow> Some (Inl e)
        | Some (Inr t2) \<Rightarrow> Some (Inr (t2\<lparr>t_index := t_index t2 @ [\<lparr>e_path = path, e_pool = pool, e_layer = kind,
              e_hdr_offset = off, e_fsize = sz\<rparr>]\<rparr>)))"
    using False by (simp only: addEntry_def if_False Let_def t1_def)
  have r: "room t1 (Suc m) n" "t_mallocs t1 = t_mallocs t" "t_layers t1 = t_layers t"
    using assms(1) by (auto simp: t1_def room_def)
  show ?thesis
  proof (cases "length (t_index t1) = unat (t_index_cap t1)")
    case full: True
    have "unat INDEX_INIT_CAP = 2 ^ 4" by (simp add: INDEX_INIT_CAP_def)
    from cap_grow[OF _ full _ this] have g: "length (t_index t1) < unat (if t_index_cap t1 \<noteq> 0 then t_index_cap t1 * 2 else INDEX_INIT_CAP)"
      "cap_ok (if t_index_cap t1 \<noteq> 0 then t_index_cap t1 * 2 else INDEX_INIT_CAP) (Suc (length (t_index t1)))"
      using r(1) by (auto simp: room_def)
    show ?thesis
    proof (cases t1 rule: tar_malloc_cases)
      case 1
      then show ?thesis using r(2) full unfolding a by (simp add: growIndex_def Let_def returns_def)
    next
      case (2 bs)
      then show ?thesis using r assms(2) full g unfolding a
        by (simp del: if_split add: growIndex_def Let_def returns_def room_def)
    qed
  next
    case f: False
    then show ?thesis using r assms(2) unfolding a by (auto simp: returns_def room_def cap_ok_def)
  qed
qed

lemma rememberOwned_returns:
  assumes "room t m (Suc n)"
  shows "returns t m n (rememberOwned t)"
proof (cases "t_owned_len t = unat (t_owned_cap t)")
  case full: True
  obtain j where "unat OWNED_INIT_CAP = 2 ^ j" "j \<le> 15"
  proof
    show "unat OWNED_INIT_CAP = 2 ^ 2" by (simp add: OWNED_INIT_CAP_def)
  qed simp
  from cap_grow[OF _ full _ this] have g: "t_owned_len t < unat (if t_owned_cap t \<noteq> 0 then t_owned_cap t * 2 else OWNED_INIT_CAP)"
    "cap_ok (if t_owned_cap t \<noteq> 0 then t_owned_cap t * 2 else OWNED_INIT_CAP) (Suc (t_owned_len t))"
    using assms by (auto simp: room_def)
  show ?thesis
  proof (cases t rule: tar_malloc_cases)
    case 1
    then show ?thesis using full by (simp add: rememberOwned_def Let_def returns_def)
  next
    case (2 bs)
    then show ?thesis using assms full g
      by (simp del: if_split add: rememberOwned_def Let_def returns_def room_def)
  qed
next
  case False
  then show ?thesis using assms by (auto simp: rememberOwned_def returns_def room_def cap_ok_def)
qed

lemma indexFile_returns:
  assumes "room t (Suc m) (Suc n)" "\<not> pool"
  shows "returns t m n (indexFile t k l off path pool sz)"
proof -
  let ?b = "pathBasename path"
  have w: "returns t m n (addEntry t k l off path pool kind sz)" for kind
    using addEntry_returns[OF room_weaken[OF assms(1)] assms(2)] by simp
  show ?thesis
  proof (cases "?b \<noteq> OPAQUE_NAME \<and> take 4 ?b = ''.wh.'' \<and> length ?b > 4")
    case True
    show ?thesis
    proof (cases t rule: tar_malloc_cases)
      case 1
      then show ?thesis using True by (simp add: indexFile_def Let_def returns_def)
    next
      case (2 bs)
      define t1 where "t1 = t\<lparr>t_mallocs := bs\<rparr>"
      have r1: "returns t1 (Suc m) n (rememberOwned t1)"
        using assms(1) by (intro rememberOwned_returns) (simp add: t1_def room_def)
      have i: "indexFile t k l off path pool sz = (case rememberOwned t1 of None \<Rightarrow> None | Some (Inl e) \<Rightarrow> Some (Inl e)
          | Some (Inr t2) \<Rightarrow> addEntry t2 k l off (makeWhiteoutTarget path) False TARFS_WHITEOUT sz)"
        using True 2 by (simp add: indexFile_def Let_def t1_def)
      have m1: "t_mallocs t = [] \<longrightarrow> t_mallocs t1 = []" "t_layers t1 = t_layers t" using 2 by (auto simp: t1_def)
      show ?thesis
      proof (cases "rememberOwned t1")
        case (Some x)
        then show ?thesis
        proof (cases x)
          case (Inr t2)
          with Some r1 have "room t2 (Suc m) n" "t_layers t2 = t_layers t1" "t_mallocs t1 = [] \<longrightarrow> t_mallocs t2 = []"
            by (auto simp: returns_def)
          then show ?thesis unfolding i using Some Inr m1 by (auto intro!: returns_from[OF _ _ addEntry_returns])
        qed (use i r1 m1 in \<open>auto simp: returns_def\<close>)
      qed (use r1 in \<open>simp add: returns_def\<close>)
    qed
  next
    case False
    then show ?thesis using w by (auto simp: indexFile_def Let_def)
  qed
qed

definition same_room :: "tarfs \<Rightarrow> tarfs \<Rightarrow> bool" where
  "same_room t t' \<longleftrightarrow> same_index t t' \<and> t_index_cap t' = t_index_cap t \<and> t_owned_cap t' = t_owned_cap t \<and>
     t_owned_len t' = t_owned_len t \<and> (t_mallocs t = [] \<longrightarrow> t_mallocs t' = [])"

lemma same_room_refl [simp]: "same_room t t"
  by (simp add: same_room_def)

lemma same_room_returns: "same_room t t1 \<Longrightarrow> returns t1 m n x \<Longrightarrow> returns t m n x"
  by (rule returns_from[of t t1]) (auto simp: same_room_def same_index_def)

lemma same_room_room: "same_room t t1 \<Longrightarrow> room t1 m n = room t m n"
  by (simp add: same_room_def same_index_def room_def)

lemma internPath_returns:
  assumes "\<not> list_ex e_pool (t_index t)"
  obtains e where "internPath t n = Some (Inl e)" "t_mallocs t \<noteq> []"
  | t1 where "internPath t n = Some (Inr t1)" "same_room t t1"
  using assms by (cases t rule: tar_malloc_cases; cases "t_pool_used t + n + 1 > t_pool_cap t")
    (auto simp: internPath_def Let_def same_room_def same_index_def)

definition scan_returns :: "tarfs \<Rightarrow> tar_scan option \<Rightarrow> bool" where
  "scan_returns t x \<longleftrightarrow> (case x of None \<Rightarrow> False | Some (ScanFail e) \<Rightarrow> t_mallocs t \<noteq> []
     | Some (ScanNext t1 p s) \<Rightarrow> same_room t t1 | Some (ScanEntry t1 p b s) \<Rightarrow> same_room t t1)"

lemma scan_pax_returns:
  assumes "\<not> list_ex e_pool (t_index t)" "scan_pax no_tarfs d p s \<noteq> None"
  shows "scan_returns t (scan_pax t d p s)"
proof (cases "parsePaxData d s")
  case (Some x)
  obtain raw sz where x: "x = (raw, sz)" by (cases x)
  show ?thesis
  proof (cases raw)
    case r: (Some bs)
    show ?thesis
      by (rule internPath_returns[OF assms(1), of "length (strip_lead (str_of bs))"])
        (use Some x r in \<open>auto simp: scan_pax_def Let_def scan_returns_def\<close>)
  qed (use Some x in \<open>simp add: scan_pax_def scan_returns_def\<close>)
qed (use assms(2) in \<open>simp add: scan_pax_def\<close>)

lemma scan_name_returns:
  assumes "\<not> list_ex e_pool (t_index t)"
  shows "scan_returns t (scan_name t h sz)"
  by (rule internPath_returns[OF assms, of "length (strn 155 (drop TAR_PREFIX_OFFSET h)) + 1 + length (strn TAR_NAME_LEN h)"])
    (auto simp: scan_name_def Let_def scan_returns_def)

lemma scan_entry_returns:
  assumes "\<not> list_ex e_pool (t_index t)"
  shows "scan_returns t (scan_entry t h p sz)"
proof (cases p)
  case None
  obtain r where r: "scan_name t h sz = Some r" using scan_name_returns[OF assms, of h sz]
    by (cases "scan_name t h sz") (auto simp: scan_returns_def)
  show ?thesis using scan_name_returns[OF assms, of h sz] None r
    by (cases r) (auto simp: scan_entry_def Let_def scan_returns_def same_room_def same_index_def)
next
  case (Some a)
  then show ?thesis by (cases a) (auto simp: scan_entry_def Let_def scan_returns_def same_room_def same_index_def)
qed

lemma scan_header_returns:
  assumes "\<not> list_ex e_pool (t_index t)" "scan_header no_tarfs h sz p s \<noteq> None"
  shows "scan_returns t (scan_header t h sz p s)"
proof -
  have "scan_returns t (scan_long t d n p s)" if "scan_long no_tarfs d n p s \<noteq> None" for d n
    using that by (auto simp: scan_long_def Let_def scan_returns_def split: option.splits if_splits)
  then show ?thesis using assms scan_pax_returns[OF assms(1)] scan_entry_returns[OF assms(1)]
    by (auto simp: scan_header_def Let_def scan_returns_def)
qed


lemma archive_items_head:
  assumes "off + TAR_BLOCK_SIZE \<le> length buf" "\<not> isZeroBlock (drop off buf)"
    "\<not> unat (parseOctal (drop (off + TAR_SIZE_OFFSET) buf) TAR_SIZE_LEN) > length buf - off - TAR_BLOCK_SIZE"
    "archive_items buf off er p s = Some xs"
  shows "scan_header no_tarfs (drop off buf) (parseOctal (drop (off + TAR_SIZE_OFFSET) buf) TAR_SIZE_LEN) p s \<noteq> None"
  using assms by (subst (asm) archive_items.simps) (auto simp: Let_def split: option.splits)

lemma indexLayer_loop_returns:
  assumes "archive_items buf off er p s = Some xs" "list_all (\<lambda>(off, path, pool, sz). \<not> pool) xs"
    "room t (length xs + m) (length xs + m)"
  shows "returns t m m (indexLayer_loop t k n buf off er p s)"
  using assms
proof (induction t k n buf off er p s arbitrary: xs rule: indexLayer_loop.induct)
  case (1 t k n buf off er p s)
  let ?sz = "parseOctal (drop (off + TAR_SIZE_OFFSET) buf) TAR_SIZE_LEN"
  let ?nx = "off + TAR_BLOCK_SIZE + alignUp512 (unat ?sz)"
  have rm: "room t m m" using room_weaken[OF "1.prems"(3)] by simp
  then have stop: "returns t m m (Some (Inr t))" by (simp add: returns_def)
  consider (e) "\<not> off + TAR_BLOCK_SIZE \<le> length buf"
    | (z) "off + TAR_BLOCK_SIZE \<le> length buf" "isZeroBlock (drop off buf)"
    | (big) "off + TAR_BLOCK_SIZE \<le> length buf" "\<not> isZeroBlock (drop off buf)" "unat ?sz > length buf - off - TAR_BLOCK_SIZE"
    | (h) "off + TAR_BLOCK_SIZE \<le> length buf" "\<not> isZeroBlock (drop off buf)" "\<not> unat ?sz > length buf - off - TAR_BLOCK_SIZE"
    by blast
  then show ?case
  proof cases
    case e
    then show ?thesis using stop by (subst indexLayer_loop.simps) simp
  next
    case z
    show ?thesis
    proof (cases "er + 1 \<ge> 2")
      case True
      then show ?thesis using z stop by (subst indexLayer_loop.simps) simp
    next
      case False
      then have "archive_items buf (off + TAR_BLOCK_SIZE) (er + 1) p s = Some xs"
        using z "1.prems"(1) by (subst (asm) archive_items.simps) simp
      from "1.IH"(1)[OF z False this "1.prems"(2,3)] show ?thesis using z False by (subst indexLayer_loop.simps) simp
    qed
  next
    case big
    then show ?thesis using stop by (subst indexLayer_loop.simps) (simp add: Let_def)
  next
    case h
    have np: "\<not> list_ex e_pool (t_index t)" using "1.prems"(3) by (simp add: room_def)
    have sr: "scan_returns t (scan_header t (drop off buf) ?sz p s)"
      using scan_header_returns[OF np archive_items_head[OF h "1.prems"(1)]] .
    then obtain r where r: "scan_header t (drop off buf) ?sz p s = Some r"
      by (cases "scan_header t (drop off buf) ?sz p s") (auto simp: scan_returns_def)
    from scan_cases[OF r] show ?thesis
    proof (elim disjE exE conjE)
      fix e assume "r = ScanFail e"
      then show ?thesis using sr h r by (subst indexLayer_loop.simps) (simp add: Let_def scan_returns_def returns_def)
    next
      fix t1 p1 s1 t0
      assume a: "r = ScanNext t1 p1 s1" "same_index t t1" "scan_header no_tarfs (drop off buf) ?sz p s = Some (ScanNext t0 p1 s1)"
      then have x: "archive_items buf ?nx 0 p1 s1 = Some xs"
        using "1.prems"(1) h by (subst (asm) archive_items.simps) (simp add: Let_def)
      have same: "same_room t t1" using sr r a(1) by (simp add: scan_returns_def)
      have u: "indexLayer_loop t k n buf off er p s = indexLayer_loop t1 k n buf ?nx 0 p1 s1"
        using h r a(1) by (subst indexLayer_loop.simps) (simp add: Let_def)
      show ?thesis unfolding u
        using "1.IH"(2)[OF h(1,2) refl h(3) refl r a(1) x "1.prems"(2)] "1.prems"(3)
        by (intro same_room_returns[OF same]) (simp add: same_room_room[OF same])
    next
      fix t1 q b z t0
      assume a: "r = ScanEntry t1 q b z" "same_index t t1" "scan_header no_tarfs (drop off buf) ?sz p s = Some (ScanEntry t0 q b z)"
      then obtain ys where x: "archive_items buf ?nx 0 None 0 = Some ys" "xs = (off, q, b, z) # ys"
        using "1.prems"(1) h by (subst (asm) archive_items.simps) (auto simp: Let_def)
      have same: "same_room t t1" using sr r a(1) by (simp add: scan_returns_def)
      have f: "returns t1 (length ys + m) (length ys + m) (indexFile t1 k n off q b z)"
        using "1.prems"(2,3) x(2) by (intro indexFile_returns) (simp_all add: same_room_room[OF same])
      have u: "indexLayer_loop t k n buf off er p s = (case indexFile t1 k n off q b z of None \<Rightarrow> None | Some (Inl e) \<Rightarrow> Some (Inl e)
           | Some (Inr t2) \<Rightarrow> indexLayer_loop t2 k n buf ?nx 0 None 0)"
        using h r a(1) by (subst indexLayer_loop.simps) (simp add: Let_def)
      show ?thesis
      proof (cases "indexFile t1 k n off q b z")
        case None
        then show ?thesis using f by (simp add: returns_def)
      next
        case (Some y)
        show ?thesis
        proof (cases y)
          case (Inl e)
          then show ?thesis unfolding u using Some f same by (auto simp: returns_def same_room_def)
        next
          case (Inr t2)
          then have t2: "room t2 (length ys + m) (length ys + m)" "t_layers t2 = t_layers t1" "t_mallocs t1 = [] \<longrightarrow> t_mallocs t2 = []"
            using Some f by (auto simp: returns_def)
          have "returns t2 m m (indexLayer_loop t2 k n buf ?nx 0 None 0)"
            using "1.IH"(3)[OF h(1,2) refl h(3) refl r a(1) Some Inr x(1) _ t2(1)] "1.prems"(2) x(2) by simp
          then show ?thesis unfolding u using Some Inr t2 same
            by (auto intro!: same_room_returns[OF same] returns_from[of t1 t2])
        qed
      qed
    qed
  qed
qed

text \<open>Archives that a walk gets through, with no path in the pool; and the items they hold.\<close>

definition plain_archive :: "byte list \<Rightarrow> bool" where
  "plain_archive buf \<longleftrightarrow> (case archive_items buf 0 0 None 0 of None \<Rightarrow> False
     | Some xs \<Rightarrow> list_all (\<lambda>(off, path, pool, sz). \<not> pool) xs)"

definition archive_count :: "byte list \<Rightarrow> nat" where
  "archive_count buf = (case archive_items buf 0 0 None 0 of None \<Rightarrow> 0 | Some xs \<Rightarrow> length xs)"

context c_qsort
begin

lemma index_layers_returns:
  assumes "list_all (\<lambda>k. plain_archive (t_layers t ! k)) ks"
    "room t (sum_list (map (\<lambda>k. archive_count (t_layers t ! k)) ks)) (sum_list (map (\<lambda>k. archive_count (t_layers t ! k)) ks))"
  shows "returns t 0 0 (index_layers qs t ks)"
  using assms
proof (induction ks arbitrary: t)
  case (Cons k ks)
  let ?m = "sum_list (map (\<lambda>k. archive_count (t_layers t ! k)) ks)"
  obtain xs where xs: "archive_items (t_layers t ! k) 0 0 None 0 = Some xs" "list_all (\<lambda>(off, path, pool, sz). \<not> pool) xs"
    using Cons.prems(1) by (auto simp: plain_archive_def split: option.splits)
  have "room t (length xs + ?m) (length xs + ?m)" using Cons.prems(2) xs(1) by (simp add: archive_count_def)
  note l = indexLayer_loop_returns[OF xs this, of k "length (t_index t)", folded indexLayer_def]
  show ?case
  proof (cases "indexLayer t k (length (t_index t))")
    case None
    then show ?thesis using l by (simp add: returns_def)
  next
    case (Some y)
    show ?thesis
    proof (cases y)
      case (Inl e)
      then show ?thesis using Some l by (simp add: returns_def)
    next
      case (Inr t1)
      then have t1: "room t1 ?m ?m" "t_layers t1 = t_layers t" "t_mallocs t = [] \<longrightarrow> t_mallocs t1 = []"
        using Some l by (auto simp: returns_def)
      define t2 where "t2 = (if t_index t1 = [] then t1 else t1\<lparr>t_index := qs indexCmp (t_index t1)\<rparr>)"
      have "room t2 ?m ?m" "t_layers t2 = t_layers t" "t_mallocs t = [] \<longrightarrow> t_mallocs t2 = []"
        using t1 mset_eq_length[OF qs_mset, of indexCmp "t_index t1"] mset_eq_setD[OF qs_mset, of indexCmp "t_index t1"]
        by (auto simp: t2_def room_def list_ex_iff)
      then have "returns t 0 0 (index_layers qs t2 ks)"
        using Cons.IH[of t2] Cons.prems(1) by (auto intro!: returns_from[of t t2])
      then show ?thesis using Some Inr by (simp add: t2_def)
    qed
  qed
qed (simp add: returns_def room_def)

lemma TarFsInit_returns:
  assumes "list_all plain_archive layers" "sum_list (map archive_count layers) \<le> 32768"
  shows "TarFsInit qs max_layers layers mallocs \<noteq> None \<and>
    (layers \<noteq> [] \<and> length layers \<le> max_layers \<and> \<not> list_ex (\<lambda>l. l = []) layers \<and> mallocs = [] \<longrightarrow>
       (\<exists>t. TarFsInit qs max_layers layers mallocs = Some (Some t)))"
proof (cases "tarfs_zero layers mallocs" rule: tar_malloc_cases)
  case 1
  then show ?thesis by (simp add: TarFsInit_def tarfs_zero_def)
next
  case (2 bs)
  define t where "t = tarfs_zero layers mallocs\<lparr>t_mallocs := bs\<rparr>"
  have m: "map (\<lambda>k. archive_count (layers ! k)) [0..<length layers] = map archive_count layers"
    by (rule nth_equalityI) auto
  have "returns t 0 0 (index_layers qs t [0..<length layers])"
    using assms m by (intro index_layers_returns)
      (auto simp: t_def tarfs_zero_def room_def cap_ok_def list_all_iff)
  moreover have "mallocs = [] \<longrightarrow> t_mallocs t = []" using 2 by (simp add: t_def tarfs_zero_def)
  ultimately show ?thesis using 2 by (auto simp: TarFsInit_def t_def[symmetric] returns_def split: option.splits sum.splits)
qed

end


section \<open>A two-layer image\<close>

lemma archive_plain: "list_all good_member ms \<Longrightarrow> plain_archive (tar_archive ms) \<and> archive_count (tar_archive ms) = length ms"
  by (simp add: plain_archive_def archive_count_def archive_walk member_items_plain)

text \<open>The upper layer removes \<open>a\<close>; the lower one holds \<open>a\<close>, \<open>d/b\<close> and the program.\<close>

definition demo_members :: "(string \<times> byte list) list list" where
  "demo_members = [[(''.wh.a'', [])], [(''a'', []), (''d/b'', [0x68, 0x65, 0x6c, 0x6c, 0x6f]), (''app.wasm'', [])]]"

definition demo_layers :: "byte list list" where
  "demo_layers = map tar_archive demo_members"

definition demo_tar :: tarfs where
  "demo_tar = the (the (TarFsInit sort_by 4 demo_layers []))"

definition demo_entries :: "tar_index_entry list list" where
  "demo_entries = [map (item_entry 0) (member_items 0 (demo_members ! 0)), map (item_entry 1) (member_items 0 (demo_members ! 1))]"

lemma demo_good: "list_all (list_all good_member) demo_members"
  by (simp add: demo_members_def good_member_def strip_lead_def)

lemma demo_init: "TarFsInit sort_by 4 demo_layers [] = Some (Some demo_tar)"
proof -
  have "list_all plain_archive demo_layers" "map archive_count demo_layers = map length demo_members"
    using demo_good archive_plain by (auto simp: demo_layers_def list_all_iff)
  then obtain t where "TarFsInit sort_by 4 demo_layers [] = Some (Some t)"
    using isort.TarFsInit_returns[of demo_layers 4 "[]"] by (auto simp: demo_layers_def demo_members_def)
  then show ?thesis by (simp add: demo_tar_def)
qed

lemma demo_entries: "map2 layer_entries [0..<length demo_layers] demo_layers = demo_entries"
  using demo_good by (simp add: demo_layers_def demo_entries_def demo_members_def archive_entries)

lemma demo_entries_value: "demo_entries =
   [[\<lparr>e_path = ''a'', e_pool = False, e_layer = TARFS_WHITEOUT, e_hdr_offset = 0, e_fsize = 0\<rparr>],
    [\<lparr>e_path = ''a'', e_pool = False, e_layer = 1, e_hdr_offset = 0, e_fsize = 0\<rparr>,
     \<lparr>e_path = ''d/b'', e_pool = False, e_layer = 1, e_hdr_offset = 512, e_fsize = 5\<rparr>,
     \<lparr>e_path = ''app.wasm'', e_pool = False, e_layer = 1, e_hdr_offset = 1536, e_fsize = 0\<rparr>]]"
  by code_simp

lemma demo_tidy: "tidy demo_entries"
  by code_simp

lemma demo_index: "set (t_index demo_tar) =
   {\<lparr>e_path = ''d/b'', e_pool = False, e_layer = 1, e_hdr_offset = 512, e_fsize = 5\<rparr>,
    \<lparr>e_path = ''app.wasm'', e_pool = False, e_layer = 1, e_hdr_offset = 1536, e_fsize = 0\<rparr>,
    \<lparr>e_path = ''a'', e_pool = False, e_layer = TARFS_WHITEOUT, e_hdr_offset = 0, e_fsize = 0\<rparr>}"
  using isort.TarFsInit_spec[OF demo_init] unfolding demo_entries demo_entries_value
  by (simp add: covers_def hides_below_def opaque_root_def)


end
