(* ===== verification/TarFsFiles.thy ===== *)
theory TarFsFiles imports TarFsLoad begin

text \<open>
  Opening, booting and reading files of an image: what the stack of layers shows is what opens and
  boots, and reads give the archived bytes.
\<close>

section \<open>Lookups\<close>

lemma findExact_Some: "findExact t p = Some e \<Longrightarrow> e \<in> set (t_index t) \<and> e_path e = p"
  by (auto simp: findExact_def Let_def in_set_conv_nth split: if_splits)

lemma findExact_file:
  assumes "index_sorted (t_index t)" "e \<in> set (t_index t)" "file_at e p"
  shows "\<exists>e'. findExact t p = Some e' \<and> file_at e' p"
proof -
  let ?idx = "t_index t"
  let ?pos = "lowerBound ?idx (length ?idx) p"
  have lb: "\<forall>j < ?pos. e_path (?idx ! j) < p" "\<forall>j < length ?idx. ?pos \<le> j \<longrightarrow> p \<le> e_path (?idx ! j)"
    using lowerBound_loop_spec[OF index_sorted_path[OF assms(1)], of 0 "length ?idx" "length ?idx" p]
    by (auto simp: lowerBound_def)
  obtain j where j: "j < length ?idx" "?idx ! j = e" using assms(2) by (auto simp: in_set_conv_nth)
  have "\<not> j < ?pos" using lb(1) j(2) assms(3) by (auto simp: file_at_def)
  then have pj: "?pos \<le> j" by simp
  then have "p \<le> e_path (?idx ! ?pos)" using lb(2) j by simp
  moreover have "?pos = j \<or> indexCmp (?idx ! ?pos) e \<le> 0"
    using assms(1) pj j sorted_wrt_nth_less[of "\<lambda>a b. indexCmp a b \<le> 0" ?idx ?pos j]
    by (cases "?pos < j") (auto simp: index_sorted_def)
  ultimately have "file_at (?idx ! ?pos) p" using assms(3) j(2) by (auto simp: file_at_def indexCmp_le)
  then show ?thesis using pj j(1) by (simp add: findExact_def file_at_def Let_def)
qed

lemma prefix_between:
  fixes a :: "char list"
  shows "pfx \<le> a \<Longrightarrow> a \<le> b \<Longrightarrow> prefix pfx b \<Longrightarrow> prefix pfx a"
proof (induction pfx arbitrary: a b)
  case (Cons c pfx)
  obtain b' where b: "b = c # b'" "prefix pfx b'" using Cons.prems(3) by (cases b) auto
  obtain x a' where a: "a = x # a'" using Cons.prems(1) by (cases a) auto
  have "x = c" using Cons.prems(1,2) a b(1) by auto
  then show ?case using Cons a b by auto
qed simp

lemma prefix_le: "prefix pfx (s :: char list) \<Longrightarrow> pfx \<le> s"
proof (induction pfx arbitrary: s)
  case (Cons c pfx)
  then show ?case by (cases s) auto
qed simp

lemma strncmp_prefix: "strncmp (length pfx) s pfx = 0 \<longleftrightarrow> prefix pfx s"
  by (auto simp: strncmp_eq_0 prefix_def) (metis append_take_drop_id)

text \<open>Over sorted entries that are not below the prefix, those with the prefix come first.\<close>

lemma dir_scan_iff:
  assumes "path_sorted es" "\<forall>e \<in> set es. pfx \<le> e_path e"
  shows "dir_scan pfx es \<longleftrightarrow> (\<exists>e \<in> set es. prefix pfx (e_path e) \<and> \<not> isMarker e)"
  using assms
proof (induction es)
  case (Cons x es)
  show ?case
  proof (cases "prefix pfx (e_path x)")
    case True
    then show ?thesis using Cons by (auto simp: strncmp_prefix)
  next
    case False
    then have "\<not> prefix pfx (e_path e)" if "e \<in> set (x # es)" for e
      using prefix_between[of pfx "e_path x" "e_path e"] Cons.prems that by auto
    moreover have "pfx \<noteq> []" using False by auto
    ultimately show ?thesis using False by (auto simp: strncmp_prefix)
  qed
qed simp

lemma drop_lower:
  assumes "path_sorted idx"
  shows "\<forall>e \<in> set (drop (lowerBound idx (length idx) pfx) idx). pfx \<le> e_path e"
    "e \<in> set idx \<Longrightarrow> pfx \<le> e_path e \<Longrightarrow> e \<in> set (drop (lowerBound idx (length idx) pfx) idx)"
proof -
  let ?r = "lowerBound idx (length idx) pfx"
  have lb: "?r \<le> length idx" "\<forall>j < ?r. e_path (idx ! j) < pfx" "\<forall>j < length idx. ?r \<le> j \<longrightarrow> pfx \<le> e_path (idx ! j)"
    using lowerBound_loop_spec[OF assms, of 0 "length idx" "length idx" pfx] by (auto simp: lowerBound_def)
  show "\<forall>e \<in> set (drop ?r idx). pfx \<le> e_path e" using lb(3) by (auto simp: in_set_conv_nth)
  assume e: "e \<in> set idx" "pfx \<le> e_path e"
  then obtain j where j: "j < length idx" "idx ! j = e" by (auto simp: in_set_conv_nth)
  then have "\<not> j < ?r" using lb(2) e(2) by (metis leD)
  then show "e \<in> set (drop ?r idx)" using j by (auto simp: in_set_conv_nth intro!: exI[of _ "j - ?r"])
qed

lemma directoryExists_iff:
  assumes "index_sorted (t_index t)" "pfx \<noteq> []"
  shows "directoryExists t pfx \<longleftrightarrow> (\<exists>e \<in> set (t_index t). prefix pfx (e_path e) \<and> \<not> isMarker e)"
proof -
  let ?es = "drop (lowerBound (t_index t) (length (t_index t)) pfx) (t_index t)"
  note ps = index_sorted_path[OF assms(1)]
  have "path_sorted ?es" using ps by (simp add: drop_map[symmetric] sorted_wrt_drop)
  then have "directoryExists t pfx \<longleftrightarrow> (\<exists>e \<in> set ?es. prefix pfx (e_path e) \<and> \<not> isMarker e)"
    using dir_scan_iff drop_lower(1)[OF ps] assms(2) by (simp add: directoryExists_def)
  also have "\<dots> \<longleftrightarrow> (\<exists>e \<in> set (t_index t). prefix pfx (e_path e) \<and> \<not> isMarker e)"
    using drop_lower(2)[OF ps] prefix_le in_set_dropD by fast
  finally show ?thesis .
qed

definition visible :: "tar_index_entry list list \<Rightarrow> tar_index_entry \<Rightarrow> bool" where
  "visible Ls e \<longleftrightarrow> (\<exists>L. find (\<lambda>L. decides L (e_path e)) Ls = Some L \<and> e \<in> set L)"

definition plain_path :: "string \<Rightarrow> bool" where
  "plain_path p \<longleftrightarrow> p \<noteq> [] \<and> hd p \<noteq> CHR ''/'' \<and> last p \<noteq> CHR ''/'' \<and> length p \<le> 512"

lemma open_plain:
  assumes "plain_path p"
  shows "TarFs_Open t True True p VFS_O_RDONLY =
    (case (case findExact t p of None \<Rightarrow> None | Some e \<Rightarrow> if isMarker e then None else Some e) of
       Some e \<Rightarrow> Some (TarFile (e_layer e) (e_hdr_offset e) (e_fsize e) 0)
     | None \<Rightarrow> if directoryExists t (p @ ''/'') then Some (TarDir (p @ ''/'')) else None)"
proof -
  have "dropWhile (\<lambda>c. c = CHR ''/'') p = p" using assms by (cases p) (auto simp: plain_path_def)
  then show ?thesis using assms
    by (simp add: TarFs_Open_def plain_path_def VFS_O_RDONLY_def Let_def allocFileHandle_def allocDirHandle_def split: option.split)
qed


lemma demo_open: "TarFs_Open demo_tar True True ''d/b'' VFS_O_RDONLY = Some (TarFile 1 512 5 0)"
proof -
  have "index_sorted (t_index demo_tar)" using isort.TarFsInit_spec[OF demo_init] by blast
  from findExact_file[OF this, of "\<lparr>e_path = ''d/b'', e_pool = False, e_layer = 1, e_hdr_offset = 512, e_fsize = 5\<rparr>" "''d/b''"]
  obtain e where "findExact demo_tar ''d/b'' = Some e" "file_at e ''d/b''"
    by (auto simp: demo_index file_at_def isMarker_def TARFS_WHITEOUT_def TARFS_OPAQUE_def)
  moreover from findExact_Some[OF this(1)] have "e = \<lparr>e_path = ''d/b'', e_pool = False, e_layer = 1, e_hdr_offset = 512, e_fsize = 5\<rparr>"
    by (auto simp: demo_index)
  ultimately show ?thesis by (subst open_plain) (simp_all add: plain_path_def file_at_def)
qed


section \<open>The boot image\<close>

lemma boot_from_Some: "boot_from k (Some x) es = Some x"
  by (simp add: boot_from_def)

lemma stack_boot_Some: "stack_boot (Some x) S Ls = Some x"
  by (induction Ls arbitrary: S) (auto simp: boot_from_Some)

lemma stack_mono: "S \<subseteq> stack S Ls"
  by (induction Ls arbitrary: S) (auto, blast)

lemma stack_boot_spec:
  "case stack_boot None S Ls of
     Some (k, o1, z) \<Rightarrow> \<exists>L e. (k, L) \<in> set Ls \<and> e \<in> set L \<and> e \<in> stack S (map snd Ls) \<and> file_at e ''app.wasm'' \<and>
       o1 = e_hdr_offset e + TAR_BLOCK_SIZE \<and> z = e_fsize e
   | None \<Rightarrow> \<forall>e \<in> stack S (map snd Ls). file_at e ''app.wasm'' \<longrightarrow> e \<in> S"
proof (induction Ls arbitrary: S)
  case (Cons kL Ls)
  obtain k L where kL: "kL = (k, L)" by (cases kL)
  let ?S = "S \<union> set (fresh S L)"
  show ?case
  proof (cases "find (\<lambda>e. file_at e ''app.wasm'') (fresh S L)")
    case None
    then have "boot_from k None (fresh S L) = None" by (simp add: boot_from_def)
    then show ?thesis using Cons.IH[of ?S] None
      by (auto simp: kL find_None_iff split: option.splits)
  next
    case (Some e)
    then have e: "e \<in> set (fresh S L)" "file_at e ''app.wasm''" by (auto dest: find_SomeD)
    then have "e \<in> stack ?S (map snd Ls)" using stack_mono[of ?S "map snd Ls"] by auto
    then show ?thesis using Some e by (auto simp: kL boot_from_def stack_boot_Some)
  qed
qed simp

lemma layer_of_entry:
  assumes "e \<in> set (layer_entries k buf)" "\<not> isMarker e"
  shows "e_layer e = of_nat k"
  using assms by (auto simp: layer_entries_def item_entry_def isMarker_def Let_def split: option.splits if_splits)



section \<open>Reading a file\<close>

lemma archive_items_bounds:
  assumes "archive_items buf off er p s = Some xs" "(o1, q, b, z) \<in> set xs"
  shows "o1 + TAR_BLOCK_SIZE \<le> length buf \<and>
    unat (parseOctal (drop (o1 + TAR_SIZE_OFFSET) buf) TAR_SIZE_LEN) \<le> length buf - o1 - TAR_BLOCK_SIZE"
  using assms
proof (induction buf off er p s arbitrary: xs rule: archive_items.induct)
  case (1 buf off er p s)
  let ?sz = "parseOctal (drop (off + TAR_SIZE_OFFSET) buf) TAR_SIZE_LEN"
  let ?nx = "off + TAR_BLOCK_SIZE + alignUp512 (unat ?sz)"
  have len: "off + TAR_BLOCK_SIZE \<le> length buf" using "1.prems" by (subst (asm) archive_items.simps) (auto split: if_splits)
  show ?case
  proof (cases "isZeroBlock (drop off buf)")
    case True
    then have z: "\<not> er + 1 \<ge> 2" "archive_items buf (off + TAR_BLOCK_SIZE) (er + 1) p s = Some xs"
      using "1.prems" len by (subst (asm) archive_items.simps; auto split: if_splits)+
    from "1.IH"(1)[OF len True z "1.prems"(2)] show ?thesis .
  next
    case False
    have sz: "\<not> unat ?sz > length buf - off - TAR_BLOCK_SIZE"
      using "1.prems" len False by (subst (asm) archive_items.simps) (auto simp: Let_def split: if_splits)
    obtain r where r: "scan_header no_tarfs (drop off buf) ?sz p s = Some r"
      using "1.prems"(1) len False sz by (subst (asm) archive_items.simps) (auto simp: Let_def split: option.splits)
    show ?thesis
    proof (cases r)
      case (ScanNext t1 p1 s1)
      then have "archive_items buf ?nx 0 p1 s1 = Some xs"
        using "1.prems"(1) len False sz r by (subst (asm) archive_items.simps) (simp add: Let_def)
      from "1.IH"(2)[OF len False refl sz refl r ScanNext this "1.prems"(2)] show ?thesis .
    next
      case (ScanEntry t1 p1 pool s1)
      then obtain ys where ys: "archive_items buf ?nx 0 None 0 = Some ys" "xs = (off, p1, pool, s1) # ys"
        using "1.prems"(1) len False sz r by (subst (asm) archive_items.simps) (auto simp: Let_def)
      show ?thesis
      proof (cases "(o1, q, b, z) = (off, p1, pool, s1)")
        case True
        then show ?thesis using len sz by simp
      next
        case f: False
        then have "(o1, q, b, z) \<in> set ys" using ys(2) "1.prems"(2) by auto
        from "1.IH"(3)[OF len False refl sz refl r ScanEntry ys(1) this] show ?thesis .
      qed
    qed (use "1.prems"(1) len False sz r in \<open>subst (asm) archive_items.simps, simp add: Let_def\<close>)
  qed
qed

lemma layer_entry_bounds:
  assumes "e \<in> set (layer_entries k buf)"
  shows "e_hdr_offset e + TAR_BLOCK_SIZE \<le> length buf \<and>
    unat (parseOctal (drop (e_hdr_offset e + TAR_SIZE_OFFSET) buf) TAR_SIZE_LEN) \<le> length buf - e_hdr_offset e - TAR_BLOCK_SIZE"
proof -
  obtain xs x where xs: "archive_items buf 0 0 None 0 = Some xs" "x \<in> set xs" "e = item_entry k x"
    using assms by (cases "archive_items buf 0 0 None 0") (auto simp: layer_entries_def simp del: split_paired_All)
  obtain o1 q b z where x: "x = (o1, q, b, z)" by (metis prod_cases4)
  then have "e_hdr_offset e = o1" using xs(3) by (simp add: item_entry_def Let_def)
  then show ?thesis using archive_items_bounds[OF xs(1)] xs(2) x by simp
qed

lemma open_file:
  assumes "TarFs_Open t ok ok2 path flags = Some (TarFile k off sz pos)"
  shows "pos = 0 \<and> (\<exists>e \<in> set (t_index t). \<not> isMarker e \<and> k = e_layer e \<and> off = e_hdr_offset e \<and> sz = e_fsize e)"
  using assms
  by (auto simp: TarFs_Open_def Let_def allocDirHandle_def allocFileHandle_def dest!: findExact_Some split: if_splits option.splits)

datatype tar_op = ReadOp nat | SeekOp int nat

datatype tar_out = Bytes "byte list" | At int | Failed errno

text \<open>A sequence of reads and seeks on one handle.\<close>

fun tar_ops :: "tarfs \<Rightarrow> tarfs_file \<Rightarrow> tar_op list \<Rightarrow> tar_out list option" where
  "tar_ops t h [] = Some []"
| "tar_ops t h (ReadOp n # ops) =
     (case TarFs_Read t h n of
        None \<Rightarrow> None
      | Some (Inl e) \<Rightarrow> map_option ((#) (Failed e)) (tar_ops t h ops)
      | Some (Inr (bs, h')) \<Rightarrow> map_option ((#) (Bytes bs)) (tar_ops t h' ops))"
| "tar_ops t h (SeekOp d w # ops) =
     (case TarFs_Seek h d w of
        None \<Rightarrow> None
      | Some (Inl e) \<Rightarrow> map_option ((#) (Failed e)) (tar_ops t h ops)
      | Some (Inr (p, h')) \<Rightarrow> map_option ((#) (At p)) (tar_ops t h' ops))"

text \<open>The same on a byte string with a cursor.\<close>

fun file_ops :: "byte list \<Rightarrow> nat \<Rightarrow> tar_op list \<Rightarrow> tar_out list" where
  "file_ops content pos [] = []"
| "file_ops content pos (ReadOp n # ops) =
     (let bs = take (min n INT_MAX) (drop pos content) in Bytes bs # file_ops content (pos + length bs) ops)"
| "file_ops content pos (SeekOp d w # ops) =
     (let new = (if w = 0 then d else if w = 1 then int pos + d else int (length content) + d) in
      if w > 2 \<or> new < 0 then Failed EINVAL # file_ops content pos ops
      else let p = min (nat new) (length content) in At (int p) # file_ops content p ops)"

text \<open>A seek that cannot overflow a \<open>long\<close>.\<close>

definition small_seek :: "tar_op \<Rightarrow> bool" where
  "small_seek x = (case x of ReadOp n \<Rightarrow> True | SeekOp d w \<Rightarrow> d < 2 ^ 62)"

lemma nat_clamp: "0 \<le> s \<Longrightarrow> 0 \<le> (n :: int) \<Longrightarrow> nat (if n > s then s else n) = min (nat n) (nat s)"
  by (auto simp: min_def)

lemma tar_ops_refines:
  assumes "off + TAR_BLOCK_SIZE + unat sz \<le> length (t_layers t ! unat k)" "unat pos \<le> unat sz"
    "list_all small_seek ops"
  shows "tar_ops t (TarFile k off sz pos) ops =
    Some (file_ops (take (unat sz) (drop (off + TAR_BLOCK_SIZE) (t_layers t ! unat k))) (unat pos) ops)"
  using assms(2,3)
proof (induction ops arbitrary: pos)
  case (Cons op ops)
  let ?c = "take (unat sz) (drop (off + TAR_BLOCK_SIZE) (t_layers t ! unat k))"
  have lc: "length ?c = unat sz" using assms(1) by simp
  have IH: "tar_ops t (TarFile k off sz p) ops = Some (file_ops ?c (unat p) ops)" if "unat p \<le> unat sz" for p
    using Cons.IH[OF that] Cons.prems(2) by simp
  show ?case
  proof (cases op)
    case (ReadOp n)
    show ?thesis
    proof (cases "sz \<le> pos")
      case True
      then have "unat pos = unat sz" using Cons.prems(1) by (simp add: word_le_nat_alt)
      then show ?thesis using ReadOp True IH[OF Cons.prems(1)] lc by (simp add: TarFs_Read_def)
    next
      case False
      then have lt: "unat pos < unat sz" by (simp add: word_less_nat_alt not_le)
      have d: "unat (sz - pos) = unat sz - unat pos" using False by (simp add: unat_sub not_le order_less_imp_le)
      define m where "m = min (min n (unat (sz - pos))) INT_MAX"
      have m: "m \<le> unat sz - unat pos" using d by (simp add: m_def)
      then have "unat pos + m < 2 ^ 32" using lt unsigned_less[of sz, where ?'a = nat] by simp
      then have um: "unat (pos + of_nat m) = unat pos + m"
        by (simp add: unat_word_ariths unat_of_nat)
      have bs: "take m (drop (off + TAR_BLOCK_SIZE + unat pos) (t_layers t ! unat k)) = take (min n INT_MAX) (drop (unat pos) ?c)"
        using lt d by (simp add: m_def drop_take min.left_commute min.commute min.assoc add.commute)
      have "length (take (min n INT_MAX) (drop (unat pos) ?c)) = m" using lc d by (simp add: m_def min.commute min.left_commute)
      moreover have "\<not> off + TAR_BLOCK_SIZE + unat pos + m > length (t_layers t ! unat k)" using assms(1) m lt by simp
      ultimately show ?thesis using ReadOp False bs IH[of "pos + of_nat m"] um m lt
        by (simp add: TarFs_Read_def Let_def m_def[symmetric])
    qed
  next
    case (SeekOp d w)
    define new where "new = (if w = 0 then d else if w = 1 then uint pos + d else uint sz + d)"
    have dlt: "d < 2 ^ 62" using Cons.prems(2) SeekOp by (simp add: small_seek_def)
    have u: "uint pos < 2 ^ 32" "uint sz < 2 ^ 32" using unsigned_less[of pos, where ?'a = int] unsigned_less[of sz, where ?'a = int] by simp_all
    have "new \<le> LONG_MAX" using dlt u by (auto simp: new_def LONG_MAX_def)
    moreover have n2: "new = (if w = 0 then d else if w = 1 then int (unat pos) + d else int (length ?c) + d)"
      unfolding lc new_def by simp
    moreover have "unat (of_int (if new > uint sz then uint sz else new) :: u32) = min (nat new) (unat sz)" if "\<not> new < 0"
    proof -
      have "0 \<le> (if new > uint sz then uint sz else new)" "(if new > uint sz then uint sz else new) < 2 ^ 32" using that u by auto
      then have "unat (of_int (if new > uint sz then uint sz else new) :: u32) = nat (if new > uint sz then uint sz else new)"
        by (simp add: unat_eq_nat_uint uint_word_of_int_eq take_bit_int_eq_self)
      then show ?thesis using nat_clamp[of "uint sz" new] that by simp
    qed
    ultimately have nl: "new \<le> LONG_MAX" and n2: "new = (if w = 0 then d else if w = 1 then int (unat pos) + d else int (length ?c) + d)"
      and np: "\<not> new < 0 \<Longrightarrow> unat (of_int (if new > uint sz then uint sz else new) :: u32) = min (nat new) (unat sz)" by blast+
    have seek: "TarFs_Seek (TarFile k off sz pos) d w =
        (if w > 2 then Some (Inl EINVAL) else if new > LONG_MAX then None else if new < 0 then Some (Inl EINVAL)
         else Some (Inr (if new > uint sz then uint sz else new, TarFile k off sz (of_int (if new > uint sz then uint sz else new)))))"
      by (simp add: TarFs_Seek_def Let_def new_def)
    have spec: "file_ops ?c (unat pos) (op # ops) =
        (if w > 2 \<or> new < 0 then Failed EINVAL # file_ops ?c (unat pos) ops
         else At (int (min (nat new) (unat sz))) # file_ops ?c (min (nat new) (unat sz)) ops)"
      using SeekOp n2 lc by (simp add: Let_def)
    show ?thesis
    proof (cases "w > 2 \<or> new < 0")
      case True
      then show ?thesis using SeekOp nl IH[OF Cons.prems(1)] unfolding spec by (auto simp: seek)
    next
      case False
      define q where "q = (if new > uint sz then uint sz else new)"
      have "nat q = min (nat new) (unat sz)" "0 \<le> q" using nat_clamp[of "uint sz" new] False by (auto simp: q_def)
      then have "q = int (min (nat new) (unat sz))" by (metis int_nat_eq)
      moreover have "unat (of_int q :: u32) = min (nat new) (unat sz)" using np False by (simp add: q_def)
      ultimately show ?thesis using SeekOp False nl IH[of "of_int q"] unfolding spec by (simp add: seek q_def[symmetric])
    qed
  qed
qed simp

definition own_size :: "byte list \<Rightarrow> nat \<Rightarrow> u32" where
  "own_size buf off = parseOctal (drop (off + TAR_SIZE_OFFSET) buf) TAR_SIZE_LEN"

lemma stack_elem: "e \<in> stack {} Ls \<Longrightarrow> \<exists>k < length Ls. e \<in> set (Ls ! k)"
  using stack_sub[of Ls] by (metis UN_E in_mono in_set_conv_nth)

text \<open>
  C11: A file opened from an image is the bytes its archive holds: any sequence of reads and seeks on
  it answers as on a byte string with a cursor, the string being the header's number of bytes after
  the header, and nothing outside the layer is read.  This holds for every file whose size is the one
  in its own header.
\<close>

theorem tarfs_read_exact:
  assumes "c_qsort qs" "TarFsInit qs max_layers layers mallocs = Some (Some t)" "max_layers < 256"
    "TarFs_Open t ok ok2 path flags = Some (TarFile k off sz pos)" "sz = own_size (layers ! unat k) off"
    "list_all small_seek ops" "content = take (unat sz) (drop (off + TAR_BLOCK_SIZE) (layers ! unat k))"
  shows "unat k < length layers \<and> length content = unat sz \<and>
    tar_ops t (TarFile k off sz pos) ops = Some (file_ops content 0 ops)"
proof -
  note init = c_qsort.TarFsInit_spec[OF assms(1,2)]
  let ?Ls = "map2 layer_entries [0..<length layers] layers"
  obtain e where e: "pos = 0" "e \<in> set (t_index t)" "\<not> isMarker e" "k = e_layer e" "off = e_hdr_offset e" "sz = e_fsize e"
    using open_file[OF assms(4)] by blast
  then obtain i where i: "i < length layers" "e \<in> set (layer_entries i (layers ! i))"
    using stack_elem[of e ?Ls] init by auto
  have "length layers \<le> max_layers" using assms(2) by (auto simp: TarFsInit_def split: if_splits)
  then have "i < 2 ^ 16" using i(1) assms(3) by simp
  then have k: "unat k = i" using layer_of_entry[OF i(2) e(3)] e(4) by (simp add: unat_of_nat take_bit_nat_eq_self)
  have "off + TAR_BLOCK_SIZE + unat sz \<le> length (layers ! unat k)"
    using layer_entry_bounds[OF i(2)] assms(5) e(5) k by (simp add: own_size_def) linarith
  then show ?thesis using tar_ops_refines[of off sz t k pos ops] init assms(6,7) i(1) k e(1) by simp
qed

lemma demo_content: "take 5 (drop (512 + TAR_BLOCK_SIZE) (demo_layers ! 1)) = [0x68, 0x65, 0x6c, 0x6c, 0x6f]"
  "own_size (demo_layers ! 1) 512 = 5"
proof -
  let ?c = "[0x68, 0x65, 0x6c, 0x6c, 0x6f] :: byte list"
  have g: "good_member (''a'', [])" "good_member (''d/b'', ?c)" using demo_good by (simp_all add: demo_members_def)
  have l: "length (tar_member (''a'', [])) = 512" using member_length[OF g(1)] by (simp add: TAR_BLOCK_SIZE_def alignUp512_def)
  have "demo_layers ! 1 = tar_member (''a'', []) @ tar_member (''d/b'', ?c) @ tar_member (''app.wasm'', []) @ replicate 1024 0"
    by (simp add: demo_layers_def demo_members_def tar_archive_def)
  note m = member_content(1,3)[OF g(2) this, unfolded l]
  have len: "length ?c = 5" by simp
  show "take 5 (drop (512 + TAR_BLOCK_SIZE) (demo_layers ! 1)) = ?c" using m(1) unfolding len .
  show "own_size (demo_layers ! 1) 512 = 5" using m(2) unfolding len own_size_def by simp
qed

theorem tarfs_read_exact_witness:
  "TarFs_Open demo_tar True True ''d/b'' VFS_O_RDONLY = Some (TarFile 1 512 5 0) \<and>
   tar_ops demo_tar (TarFile 1 512 5 0) [ReadOp 2, SeekOp 1 0, ReadOp 9] =
     Some [Bytes [0x68, 0x65], At 1, Bytes [0x65, 0x6c, 0x6c, 0x6f]]"
proof -
  have u: "unat (1 :: 16 word) = 1" "unat (5 :: u32) = 5" by simp_all
  have ops: "list_all small_seek [ReadOp 2, SeekOp 1 0, ReadOp 9]" by (simp add: small_seek_def)
  have f: "file_ops [0x68, 0x65, 0x6c, 0x6c, 0x6f] 0 [ReadOp 2, SeekOp 1 0, ReadOp 9] =
      [Bytes [0x68, 0x65], At 1, Bytes [0x65, 0x6c, 0x6c, 0x6f]]" by (simp add: INT_MAX_def Let_def)
  show ?thesis using tarfs_read_exact[OF isort.c_qsort_axioms demo_init _ demo_open, unfolded u, OF _ demo_content(2)[symmetric]
      ops demo_content(1)[symmetric]] demo_open unfolding f by simp
qed

section \<open>Writing and mounting an archive\<close>

definition whiteout_name :: "string \<Rightarrow> bool" where
  "whiteout_name name \<longleftrightarrow> take 4 (pathBasename name) = ''.wh.''"

lemma plain_item: "\<not> whiteout_name name \<Longrightarrow> item_entry k (off, name, pool, sz) =
    \<lparr>e_path = name, e_pool = pool, e_layer = of_nat k, e_hdr_offset = off, e_fsize = sz\<rparr>"
  by (auto simp: item_entry_def whiteout_name_def OPAQUE_NAME_def Let_def)

lemma member_names: "map (\<lambda>(off, path, pool, sz). path) (member_items off ms) = map fst ms"
  by (induction off ms rule: member_items.induct) auto

lemma distinct_nth_inj: "distinct (map f xs) \<Longrightarrow> x \<in> set xs \<Longrightarrow> y \<in> set xs \<Longrightarrow> f x = f y \<Longrightarrow> x = y"
  by (auto simp: distinct_map inj_on_def)

text \<open>A file of an archive that is mounted alone.\<close>

lemma archive_file:
  assumes "c_qsort qs" "list_all good_member ms" "distinct (map fst ms)" "\<not> list_ex (\<lambda>m. whiteout_name (fst m)) ms"
    "length ms \<le> 32768" "0 < max_layers" "i < length ms" "ms ! i = (name, content)" "plain_path name"
  shows "\<exists>t off. TarFsInit qs max_layers [tar_archive ms] [] = Some (Some t) \<and>
    TarFs_Open t True True name VFS_O_RDONLY = Some (TarFile 0 off (of_nat (length content)) 0) \<and>
    (\<forall>ops. list_all small_seek ops \<longrightarrow>
       tar_ops t (TarFile 0 off (of_nat (length content)) 0) ops = Some (file_ops content 0 ops))"
proof -
  obtain t where t: "TarFsInit qs max_layers [tar_archive ms] [] = Some (Some t)"
    using c_qsort.TarFsInit_returns[OF assms(1), of "[tar_archive ms]" max_layers "[]"] archive_plain[OF assms(2)] assms(5,6) by auto
  have ix: "set (t_index t) = item_entry 0 ` set (member_items 0 ms)" "index_sorted (t_index t)" "t_layers t = [tar_archive ms]"
    using c_qsort.TarFsInit_spec[OF assms(1) t] archive_entries[OF assms(2), of 0] by (auto simp: covers_def)
  from member_place[OF assms(2,7,8), of 0] obtain pre post where p: "tar_archive ms = pre @ tar_member (name, content) @ post"
    "member_items 0 ms ! i = (length pre, name, False, of_nat (length content))" by auto
  have g: "good_member (name, content)" using assms(2,7,8) by (metis list_all_length)
  then have len: "unat (of_nat (length content) :: u32) = length content"
    by (auto simp: good_member_def unat_of_nat take_bit_nat_eq_self)
  have nw: "\<not> whiteout_name name" using assms(4,7,8) by (metis fst_conv list_ex_iff nth_mem)
  let ?x = "(length pre, name, False, of_nat (length content) :: u32)"
  have x: "?x \<in> set (member_items 0 ms)" using p(2) assms(7) nth_mem[of i "member_items 0 ms"] by simp
  have fa: "file_at (item_entry 0 ?x) name"
    using nw by (simp add: plain_item file_at_def isMarker_def TARFS_WHITEOUT_def TARFS_OPAQUE_def)
  obtain e where e: "findExact t name = Some e" "file_at e name"
    using findExact_file[OF ix(2) _ fa] ix(1) x by blast
  have "e = item_entry 0 ?x"
  proof -
    obtain y where y: "y \<in> set (member_items 0 ms)" "e = item_entry 0 y" using findExact_Some[OF e(1)] ix(1) by auto
    obtain o1 p1 b1 z1 where y4: "y = (o1, p1, b1, z1)" by (cases y)
    have "p1 \<in> set (map fst ms)" using y(1) y4 member_names[of 0 ms] by (metis (mono_tags, lifting) case_prod_conv image_eqI set_map)
    then have "\<not> whiteout_name p1" using assms(4) by (auto simp: list_ex_iff)
    then have "p1 = name" using y(2) y4 e(2) by (simp add: plain_item file_at_def)
    then have "y = ?x" using distinct_nth_inj[of "\<lambda>(off, path, pool, sz). path" "member_items 0 ms" y ?x] assms(3) y(1) y4 x
      by (simp add: member_names)
    then show ?thesis using y(2) by simp
  qed
  then have op: "TarFs_Open t True True name VFS_O_RDONLY = Some (TarFile 0 (length pre) (of_nat (length content)) 0)"
    using open_plain[OF assms(9)] e nw by (simp add: file_at_def plain_item)
  note c = member_content(1,2)[OF g p(1)]
  have "tar_ops t (TarFile 0 (length pre) (of_nat (length content)) 0) ops = Some (file_ops content 0 ops)" if "list_all small_seek ops" for ops
    using tar_ops_refines[of "length pre" "of_nat (length content)" t 0 0 ops] c that len by (simp add: ix(3))
  then show ?thesis using t op by blast
qed



text \<open>
  A PAX \<open>size\<close> record replaces the size of the next header without a bound, and reading a file whose
  size passes the end of its layer leaves the layer.
\<close>

lemma pax_size_outside:
  assumes "good_member (name, content)" "s \<noteq> 0" "unat s \<le> INT_MAX"
  shows "scan_header t (ustar_header name n @ rest) sz None s = Some (ScanEntry t name False s)"
    "length (t_layers t ! unat k) < off + TAR_BLOCK_SIZE + unat s \<Longrightarrow> TarFs_Read t (TarFile k off s 0) (unat s) = None"
proof -
  show "scan_header t (ustar_header name n @ rest) sz None s = Some (ScanEntry t name False s)"
    using assms header_name[of name n rest] header_type[of name n rest] header_prefix[of name n rest]
    by (auto simp: good_member_def scan_header_def scan_entry_def scan_name_def Let_def TAR_NAME_LEN_def)
  assume "length (t_layers t ! unat k) < off + TAR_BLOCK_SIZE + unat s"
  then show "TarFs_Read t (TarFile k off s 0) (unat s) = None" using assms(2,3)
    by (auto simp: TarFs_Read_def Let_def unat_gt_0)
qed

text \<open>
  A whiteout below a file of the same path is dropped, and with it what it hides: the files that a
  still older layer has below that path are visible again.
\<close>

lemma whiteout_dropped:
  fixes f w x :: tar_index_entry
  assumes "file_at f ''p''" "e_path w = ''p''" "e_layer w = TARFS_WHITEOUT" "file_at x ''p/x''"
  shows "x \<in> stack {} [[f], [w], [x]]" "x \<notin> stack {} [[w], [x]]"
  using assms by (auto simp: covers_def hides_below_def opaque_root_def file_at_def isMarker_def OPAQUE_NAME_def PROBE_LIM_def
    intro!: exI[of _ "''p''"])

end
