(* ===== verification/TarFsDirs.thy ===== *)
theory TarFsDirs imports TarFsFiles begin

text \<open>
  Listing the directories of an image with \<open>TarFs_ReadDir\<close>.
\<close>

section \<open>Listing a directory\<close>

lemma prefix_guard: "length pfx > 0 \<and> strncmp (length pfx) s pfx \<noteq> 0 \<longleftrightarrow> \<not> prefix pfx s"
  using strncmp_prefix[of pfx s] by (cases "pfx = []") auto

lemma subdir_scan_takeWhile:
  "subdir_scan pfx name es = (let ys = takeWhile (\<lambda>e. prefix (pfx @ name @ ''/'') (e_path e)) es in
     (length ys, list_ex (\<lambda>e. \<not> isMarker e) ys))"
proof (induction es)
  case (Cons e es)
  have p: "prefix (pfx @ name @ ''/'') (e_path e) \<longleftrightarrow> \<not> (length pfx > 0 \<and> strncmp (length pfx) (e_path e) pfx \<noteq> 0) \<and>
     \<not> (strncmp (length name) (drop (length pfx) (e_path e)) name \<noteq> 0 \<or>
      \<not> (length name < length (drop (length pfx) (e_path e)) \<and> drop (length pfx) (e_path e) ! length name = CHR ''/''))"
    (is "_ \<longleftrightarrow> ?rhs")
  proof
    assume "prefix (pfx @ name @ ''/'') (e_path e)"
    then obtain r where "e_path e = pfx @ name @ ''/'' @ r" by (auto simp: prefix_def)
    then show ?rhs by (simp add: strncmp_prefix)
  next
    assume r: ?rhs
    then have a: "prefix pfx (e_path e)" using prefix_guard[of pfx "e_path e"] by blast
    then obtain s where s: "e_path e = pfx @ s" by (auto simp: prefix_def)
    then have b: "prefix name s" "length name < length s" "s ! length name = CHR ''/''" using r by (auto simp: strncmp_prefix)
    then obtain q where q: "s = name @ q" by (auto simp: prefix_def)
    then show "prefix (pfx @ name @ ''/'') (e_path e)" using s b by (cases q) auto
  qed
  have "subdir_scan pfx name (e # es) = (if prefix (pfx @ name @ ''/'') (e_path e)
      then (case subdir_scan pfx name es of (n, f) \<Rightarrow> (n + 1, f \<or> \<not> isMarker e)) else (0, False))"
    unfolding p by (simp only: subdir_scan.simps Let_def) (simp only: split: if_split, blast)
  then show ?case using Cons by (auto simp: Let_def)
qed simp

text \<open>The part of a path below a directory: nothing, the name of a file, or the name of a subdirectory.\<close>

datatype below = Outside | Itself | FileAt string | DirAt string

definition below :: "string \<Rightarrow> tar_index_entry \<Rightarrow> below" where
  "below pfx e = (if \<not> prefix pfx (e_path e) then Outside
     else let s = drop (length pfx) (e_path e) in
       if s = [] then Itself
       else (case strchr_split CHR ''/'' s of (n, None) \<Rightarrow> FileAt n | (n, Some r) \<Rightarrow> DirAt n))"

lemma below_Outside: "below pfx e = Outside \<longleftrightarrow> \<not> prefix pfx (e_path e)"
  by (auto simp: below_def Let_def split: prod.splits option.splits)

lemma below_FileAt: "below pfx e = FileAt n \<longleftrightarrow> e_path e = pfx @ n \<and> n \<noteq> [] \<and> CHR ''/'' \<notin> set n"
  by (auto simp: below_def Let_def prefix_def split: prod.splits option.splits dest: strchr_split_None)

lemma below_DirAt: "below pfx e = DirAt n \<longleftrightarrow> prefix (pfx @ n @ ''/'') (e_path e) \<and> CHR ''/'' \<notin> set n"
  by (auto simp: below_def Let_def prefix_def split: prod.splits option.splits dest: strchr_split_Some)

text \<open>The names and types a listing shows, in the order of the index.\<close>

function kids :: "string \<Rightarrow> tar_index_entry list \<Rightarrow> (string \<times> nat) list" where
  "kids pfx [] = []"
| "kids pfx (e # es) =
     (case below pfx e of
        Outside \<Rightarrow> []
      | Itself \<Rightarrow> kids pfx es
      | FileAt n \<Rightarrow> (if isMarker e then kids pfx es else (n, VFS_FILETYPE_REGULAR_FILE) # kids pfx es)
      | DirAt n \<Rightarrow>
          let run = takeWhile (\<lambda>e. prefix (pfx @ n @ ''/'') (e_path e)) es; rest = kids pfx (drop (length run) es) in
          if list_ex (\<lambda>e. \<not> isMarker e) (e # run) then (n, VFS_FILETYPE_DIRECTORY) # rest else rest)"
  by pat_completeness auto
termination by (relation "measure (\<lambda>(pfx, es). length es)") auto

declare kids.simps(2) [simp del]

definition fits :: "nat \<Rightarrow> string \<Rightarrow> tar_index_entry \<Rightarrow> bool" where
  "fits bufLen pfx e \<longleftrightarrow> (case below pfx e of FileAt n \<Rightarrow> dirent_size + length n \<le> bufLen
     | DirAt n \<Rightarrow> dirent_size + length n \<le> bufLen | _ \<Rightarrow> True)"

lemma readdir_step:
  assumes "i < length idx"
  shows "readdir_loop idx pfx bufLen i used =
    (let e = idx ! i; run = (\<lambda>n. takeWhile (\<lambda>e. prefix (pfx @ n @ ''/'') (e_path e)) (drop (i + 1) idx));
         emit = (\<lambda>next_i n ty. if used + dirent_size + length n > bufLen then ([], i, used)
            else case readdir_loop idx pfx bufLen next_i (used + dirent_size + length n) of (ds, i', used') \<Rightarrow>
              (\<lparr>d_next = next_i, d_ino = i, d_namlen = length n, d_type = ty, d_name = n\<rparr> # ds, i', used'))
     in case below pfx e of
        Outside \<Rightarrow> ([], i, used)
      | Itself \<Rightarrow> readdir_loop idx pfx bufLen (i + 1) used
      | FileAt n \<Rightarrow> if isMarker e then readdir_loop idx pfx bufLen (i + 1) used
                    else emit (i + 1) n VFS_FILETYPE_REGULAR_FILE
      | DirAt n \<Rightarrow> if list_ex (\<lambda>e. \<not> isMarker e) (e # run n) then emit (i + 1 + length (run n)) n VFS_FILETYPE_DIRECTORY
                   else if used + dirent_size + length n > bufLen then ([], i, used)
                   else readdir_loop idx pfx bufLen (i + 1 + length (run n)) used)"
proof -
  let ?e = "idx ! i" and ?s = "drop (length pfx) (e_path (idx ! i))"
  have out: "length pfx > 0 \<and> strncmp (length pfx) (e_path ?e) pfx \<noteq> 0 \<longleftrightarrow> \<not> prefix pfx (e_path ?e)"
    by (rule prefix_guard)
  obtain n a where s: "strchr_split CHR ''/'' ?s = (n, a)" by (cases "strchr_split CHR ''/'' ?s")
  consider "\<not> prefix pfx (e_path ?e)" | "prefix pfx (e_path ?e)" "?s = []" | "prefix pfx (e_path ?e)" "?s \<noteq> []" "a = None"
    | r where "prefix pfx (e_path ?e)" "?s \<noteq> []" "a = Some r" by (cases a) blast+
  then show ?thesis
  proof cases
    case 1
    then show ?thesis using assms out by (subst readdir_loop.simps) (simp only: below_def Let_def if_True below.case simp_thms)
  next
    case 2
    then show ?thesis using assms out by (subst readdir_loop.simps) (simp only: below_def Let_def if_True if_False below.case simp_thms)
  next
    case 3
    have b: "below pfx ?e = FileAt n" using 3 s by (simp add: below_def Let_def)
    show ?thesis using 3 assms out s by (subst readdir_loop.simps)
      (simp only: b Let_def if_True if_False below.case simp_thms prod.case split: prod.split if_split, simp)
  next
    case 4
    have b: "below pfx ?e = DirAt n" using 4 s by (simp add: below_def Let_def)
    show ?thesis using 4 assms out s by (subst readdir_loop.simps)
      (simp only: b Let_def if_True if_False below.case simp_thms prod.case subdir_scan_takeWhile option.simps, auto)
  qed
qed


definition shown :: "dirent \<Rightarrow> string \<times> nat" where
  "shown d = (d_name d, d_type d)"

lemma kids_drop:
  "i < length idx \<Longrightarrow> kids pfx (drop i idx) = (case below pfx (idx ! i) of
        Outside \<Rightarrow> []
      | Itself \<Rightarrow> kids pfx (drop (i + 1) idx)
      | FileAt n \<Rightarrow> (if isMarker (idx ! i) then [] else [(n, VFS_FILETYPE_REGULAR_FILE)]) @ kids pfx (drop (i + 1) idx)
      | DirAt n \<Rightarrow>
          let run = takeWhile (\<lambda>e. prefix (pfx @ n @ ''/'') (e_path e)) (drop (i + 1) idx) in
          (if list_ex (\<lambda>e. \<not> isMarker e) (idx ! i # run) then [(n, VFS_FILETYPE_DIRECTORY)] else []) @
            kids pfx (drop (i + 1 + length run) idx))"
  by (simp add: Cons_nth_drop_Suc[symmetric] kids.simps(2) Let_def add.commute split: below.split)

lemma run_le: "i < length idx \<Longrightarrow> i + 1 + length (takeWhile P (drop (i + 1) idx)) \<le> length idx"
  using length_takeWhile_le[of P "drop (i + 1) idx"] by simp

lemma readdir_loop_spec:
  assumes "readdir_loop idx pfx bufLen i used = (ds, i', used')" "i \<le> length idx" "used \<le> bufLen"
  shows "i \<le> i' \<and> i' \<le> length idx \<and> used' \<le> bufLen \<and> (ds \<noteq> [] \<longrightarrow> i < i') \<and>
    kids pfx (drop i idx) = map shown ds @ kids pfx (drop i' idx) \<and>
    (kids pfx (drop i' idx) = [] \<or> i' < length idx \<and> (ds = [] \<longrightarrow> \<not> fits (bufLen - used) pfx (idx ! i')))"
  using assms
proof (induction "length idx - i" arbitrary: i used ds i' used' rule: less_induct)
  case less
  show ?case
  proof (cases "i < length idx")
    case False
    then show ?thesis using less.prems by (subst (asm) readdir_loop.simps) auto
  next
    case True
    let ?run = "\<lambda>n. takeWhile (\<lambda>e. prefix (pfx @ n @ ''/'') (e_path e)) (drop (i + 1) idx)"
    note st = less.prems(1)[unfolded readdir_step[OF True] Let_def] and kd = kids_drop[OF True, of pfx, unfolded Let_def]
    have skip: ?thesis if "i < j" "j \<le> length idx" "readdir_loop idx pfx bufLen j used = (ds, i', used')"
      "kids pfx (drop i idx) = kids pfx (drop j idx)" for j
    proof -
      have "length idx - j < length idx - i" using that(1,2) by simp
      from less.hyps[OF this that(3,2) less.prems(3)] show ?thesis using that(1,4) by auto
    qed
    have full: ?thesis if "(ds, i', used') = ([], i, used)" "\<not> fits (bufLen - used) pfx (idx ! i)"
      using that True less.prems by auto
    have emit: ?thesis if "i < j" "j \<le> length idx" "used + dirent_size + length n \<le> bufLen"
      "kids pfx (drop i idx) = (n, ty) # kids pfx (drop j idx)"
      "(case readdir_loop idx pfx bufLen j (used + dirent_size + length n) of (ds, i', used') \<Rightarrow>
         (\<lparr>d_next = j, d_ino = i, d_namlen = length n, d_type = ty, d_name = n\<rparr> # ds, i', used')) = (ds, i', used')" for j n ty
    proof -
      note h = that
      obtain ds1 where d: "readdir_loop idx pfx bufLen j (used + dirent_size + length n) = (ds1, i', used')"
        "ds = \<lparr>d_next = j, d_ino = i, d_namlen = length n, d_type = ty, d_name = n\<rparr> # ds1"
        using h(5) by (auto split: prod.splits)
      have "length idx - j < length idx - i" using that(1,2) by simp
      from less.hyps[OF this d(1) that(2,3)] show ?thesis using that(1,4) d(2) by (auto simp: shown_def)
    qed
    show ?thesis
    proof (cases "below pfx (idx ! i)")
      case Outside
      then show ?thesis using st kd less.prems True by auto
    next
      case Itself
      then show ?thesis using st kd True by (intro skip[of "i + 1"]) auto
    next
      case (FileAt n)
      consider "isMarker (idx ! i)" | "\<not> isMarker (idx ! i)" "used + dirent_size + length n > bufLen"
        | "\<not> isMarker (idx ! i)" "used + dirent_size + length n \<le> bufLen" by linarith
      then show ?thesis
      proof cases
        case 1
        then show ?thesis using FileAt st kd True by (intro skip[of "i + 1"]) auto
      next
        case 2
        then show ?thesis using FileAt st less.prems(3) by (intro full) (auto simp: fits_def)
      next
        case 3
        then show ?thesis using FileAt st kd True by (intro emit[of "i + 1" n VFS_FILETYPE_REGULAR_FILE]) auto
      qed
    next
      case (DirAt n)
      note le = run_le[OF True, of "\<lambda>e. prefix (pfx @ n @ ''/'') (e_path e)"]
      consider "used + dirent_size + length n > bufLen"
        | "\<not> list_ex (\<lambda>e. \<not> isMarker e) (idx ! i # ?run n)" "used + dirent_size + length n \<le> bufLen"
        | "list_ex (\<lambda>e. \<not> isMarker e) (idx ! i # ?run n)" "used + dirent_size + length n \<le> bufLen" by linarith
      then show ?thesis
      proof cases
        case 1
        then show ?thesis using DirAt st less.prems(3) by (intro full) (auto simp: fits_def split: if_splits)
      next
        case 2
        have "\<not> used + dirent_size + length n > bufLen" using 2(2) by simp
        then show ?thesis using st kd le
          by (intro skip[of "i + 1 + length (?run n)"]) (simp_all only: DirAt below.case 2(1) if_False, simp_all)
      next
        case 3
        have "\<not> used + dirent_size + length n > bufLen" using 3(2) by simp
        then show ?thesis using st kd le 3(2)
          by (intro emit[of "i + 1 + length (?run n)" n VFS_FILETYPE_DIRECTORY])
            (simp_all only: DirAt below.case 3(1) if_False if_True, simp_all)
      qed
    qed
  qed
qed

text \<open>A client that lists a directory: it calls until a call returns no entry.\<close>

fun tar_list :: "nat \<Rightarrow> tarfs \<Rightarrow> tarfs_file \<Rightarrow> nat \<Rightarrow> nat \<Rightarrow> (string \<times> nat) list" where
  "tar_list 0 t h bufLen cookie = []"
| "tar_list (Suc fuel) t h bufLen cookie =
     (case TarFs_ReadDir t h bufLen cookie of
        Inl e \<Rightarrow> []
      | Inr (ds, c, used) \<Rightarrow> if ds = [] then [] else map shown ds @ tar_list fuel t h bufLen c)"

lemma tar_list_from:
  assumes "list_all (fits bufLen pfx) (t_index t)" "length (t_index t) - i < fuel" "i \<le> length (t_index t)"
    "i = (if cookie = 0 then lowerBound (t_index t) (length (t_index t)) pfx else cookie)"
  shows "tar_list fuel t (TarDir pfx) bufLen cookie = kids pfx (drop i (t_index t))"
  using assms(2-)
proof (induction fuel arbitrary: i cookie)
  case (Suc fuel)
  obtain ds c used where r: "readdir_loop (t_index t) pfx bufLen i 0 = (ds, c, used)" by (metis prod_cases3)
  from readdir_loop_spec[OF this Suc.prems(2)] have s: "i \<le> c" "c \<le> length (t_index t)" "ds \<noteq> [] \<longrightarrow> i < c"
    "kids pfx (drop i (t_index t)) = map shown ds @ kids pfx (drop c (t_index t))"
    "kids pfx (drop c (t_index t)) = [] \<or> c < length (t_index t) \<and> (ds = [] \<longrightarrow> \<not> fits bufLen pfx (t_index t ! c))" by auto
  have rd: "TarFs_ReadDir t (TarDir pfx) bufLen cookie = Inr (ds, c, used)"
    using r Suc.prems(2,3) by (auto simp: TarFs_ReadDir_def)
  show ?case
  proof (cases "ds = []")
    case True
    then show ?thesis using s(4,5) rd assms(1) by (auto simp: list_all_length)
  next
    case False
    then have "c \<noteq> 0" "length (t_index t) - c < fuel" using s(2,3) Suc.prems(1) by auto
    then show ?thesis using Suc.IH[of c c] False s(2,4) rd by simp
  qed
qed simp


text \<open>The children of a directory, from the files there are.\<close>

definition children :: "tar_index_entry set \<Rightarrow> string \<Rightarrow> (string \<times> nat) set" where
  "children F pfx = {(n, VFS_FILETYPE_REGULAR_FILE) |n. \<exists>e \<in> F. below pfx e = FileAt n} \<union>
     {(n, VFS_FILETYPE_DIRECTORY) |n. \<exists>e \<in> F. below pfx e = DirAt n}"

lemma takeWhile_run:
  fixes es :: "tar_index_entry list"
  assumes "path_sorted (e # es)" "prefix q (e_path e)" "f \<in> set (dropWhile (\<lambda>e. prefix q (e_path e)) es)"
  shows "\<not> prefix q (e_path f)"
  using assms
proof (induction es)
  case (Cons x es)
  show ?case
  proof (cases "prefix q (e_path x)")
    case True
    then show ?thesis using Cons.IH Cons.prems by simp
  next
    case False
    have "e_path e \<le> e_path x" "e_path x \<le> e_path f" using Cons.prems(1,3) False by auto
    then show ?thesis using prefix_between[OF order_trans[OF prefix_le[OF Cons.prems(2)]], of "e_path x" "e_path f"] False by blast
  qed
qed simp

lemma filetype_neq [simp]: "VFS_FILETYPE_REGULAR_FILE \<noteq> VFS_FILETYPE_DIRECTORY" "VFS_FILETYPE_DIRECTORY \<noteq> VFS_FILETYPE_REGULAR_FILE"
  by (simp_all add: VFS_FILETYPE_REGULAR_FILE_def VFS_FILETYPE_DIRECTORY_def)

lemma children_Un: "children (F \<union> G) pfx = children F pfx \<union> children G pfx"
  by (auto simp: children_def)

lemma children_cong:
  "(\<And>e n. below pfx e = FileAt n \<or> below pfx e = DirAt n \<Longrightarrow> e \<in> F \<longleftrightarrow> e \<in> G) \<Longrightarrow> children F pfx = children G pfx"
  unfolding children_def by (intro arg_cong2[of _ _ _ _ "(\<union>)"] Collect_cong) metis+

abbreviation files :: "tar_index_entry list \<Rightarrow> tar_index_entry set" where
  "files es \<equiv> {e \<in> set es. \<not> isMarker e}"

lemma kids_spec:
  assumes "path_sorted es" "\<forall>e \<in> set es. pfx \<le> e_path e" "distinct (map e_path (filter (\<lambda>e. \<not> isMarker e) es))"
  shows "set (kids pfx es) = children (files es) pfx \<and> distinct (kids pfx es)"
  using assms
proof (induction pfx es rule: kids.induct)
  case (1 pfx)
  then show ?case by (simp add: children_def)
next
  case (2 pfx e es)
  have es: "path_sorted es" "\<forall>e \<in> set es. pfx \<le> e_path e" "distinct (map e_path (filter (\<lambda>e. \<not> isMarker e) es))"
    using "2.prems" by (auto split: if_splits)
  have "files (e # es) = (if isMarker e then {} else {e}) \<union> files es" by auto
  then have fs: "children (files (e # es)) pfx = children (if isMarker e then {} else {e}) pfx \<union> children (files es) pfx"
    by (simp only: children_Un)
  have e0: "children {} pfx = {}" by (simp add: children_def)
  show ?case
  proof (cases "below pfx e")
    case Outside
    have "\<not> prefix pfx (e_path f)" if "f \<in> set (e # es)" for f
      using that "2.prems"(1,2) prefix_between[of pfx "e_path e" "e_path f"] Outside by (auto simp: below_Outside)
    then have "below pfx f = Outside" if "f \<in> set (e # es)" for f using that by (simp add: below_Outside)
    then show ?thesis using Outside by (force simp: kids.simps(2) children_def)
  next
    case Itself
    then have "children (if isMarker e then {} else {e}) pfx = {}" by (auto simp: children_def)
    then show ?thesis using "2.IH"(1)[OF Itself es] Itself unfolding fs by (simp add: kids.simps(2))
  next
    case (FileAt n)
    show ?thesis
    proof (cases "isMarker e")
      case True
      then show ?thesis using "2.IH"(2)[OF FileAt True es] FileAt True unfolding fs by (simp add: kids.simps(2) e0)
    next
      case False
      have "e_path e \<noteq> e_path f" if "f \<in> files es" for f using "2.prems"(3) False that by auto
      then have "(n, VFS_FILETYPE_REGULAR_FILE) \<notin> children (files es) pfx"
        using FileAt by (fastforce simp: children_def below_FileAt)
      moreover have "children {e} pfx = {(n, VFS_FILETYPE_REGULAR_FILE)}" using FileAt by (auto simp: children_def)
      ultimately show ?thesis using "2.IH"(3)[OF FileAt False es] FileAt False unfolding fs by (simp add: kids.simps(2))
    qed
  next
    case (DirAt n)
    let ?P = "\<lambda>e. prefix (pfx @ n @ ''/'') (e_path e)"
    define run where "run = takeWhile ?P es"
    define rest where "rest = dropWhile ?P es"
    have rr: "es = run @ rest" "drop (length run) es = rest" "takeWhile ?P es = run"
      unfolding run_def rest_def by (simp_all only: takeWhile_dropWhile_id) (simp add: dropWhile_eq_drop)
    have d: "?P e" "CHR ''/'' \<notin> set n" using DirAt by (simp_all add: below_DirAt)
    have out: "\<not> ?P f" if "f \<in> set rest" for f
      using takeWhile_run[OF "2.prems"(1) d(1) that[unfolded rest_def]] .
    have in_run: "below pfx f = DirAt n" if "f \<in> set (e # run)" for f
    proof -
      have "?P f" using that d(1) set_takeWhileD[of f ?P es] by (auto simp only: run_def list.set)
      then show ?thesis using d(2) by (simp only: below_DirAt simp_thms)
    qed
    have "path_sorted rest" "\<forall>e \<in> set rest. pfx \<le> e_path e" "distinct (map e_path (filter (\<lambda>e. \<not> isMarker e) rest))"
      using es unfolding rr(1) by (auto simp: sorted_append)
    then have IH: "set (kids pfx rest) = children (files rest) pfx" "distinct (kids pfx rest)"
      using "2.IH"(4)[OF DirAt refl] rr(2,3) by simp_all
    have "(n, VFS_FILETYPE_DIRECTORY) \<notin> children (files rest) pfx" using out by (auto simp: children_def below_DirAt)
    moreover have "files (e # es) = files (e # run) \<union> files rest" using rr(1) by auto
    moreover have "children (files (e # run)) pfx = (if list_ex (\<lambda>e. \<not> isMarker e) (e # run) then {(n, VFS_FILETYPE_DIRECTORY)} else {})"
      using in_run by (auto simp: children_def list_ex_iff)
    moreover have "kids pfx (e # es) = (if list_ex (\<lambda>e. \<not> isMarker e) (e # run) then [(n, VFS_FILETYPE_DIRECTORY)] else []) @ kids pfx rest"
      using DirAt rr(2,3) by (simp add: kids.simps(2) Let_def)
    ultimately show ?thesis using IH by (auto simp only: children_Un set_append distinct_append split: if_splits) auto
  qed
qed


definition once :: "tar_index_entry list \<Rightarrow> bool" where
  "once es \<longleftrightarrow> distinct (map e_path (filter (\<lambda>e. \<not> isMarker e) es))"

lemma once_append: "once (xs @ ys) \<longleftrightarrow> once xs \<and> once ys \<and> (\<forall>x \<in> files xs. \<forall>y \<in> files ys. e_path x \<noteq> e_path y)"
  by (auto simp: once_def)

lemma once_fresh: "once es \<Longrightarrow> once (fresh S es)"
  by (induction es) (auto simp: once_def)

lemma once_mset: "mset xs = mset ys \<Longrightarrow> once xs = once ys"
  unfolding once_def by (metis mset_filter mset_map mset_eq_imp_distinct_iff)

context c_qsort
begin

lemma index_layers_once:
  assumes "index_layers qs t ks = Some (Inr t')" "index_sorted (t_index t)" "once (t_index t)"
    "list_all (\<lambda>k. once (layer_entries k (t_layers t ! k))) ks"
  shows "once (t_index t')"
  using assms
proof (induction ks arbitrary: t)
  case (Cons k ks)
  obtain t1 where t1: "indexLayer t k (length (t_index t)) = Some (Inr t1)"
    using Cons.prems(1) by (auto split: option.splits sum.splits)
  have ps: "path_sorted (take (length (t_index t)) (t_index t))" using index_sorted_path[OF Cons.prems(2)] by simp
  from indexLayer_loop_spec[OF t1[unfolded indexLayer_def] order_refl ps] have x: "t_layers t1 = t_layers t"
    "t_index t1 = t_index t @ fresh (set (t_index t)) (layer_entries k (t_layers t ! k))" by (auto simp: layer_entries_def)
  have o1: "once (t_index t1)"
    using Cons.prems(3,4) once_fresh unfolding x(2) once_append by (force simp: covers_def)
  define t2 where "t2 = (if t_index t1 = [] then t1 else t1\<lparr>t_index := qs indexCmp (t_index t1)\<rparr>)"
  have "index_layers qs t2 ks = Some (Inr t')" using Cons.prems(1) t1 by (simp add: t2_def)
  moreover have "index_sorted (t_index t2)" using qs_sorted[OF indexCmp_order] by (simp add: t2_def index_sorted_def)
  moreover have "once (t_index t2)" "t_layers t2 = t_layers t" using o1 once_mset[OF qs_mset] x(1) by (auto simp: t2_def)
  ultimately show ?case using Cons.IH[of t2] Cons.prems(4) by simp
qed simp

lemma TarFsInit_once:
  assumes "TarFsInit qs maxl layers mallocs = Some (Some t)" "list_all once (map2 layer_entries [0..<length layers] layers)"
  shows "once (t_index t)"
proof -
  obtain t0 where t0: "tar_malloc (tarfs_zero layers mallocs) = (True, t0)" "index_layers qs t0 [0..<length layers] = Some (Inr t)"
    using assms by (auto simp: TarFsInit_def split: if_splits prod.splits bool.splits option.splits sum.splits)
  then have s: "t_index t0 = []" "t_layers t0 = layers" using tar_malloc_same[OF t0(1)] by (auto simp: same_index_def tarfs_zero_def)
  then show ?thesis using index_layers_once[OF t0(2)] assms(2) by (auto simp: index_sorted_def once_def list_all_length)
qed

end



end
