(* ===== verification/VfsNames.thy ===== *)
theory VfsNames
  imports TarFs
begin

text \<open>
  What the router of the virtual file system stands on: the drivers (\<open>src/include/vfs.h\<close>), the state
  of a wapp's file system (\<open>src/vfs/vfs-internal.h\<close>), and the three namespaces \<open>/dev\<close>, \<open>/net\<close> and
  \<open>/proc\<close> (\<open>src/vfs/vfs-devfs.c\<close>, \<open>vfs-netfs.c\<close>, \<open>vfs-procfs.c\<close>).

  A driver is a table of function pointers, so its behaviour is a parameter: an environment answers
  each call from the calls made so far.  The calls and their answers are the log of the state.
  A driver pointer is the number of the driver.  A call through a null driver pointer has no
  behaviour, and the operation that makes it is \<open>None\<close>.
\<close>

section \<open>Drivers and their calls\<close>

datatype drv_op =
    OpDestroy | OpOpen | OpOpenAt | OpClose | OpStat | OpStatSet | OpUnlink | OpRead | OpWrite | OpSeek | OpReadDir
  | OpRename | OpMkdir | OpRmdir | OpSockAccept | OpSockRecv | OpSockSend | OpSockShutdown
  | OpPoll | OpSync | OpTruncate | OpSetFlags

text \<open>A driver: its file type and which of its function pointers are set.\<close>

record vfs_driver =
  dr_filetype :: nat
  dr_has :: "drv_op \<Rightarrow> bool"

record vfs_stat =
  st_dev :: u32
  st_ino :: u32
  st_filetype :: nat
  st_size :: u32
  st_nlink :: u32
  st_atim :: u64
  st_mtim :: u64
  st_ctim :: u64
  st_oflags :: u32

definition stat_zero :: vfs_stat where
  "stat_zero = \<lparr>st_dev = 0, st_ino = 0, st_filetype = 0, st_size = 0, st_nlink = 0, st_atim = 0, st_mtim = 0,
     st_ctim = 0, st_oflags = 0\<rparr>"

text \<open>
  The calls that leave the file system, with the driver first.  \<open>CStdClose\<close> is the close of a console,
  which keeps its slot; \<open>CBind\<close> marks the host directory that the embedder hands over.
\<close>

datatype call_arg =
    ANone | ANum nat | AStr string | ABytes "byte list" nat | ASeek int nat | ADir nat u64 | ARename string int string
  | AStat vfs_stat | AWord u64

datatype vcall =
    CDestroy nat
  | COpen nat string oflags
  | COpenAt nat int string oflags
  | CClose nat int
  | CStdClose nat int
  | CSockAccept nat int oflags
  | CBind nat int
  | COp drv_op nat int call_arg
  | CProc drv_op nat string nat u64

abbreviation "CStat d fd \<equiv> COp OpStat d fd ANone"
abbreviation "CStatSet d fd st \<equiv> COp OpStatSet d fd (AStat st)"
abbreviation "CUnlink d fd p \<equiv> COp OpUnlink d fd (AStr p)"
abbreviation "CRead d fd n \<equiv> COp OpRead d fd (ANum n)"
abbreviation "CWrite d fd bs \<equiv> COp OpWrite d fd (ABytes bs 0)"
abbreviation "CSeek d fd off whence \<equiv> COp OpSeek d fd (ASeek off whence)"
abbreviation "CReadDir d fd n cookie \<equiv> COp OpReadDir d fd (ADir n cookie)"
abbreviation "CRename d fd p fd' p' \<equiv> COp OpRename d fd (ARename p fd' p')"
abbreviation "CMkdir d fd p \<equiv> COp OpMkdir d fd (AStr p)"
abbreviation "CRmdir d fd p \<equiv> COp OpRmdir d fd (AStr p)"
abbreviation "CSockRecv d fd n flags \<equiv> COp OpSockRecv d fd (ADir n (of_nat flags))"
abbreviation "CSockSend d fd bs flags \<equiv> COp OpSockSend d fd (ABytes bs flags)"
abbreviation "CSockShutdown d fd flags \<equiv> COp OpSockShutdown d fd (ANum flags)"
abbreviation "CPoll d fd \<equiv> COp OpPoll d fd ANone"
abbreviation "CSync d fd \<equiv> COp OpSync d fd ANone"
abbreviation "CTruncate d fd sz \<equiv> COp OpTruncate d fd (AWord sz)"
abbreviation "CSetFlags d fd flags \<equiv> COp OpSetFlags d fd (AWord (ucast (flags :: oflags)))"
abbreviation "CProcStat ops sub \<equiv> CProc OpStat ops sub 0 0"
abbreviation "CProcRead fn sub n \<equiv> CProc OpRead fn sub n 0"
abbreviation "CProcReadDir ops sub n cookie \<equiv> CProc OpReadDir ops sub n cookie"

text \<open>An answer: the returned number or error, and what the call wrote through its pointers.\<close>

record reply =
  r_ret :: "errno + nat"
  r_bytes :: "byte list"
  r_stat :: vfs_stat
  r_pos :: int
  r_avail :: u32
  r_fd :: int
  r_type :: nat
  r_dirents :: "dirent list"
  r_cookie :: u64
  r_used :: nat

definition reply_err :: "errno \<Rightarrow> reply" where
  "reply_err e = \<lparr>r_ret = Inl e, r_bytes = [], r_stat = stat_zero, r_pos = 0, r_avail = 0, r_fd = -1, r_type = 0,
     r_dirents = [], r_cookie = 0, r_used = 0\<rparr>"

type_synonym vlog = "(vcall \<times> reply) list"

text \<open>
  The environment: the drivers, what calls and allocations answer after a log, the normalisation of
  paths by the cwalk library, and the size of the driver tables.
\<close>

record vfs_env =
  e_drv :: "nat \<Rightarrow> vfs_driver"
  e_reply :: "vlog \<Rightarrow> vcall \<Rightarrow> reply"
  e_alloc :: "vlog \<Rightarrow> nat \<Rightarrow> bool"
  e_norm :: "string \<Rightarrow> string"
  e_max :: nat

section \<open>The state of a wapp's file system\<close>

datatype vfs_fd_type =
    VFS_TYPE_NONE | VFS_TYPE_TARFS | VFS_TYPE_DEV | VFS_TYPE_NET | VFS_TYPE_PROC | VFS_TYPE_STREAM
  | VFS_TYPE_PLATFORM | VFS_TYPE_DRIVER | VFS_TYPE_MOUNTDIR

text \<open>The handle of a node below \<open>/dev\<close> or \<open>/net\<close>.\<close>

record devfs_handle =
  h_drv :: "nat option"
  h_drv_fd :: int
  h_is_root :: bool

record procfs_handle =
  ph_entry :: nat
  ph_is_root :: bool
  ph_is_dir :: bool
  ph_read_done :: bool
  ph_sub :: string

datatype vfs_handle = NoHandle | TarHandle tarfs_file | DevHandle devfs_handle | NetHandle devfs_handle | ProcHandle procfs_handle

record vfs_fd =
  f_type :: vfs_fd_type
  f_ctx :: vfs_handle
  f_flags :: oflags
  f_path :: string
  f_driver :: "nat option"
  f_drv_fd :: int

record named_drv =
  nd_name :: string
  nd_drv :: "nat option"

text \<open>A registered entry of \<open>/proc\<close>: a reader, or the operations of a directory.\<close>

record proc_entry =
  pr_name :: string
  pr_read :: "nat option"
  pr_dir :: "nat option"
  pr_privileged :: bool

record vfs_mount =
  mt_prefix :: string
  mt_type :: vfs_fd_type
  mt_drv :: "nat option"

record vfs_ctx =
  v_fds :: "vfs_fd list"
  v_tarfs :: "tarfs option"
  v_devfs :: "named_drv list"
  v_netfs :: "named_drv list"
  v_mounts :: "vfs_mount list"
  v_procfs :: "proc_entry list"
  v_privileged :: bool
  v_wake_fd :: int
  v_log :: vlog

definition ROOT_FD :: nat where "ROOT_FD = 3"
definition VFS_MAX_FDS :: nat where "VFS_MAX_FDS = 32"
definition VFS_FD_PATH_LEN :: nat where "VFS_FD_PATH_LEN = 128"
definition VFS_MAX_MOUNTS :: nat where "VFS_MAX_MOUNTS = 8"
definition VFS_MOUNT_PREFIX_LEN :: nat where "VFS_MOUNT_PREFIX_LEN = 64"
definition VFS_PROCFS_MAX_ENTRIES :: nat where "VFS_PROCFS_MAX_ENTRIES = 16"
definition PROCFS_SUB_MAX :: nat where "PROCFS_SUB_MAX = 2 * MAX_ENTRY_NAME_LEN"
definition VFS_FILETYPE_UNKNOWN :: nat where "VFS_FILETYPE_UNKNOWN = 0"

section \<open>Calling a driver\<close>

definition drv_call :: "vfs_env \<Rightarrow> vfs_ctx \<Rightarrow> vcall \<Rightarrow> reply \<times> vfs_ctx" where
  "drv_call E c x = (let r = e_reply E (v_log c) x in (r, c\<lparr>v_log := v_log c @ [(x, r)]\<rparr>))"

text \<open>\<open>TRY_DRV\<close>: a missing operation is \<open>EPERM\<close>; a null driver has no behaviour.\<close>

definition TRY_DRV :: "vfs_env \<Rightarrow> vfs_ctx \<Rightarrow> nat option \<Rightarrow> drv_op \<Rightarrow> (nat \<Rightarrow> vcall) \<Rightarrow> (reply \<times> vfs_ctx) option" where
  "TRY_DRV E c d op x =
     (case d of None \<Rightarrow> None
      | Some i \<Rightarrow> Some (if dr_has (e_drv E i) op then drv_call E c (x i) else (reply_err EPERM, c)))"

text \<open>The guarded call of the source: \<open>drv \<and> drv->op ? drv->op(...) : 0\<close>.\<close>

definition opt_drv :: "vfs_env \<Rightarrow> vfs_ctx \<Rightarrow> nat option \<Rightarrow> drv_op \<Rightarrow> (nat \<Rightarrow> vcall) \<Rightarrow> (errno + nat) \<times> vfs_ctx" where
  "opt_drv E c d op x =
     (case d of None \<Rightarrow> (Inr 0, c)
      | Some i \<Rightarrow> if dr_has (e_drv E i) op then (case drv_call E c (x i) of (r, c1) \<Rightarrow> (r_ret r, c1)) else (Inr 0, c))"

definition TRY_FILETYPE :: "vfs_env \<Rightarrow> nat option \<Rightarrow> nat" where
  "TRY_FILETYPE E d = (case d of None \<Rightarrow> VFS_FILETYPE_UNKNOWN | Some i \<Rightarrow> dr_filetype (e_drv E i))"

text \<open>Destroying a table of named drivers, in order.\<close>

fun destroy_named :: "vfs_env \<Rightarrow> vfs_ctx \<Rightarrow> named_drv list \<Rightarrow> vfs_ctx" where
  "destroy_named E c [] = c"
| "destroy_named E c (e # es) = destroy_named E (snd (opt_drv E c (nd_drv e) OpDestroy CDestroy)) es"

section \<open>DevFs\<close>

text \<open>The lookup that DevFs and NetFs share: the entry of exactly that name.\<close>

definition lookupDrv :: "named_drv list \<Rightarrow> string \<Rightarrow> nat option" where
  "lookupDrv tab sfx =
     (if sfx = [] then None
      else case find (\<lambda>e. strncmp MAX_ENTRY_NAME_LEN (nd_name e) sfx = 0) tab of None \<Rightarrow> None | Some e \<Rightarrow> nd_drv e)"

text \<open>\<open>devfsResolve\<close>: the driver and the path below its entry, if the match is not exact.\<close>

definition devfsResolve :: "vfs_ctx \<Rightarrow> string \<Rightarrow> nat option \<times> string option" where
  "devfsResolve c sfx =
     (case lookupDrv (v_devfs c) sfx of
        Some d \<Rightarrow> (Some d, None)
      | None \<Rightarrow>
          (case find (\<lambda>e. let n = length (nd_name e) in
                  n > 0 \<and> strncmp n (nd_name e) sfx = 0 \<and> n < length sfx \<and> sfx ! n = CHR ''/'') (v_devfs c) of
             None \<Rightarrow> (None, None)
           | Some e \<Rightarrow> (nd_drv e, Some (drop (length (nd_name e) + 1) sfx))))"

definition DevFs_Register :: "vfs_env \<Rightarrow> vfs_ctx \<Rightarrow> string \<Rightarrow> nat \<Rightarrow> (errno + nat) \<times> vfs_ctx" where
  "DevFs_Register E c name drv =
     (if name = [] then (Inl EINVAL, c)
      else if length name \<ge> MAX_ENTRY_NAME_LEN then (Inl ENAMETOOLONG, c)
      else if length (v_devfs c) \<ge> e_max E then (Inl ENOSPC, c)
      else if list_ex (\<lambda>e. strncmp MAX_ENTRY_NAME_LEN (nd_name e) name = 0) (v_devfs c) then (Inl EEXIST, c)
      else (Inr 0, c\<lparr>v_devfs := v_devfs c @ [\<lparr>nd_name = strncpy_buf MAX_ENTRY_NAME_LEN name, nd_drv = Some drv\<rparr>]\<rparr>))"

definition DevFs_Destroy :: "vfs_env \<Rightarrow> vfs_ctx \<Rightarrow> vfs_ctx" where
  "DevFs_Destroy E c = (destroy_named E c (v_devfs c))\<lparr>v_devfs := []\<rparr>"

definition DevFs_Open :: "vfs_env \<Rightarrow> vfs_ctx \<Rightarrow> string \<Rightarrow> oflags \<Rightarrow> ((errno + devfs_handle) \<times> vfs_ctx) option" where
  "DevFs_Open E c sfx flags =
     (if sfx = [] then
        Some (if e_alloc E (v_log c) 0 then Inr \<lparr>h_drv = None, h_drv_fd = -1, h_is_root = True\<rparr> else Inl ENOMEM, c)
      else
        (case devfsResolve c sfx of
           (None, sub) \<Rightarrow> Some (Inl ENOENT, c)
         | (Some d, sub) \<Rightarrow>
             let open_path = (case sub of Some p \<Rightarrow> p | None \<Rightarrow> if dr_filetype (e_drv E d) = VFS_FILETYPE_DIRECTORY then ''/'' else [])
             in (case TRY_DRV E c (Some d) OpOpen (\<lambda>i. COpen i open_path flags) of
                   None \<Rightarrow> None
                 | Some (r, c1) \<Rightarrow>
                     (case r_ret r of
                        Inl e \<Rightarrow> Some (Inl e, c1)
                      | Inr fd \<Rightarrow>
                          if e_alloc E (v_log c1) 0 then Some (Inr \<lparr>h_drv = Some d, h_drv_fd = int fd, h_is_root = False\<rparr>, c1)
                          else (case TRY_DRV E c1 (Some d) OpClose (\<lambda>i. CClose i (int fd)) of
                                  None \<Rightarrow> None | Some (_, c2) \<Rightarrow> Some (Inl ENOMEM, c2))))))"

definition DevFs_Close :: "vfs_env \<Rightarrow> vfs_ctx \<Rightarrow> devfs_handle \<Rightarrow> ((errno + nat) \<times> vfs_ctx) option" where
  "DevFs_Close E c h =
     (if h_is_root h then Some (Inr 0, c)
      else (case TRY_DRV E c (h_drv h) OpClose (\<lambda>i. CClose i (h_drv_fd h)) of
              None \<Rightarrow> None | Some (r, c1) \<Rightarrow> Some (r_ret r, c1)))"

text \<open>The operations that only forward to the driver of the handle, root or not.\<close>

definition DevFs_Read :: "vfs_env \<Rightarrow> vfs_ctx \<Rightarrow> devfs_handle \<Rightarrow> nat \<Rightarrow> (reply \<times> vfs_ctx) option" where
  "DevFs_Read E c h n = TRY_DRV E c (h_drv h) OpRead (\<lambda>i. CRead i (h_drv_fd h) n)"

definition DevFs_Write :: "vfs_env \<Rightarrow> vfs_ctx \<Rightarrow> devfs_handle \<Rightarrow> byte list \<Rightarrow> (reply \<times> vfs_ctx) option" where
  "DevFs_Write E c h bs = TRY_DRV E c (h_drv h) OpWrite (\<lambda>i. CWrite i (h_drv_fd h) bs)"

definition DevFs_Stat :: "vfs_env \<Rightarrow> vfs_ctx \<Rightarrow> devfs_handle \<Rightarrow> ((errno + vfs_stat) \<times> vfs_ctx) option" where
  "DevFs_Stat E c h =
     (if h_is_root h then Some (Inr (stat_zero\<lparr>st_filetype := VFS_FILETYPE_DIRECTORY\<rparr>), c)
      else (case TRY_DRV E c (h_drv h) OpStat (\<lambda>i. CStat i (h_drv_fd h)) of
              None \<Rightarrow> None
            | Some (r, c1) \<Rightarrow> Some (case r_ret r of Inl e \<Rightarrow> Inl e | Inr _ \<Rightarrow> Inr (r_stat r), c1)))"

definition DevFs_StatSet :: "vfs_env \<Rightarrow> vfs_ctx \<Rightarrow> devfs_handle \<Rightarrow> vfs_stat \<Rightarrow> (reply \<times> vfs_ctx) option" where
  "DevFs_StatSet E c h st = TRY_DRV E c (h_drv h) OpStatSet (\<lambda>i. CStatSet i (h_drv_fd h) st)"

definition DevFs_Seek :: "vfs_env \<Rightarrow> vfs_ctx \<Rightarrow> devfs_handle \<Rightarrow> int \<Rightarrow> nat \<Rightarrow> (reply \<times> vfs_ctx) option" where
  "DevFs_Seek E c h off whence = TRY_DRV E c (h_drv h) OpSeek (\<lambda>i. CSeek i (h_drv_fd h) off whence)"

definition DevFs_HandleDriver :: "devfs_handle \<Rightarrow> nat option \<times> int" where
  "DevFs_HandleDriver h = (if h_is_root h then (None, -1) else (h_drv h, h_drv_fd h))"

definition POLL_ALWAYS :: u32 where "POLL_ALWAYS = VFS_POLL_IN OR VFS_POLL_OUT"

definition DevFs_Poll :: "vfs_env \<Rightarrow> vfs_ctx \<Rightarrow> devfs_handle \<Rightarrow> ((errno + nat) \<times> u32 \<times> vfs_ctx) option" where
  "DevFs_Poll E c h =
     (if h_is_root h then Some (Inr (unat POLL_ALWAYS), 0, c)
      else (case h_drv h of
              None \<Rightarrow> None
            | Some d \<Rightarrow>
                if \<not> dr_has (e_drv E d) OpPoll then Some (Inr (unat POLL_ALWAYS), 0, c)
                else (case drv_call E c (CPoll d (h_drv_fd h)) of (r, c1) \<Rightarrow> Some (r_ret r, r_avail r, c1))))"

text \<open>The listing of \<open>/dev\<close> from entry \<open>i\<close>, a \<open>uint8_t\<close>, with \<open>used\<close> bytes packed.\<close>

function dev_dir_loop :: "vfs_env \<Rightarrow> named_drv list \<Rightarrow> nat \<Rightarrow> nat \<Rightarrow> nat \<Rightarrow> dirent list \<times> nat \<times> nat" where
  "dev_dir_loop E tab bufLen i used =
     (if i < length tab then
        let name = nd_name (tab ! i); namlen = length name in
        if used + dirent_size + namlen > bufLen then ([], i, used)
        else
          let dir = \<lparr>d_next = i + 1, d_ino = i, d_namlen = namlen, d_type = TRY_FILETYPE E (nd_drv (tab ! i)), d_name = name\<rparr>;
              (ds, i', used') = dev_dir_loop E tab bufLen (i + 1) (used + dirent_size + namlen)
          in (dir # ds, i', used')
      else ([], i, used))"
  by pat_completeness auto
termination by (relation "measure (\<lambda>(_, tab, _, i, _). length tab - i)") auto

declare dev_dir_loop.simps [simp del]

type_synonym dir_reply = "errno + dirent list \<times> u64 \<times> nat"

definition drv_readdir :: "vfs_env \<Rightarrow> vfs_ctx \<Rightarrow> nat option \<Rightarrow> int \<Rightarrow> nat \<Rightarrow> u64 \<Rightarrow> (dir_reply \<times> vfs_ctx) option" where
  "drv_readdir E c d fd bufLen cookie =
     (case TRY_DRV E c d OpReadDir (\<lambda>i. CReadDir i fd bufLen cookie) of
        None \<Rightarrow> None
      | Some (r, c1) \<Rightarrow>
          Some (case r_ret r of Inl e \<Rightarrow> Inl e | Inr _ \<Rightarrow> Inr (r_dirents r, r_cookie r, r_used r), c1))"

definition DevFs_ReadDir :: "vfs_env \<Rightarrow> vfs_ctx \<Rightarrow> devfs_handle \<Rightarrow> nat \<Rightarrow> u64 \<Rightarrow> (dir_reply \<times> vfs_ctx) option" where
  "DevFs_ReadDir E c h bufLen cookie =
     (if h_is_root h then
        (case dev_dir_loop E (v_devfs c) bufLen (unat cookie mod 256) 0 of (ds, i, used) \<Rightarrow> Some (Inr (ds, of_nat i, used), c))
      else drv_readdir E c (h_drv h) (h_drv_fd h) bufLen cookie)"

definition DevFs_UnlinkPath :: "vfs_env \<Rightarrow> vfs_ctx \<Rightarrow> string \<Rightarrow> (reply \<times> vfs_ctx) option" where
  "DevFs_UnlinkPath E c sfx =
     (case devfsResolve c sfx of
        (None, sub) \<Rightarrow> Some (reply_err ENOENT, c)
      | (Some d, None) \<Rightarrow> Some (reply_err EISDIR, c)
      | (Some d, Some p) \<Rightarrow> TRY_DRV E c (Some d) OpUnlink (\<lambda>i. CUnlink i (-1) p))"

section \<open>NetFs\<close>

definition NetFs_Register :: "vfs_env \<Rightarrow> vfs_ctx \<Rightarrow> string \<Rightarrow> nat \<Rightarrow> (errno + nat) \<times> vfs_ctx" where
  "NetFs_Register E c name drv =
     (if name = [] then (Inl EINVAL, c)
      else if length name \<ge> MAX_ENTRY_NAME_LEN then (Inl ENAMETOOLONG, c)
      else if length (v_netfs c) \<ge> e_max E then (Inl ENOSPC, c)
      else if list_ex (\<lambda>e. strncmp MAX_ENTRY_NAME_LEN (nd_name e) name = 0) (v_netfs c) then (Inl EEXIST, c)
      else (Inr 0, c\<lparr>v_netfs := v_netfs c @ [\<lparr>nd_name = strncpy_buf MAX_ENTRY_NAME_LEN name, nd_drv = Some drv\<rparr>]\<rparr>))"

definition NetFs_Destroy :: "vfs_env \<Rightarrow> vfs_ctx \<Rightarrow> vfs_ctx" where
  "NetFs_Destroy E c = (destroy_named E c (v_netfs c))\<lparr>v_netfs := []\<rparr>"

definition NetFs_Open :: "vfs_env \<Rightarrow> vfs_ctx \<Rightarrow> string \<Rightarrow> oflags \<Rightarrow> ((errno + devfs_handle) \<times> vfs_ctx) option" where
  "NetFs_Open E c sfx flags =
     (if sfx = [] then
        Some (if e_alloc E (v_log c) 0 then Inr \<lparr>h_drv = None, h_drv_fd = -1, h_is_root = True\<rparr> else Inl ENOMEM, c)
      else
        (case lookupDrv (v_netfs c) sfx of
           None \<Rightarrow> Some (Inl ENOENT, c)
         | Some d \<Rightarrow>
             (case TRY_DRV E c (Some d) OpOpen (\<lambda>i. COpen i [] flags) of
                None \<Rightarrow> None
              | Some (r, c1) \<Rightarrow>
                  (case r_ret r of
                     Inl e \<Rightarrow> Some (Inl e, c1)
                   | Inr fd \<Rightarrow>
                       if e_alloc E (v_log c1) 0 then Some (Inr \<lparr>h_drv = Some d, h_drv_fd = int fd, h_is_root = False\<rparr>, c1)
                       else (case TRY_DRV E c1 (Some d) OpClose (\<lambda>i. CClose i (int fd)) of
                               None \<Rightarrow> None | Some (_, c2) \<Rightarrow> Some (Inl ENOMEM, c2))))))"

definition NetFs_Close :: "vfs_env \<Rightarrow> vfs_ctx \<Rightarrow> devfs_handle \<Rightarrow> ((errno + nat) \<times> vfs_ctx) option" where
  "NetFs_Close E c h =
     (if h_is_root h then Some (Inr 0, c)
      else (case TRY_DRV E c (h_drv h) OpClose (\<lambda>i. CClose i (h_drv_fd h)) of
              None \<Rightarrow> None | Some (r, c1) \<Rightarrow> Some (r_ret r, c1)))"

definition NetFs_Read :: "vfs_env \<Rightarrow> vfs_ctx \<Rightarrow> devfs_handle \<Rightarrow> nat \<Rightarrow> (reply \<times> vfs_ctx) option" where
  "NetFs_Read E c h n = TRY_DRV E c (h_drv h) OpRead (\<lambda>i. CRead i (h_drv_fd h) n)"

definition NetFs_Write :: "vfs_env \<Rightarrow> vfs_ctx \<Rightarrow> devfs_handle \<Rightarrow> byte list \<Rightarrow> (reply \<times> vfs_ctx) option" where
  "NetFs_Write E c h bs = TRY_DRV E c (h_drv h) OpWrite (\<lambda>i. CWrite i (h_drv_fd h) bs)"

definition NetFs_HandleDriver :: "devfs_handle \<Rightarrow> nat option \<times> int" where
  "NetFs_HandleDriver h = (if h_is_root h then (None, -1) else (h_drv h, h_drv_fd h))"

definition NetFs_Poll :: "vfs_env \<Rightarrow> vfs_ctx \<Rightarrow> devfs_handle \<Rightarrow> ((errno + nat) \<times> u32 \<times> vfs_ctx) option" where
  "NetFs_Poll E c h =
     (if h_is_root h then Some (Inr (unat POLL_ALWAYS), 0, c)
      else (case h_drv h of
              None \<Rightarrow> None
            | Some d \<Rightarrow>
                if \<not> dr_has (e_drv E d) OpPoll then Some (Inr (unat POLL_ALWAYS), 0, c)
                else (case drv_call E c (CPoll d (h_drv_fd h)) of (r, c1) \<Rightarrow> Some (r_ret r, r_avail r, c1))))"

definition NetFs_Stat :: "vfs_env \<Rightarrow> vfs_ctx \<Rightarrow> devfs_handle \<Rightarrow> ((errno + vfs_stat) \<times> vfs_ctx) option" where
  "NetFs_Stat E c h =
     (if h_is_root h then Some (Inr (stat_zero\<lparr>st_filetype := VFS_FILETYPE_DIRECTORY\<rparr>), c)
      else (case TRY_DRV E c (h_drv h) OpStat (\<lambda>i. CStat i (h_drv_fd h)) of
              None \<Rightarrow> None
            | Some (r, c1) \<Rightarrow> Some (case r_ret r of Inl e \<Rightarrow> Inl e | Inr _ \<Rightarrow> Inr (r_stat r), c1)))"

definition NetFs_StatPath :: "vfs_env \<Rightarrow> vfs_ctx \<Rightarrow> string \<Rightarrow> errno + vfs_stat" where
  "NetFs_StatPath E c sfx =
     (if sfx = [] then Inr (stat_zero\<lparr>st_filetype := VFS_FILETYPE_DIRECTORY\<rparr>)
      else case lookupDrv (v_netfs c) sfx of
             None \<Rightarrow> Inl ENOENT
           | Some d \<Rightarrow> Inr (stat_zero\<lparr>st_filetype := dr_filetype (e_drv E d)\<rparr>))"

definition NetFs_ReadDir :: "vfs_env \<Rightarrow> vfs_ctx \<Rightarrow> devfs_handle \<Rightarrow> nat \<Rightarrow> u64 \<Rightarrow> (dir_reply \<times> vfs_ctx) option" where
  "NetFs_ReadDir E c h bufLen cookie =
     (if h_is_root h then
        (case VfsFlatDirReadDir (map (\<lambda>e. \<lparr>de_name = nd_name e, de_type = TRY_FILETYPE E (nd_drv e)\<rparr>) (v_netfs c)) bufLen (unat cookie) of
           (ds, i, used) \<Rightarrow> Some (Inr (ds, of_nat i, used), c))
      else drv_readdir E c (h_drv h) (h_drv_fd h) bufLen cookie)"

definition NetFs_SockAccept :: "vfs_env \<Rightarrow> vfs_ctx \<Rightarrow> devfs_handle \<Rightarrow> oflags \<Rightarrow> ((errno + devfs_handle) \<times> vfs_ctx) option" where
  "NetFs_SockAccept E c h flags =
     (case TRY_DRV E c (h_drv h) OpSockAccept (\<lambda>i. CSockAccept i (h_drv_fd h) flags) of
        None \<Rightarrow> None
      | Some (r, c1) \<Rightarrow>
          (case r_ret r of
             Inl e \<Rightarrow> Some (Inl e, c1)
           | Inr _ \<Rightarrow>
               if e_alloc E (v_log c1) 0 then Some (Inr \<lparr>h_drv = h_drv h, h_drv_fd = r_fd r, h_is_root = False\<rparr>, c1)
               else (case TRY_DRV E c1 (h_drv h) OpClose (\<lambda>i. CClose i (r_fd r)) of
                       None \<Rightarrow> None | Some (_, c2) \<Rightarrow> Some (Inl ENOMEM, c2))))"

definition NetFs_SockRecv :: "vfs_env \<Rightarrow> vfs_ctx \<Rightarrow> devfs_handle \<Rightarrow> nat \<Rightarrow> nat \<Rightarrow> (reply \<times> vfs_ctx) option" where
  "NetFs_SockRecv E c h n iflags = TRY_DRV E c (h_drv h) OpSockRecv (\<lambda>i. CSockRecv i (h_drv_fd h) n iflags)"

definition NetFs_SockSend :: "vfs_env \<Rightarrow> vfs_ctx \<Rightarrow> devfs_handle \<Rightarrow> byte list \<Rightarrow> nat \<Rightarrow> (reply \<times> vfs_ctx) option" where
  "NetFs_SockSend E c h bs flags = TRY_DRV E c (h_drv h) OpSockSend (\<lambda>i. CSockSend i (h_drv_fd h) bs flags)"

definition NetFs_SockShutdown :: "vfs_env \<Rightarrow> vfs_ctx \<Rightarrow> devfs_handle \<Rightarrow> nat \<Rightarrow> (reply \<times> vfs_ctx) option" where
  "NetFs_SockShutdown E c h flags = TRY_DRV E c (h_drv h) OpSockShutdown (\<lambda>i. CSockShutdown i (h_drv_fd h) flags)"

section \<open>ProcFs\<close>

text \<open>\<open>claimEntry\<close>: the new entry, still without its reader or operations.\<close>

definition claimEntry :: "vfs_ctx \<Rightarrow> string \<Rightarrow> errno + proc_entry" where
  "claimEntry c name =
     (if name = [] then Inl EINVAL
      else if length name \<ge> MAX_ENTRY_NAME_LEN then Inl ENAMETOOLONG
      else if length (v_procfs c) \<ge> VFS_PROCFS_MAX_ENTRIES then Inl ENOSPC
      else if list_ex (\<lambda>e. strncmp MAX_ENTRY_NAME_LEN (pr_name e) name = 0) (v_procfs c) then Inl EEXIST
      else Inr \<lparr>pr_name = strncpy_buf MAX_ENTRY_NAME_LEN name, pr_read = None, pr_dir = None, pr_privileged = False\<rparr>)"

definition ProcFs_Register :: "vfs_ctx \<Rightarrow> string \<Rightarrow> nat \<Rightarrow> bool \<Rightarrow> (errno + nat) \<times> vfs_ctx" where
  "ProcFs_Register c name fn privileged =
     (case claimEntry c name of
        Inl e \<Rightarrow> (Inl e, c)
      | Inr e \<Rightarrow> (Inr 0, c\<lparr>v_procfs := v_procfs c @ [e\<lparr>pr_read := Some fn, pr_privileged := privileged\<rparr>]\<rparr>))"

definition ProcFs_RegisterDir :: "vfs_ctx \<Rightarrow> string \<Rightarrow> nat \<Rightarrow> bool \<Rightarrow> (errno + nat) \<times> vfs_ctx" where
  "ProcFs_RegisterDir c name dops privileged =
     (case claimEntry c name of
        Inl e \<Rightarrow> (Inl e, c)
      | Inr e \<Rightarrow> (Inr 0, c\<lparr>v_procfs := v_procfs c @ [e\<lparr>pr_dir := Some dops, pr_privileged := privileged\<rparr>]\<rparr>))"

definition ProcFs_Destroy :: "vfs_ctx \<Rightarrow> vfs_ctx" where
  "ProcFs_Destroy c = c\<lparr>v_procfs := []\<rparr>"

definition splitFirst :: "string \<Rightarrow> errno + string \<times> string" where
  "splitFirst sfx =
     (case strchr_split CHR ''/'' sfx of
        (seg, rest) \<Rightarrow>
          if length seg \<ge> MAX_ENTRY_NAME_LEN then Inl ENAMETOOLONG
          else Inr (seg, case rest of None \<Rightarrow> [] | Some r \<Rightarrow> r))"

definition findEntry :: "vfs_ctx \<Rightarrow> string \<Rightarrow> nat option" where
  "findEntry c name = find_idx (\<lambda>e. strncmp MAX_ENTRY_NAME_LEN (pr_name e) name = 0) (v_procfs c)"

definition ProcFs_Open :: "vfs_env \<Rightarrow> vfs_ctx \<Rightarrow> string \<Rightarrow> (errno + procfs_handle) \<times> vfs_ctx" where
  "ProcFs_Open E c sfx =
     (if \<not> e_alloc E (v_log c) 0 then (Inl ENOMEM, c)
      else if sfx = [] then
        (Inr \<lparr>ph_entry = 0, ph_is_root = True, ph_is_dir = True, ph_read_done = False, ph_sub = []\<rparr>, c)
      else
        (case splitFirst sfx of
           Inl e \<Rightarrow> (Inl e, c)
         | Inr (seg, rest) \<Rightarrow>
             (case findEntry c seg of
                None \<Rightarrow> (Inl ENOENT, c)
              | Some k \<Rightarrow>
                  let e = v_procfs c ! k in
                  if pr_privileged e \<and> \<not> v_privileged c then (Inl EACCES, c)
                  else
                    (case pr_dir e of
                       Some dops \<Rightarrow>
                         (case drv_call E c (CProcStat dops rest) of
                            (r, c1) \<Rightarrow>
                              (case r_ret r of
                                 Inl x \<Rightarrow> (Inl x, c1)
                               | Inr _ \<Rightarrow>
                                   (Inr \<lparr>ph_entry = k, ph_is_root = False, ph_is_dir = (r_type r = VFS_FILETYPE_DIRECTORY),
                                         ph_read_done = False, ph_sub = strncpy_buf PROCFS_SUB_MAX rest\<rparr>, c1)))
                     | None \<Rightarrow>
                         if rest \<noteq> [] then (Inl ENOENT, c)
                         else (Inr \<lparr>ph_entry = k, ph_is_root = False, ph_is_dir = False, ph_read_done = False, ph_sub = []\<rparr>, c)))))"

text \<open>\<open>ProcFs_Read\<close> also returns the handle, whose latch ends the stream after one read.\<close>

definition ProcFs_Read :: "vfs_env \<Rightarrow> vfs_ctx \<Rightarrow> procfs_handle \<Rightarrow> nat \<Rightarrow> ((errno + byte list) \<times> procfs_handle \<times> vfs_ctx) option" where
  "ProcFs_Read E c h n =
     (if ph_is_dir h then Some (Inl EISDIR, h, c)
      else if ph_read_done h then Some (Inr [], h, c)
      else
        let e = v_procfs c ! ph_entry h in
        (case (case pr_dir e of Some dops \<Rightarrow> Some dops | None \<Rightarrow> pr_read e) of
           None \<Rightarrow> None
         | Some fn \<Rightarrow>
             (case drv_call E c (CProcRead fn (if pr_dir e = None then [] else ph_sub h) n) of
                (r, c1) \<Rightarrow>
                  (case r_ret r of
                     Inl x \<Rightarrow> Some (Inl x, h, c1)
                   | Inr _ \<Rightarrow> Some (Inr (r_bytes r), h\<lparr>ph_read_done := True\<rparr>, c1)))))"

definition ProcFs_Stat :: "procfs_handle \<Rightarrow> vfs_stat" where
  "ProcFs_Stat h =
     stat_zero\<lparr>st_filetype := (if ph_is_dir h then VFS_FILETYPE_DIRECTORY else VFS_FILETYPE_REGULAR_FILE)\<rparr>"

definition ProcFs_ReadDir :: "vfs_env \<Rightarrow> vfs_ctx \<Rightarrow> procfs_handle \<Rightarrow> nat \<Rightarrow> u64 \<Rightarrow> (dir_reply \<times> vfs_ctx) option" where
  "ProcFs_ReadDir E c h bufLen cookie =
     (if \<not> ph_is_dir h then Some (Inl EBADF, c)
      else if \<not> ph_is_root h then
        (case pr_dir (v_procfs c ! ph_entry h) of
           None \<Rightarrow> None
         | Some dops \<Rightarrow>
             (case drv_call E c (CProcReadDir dops (ph_sub h) bufLen cookie) of
                (r, c1) \<Rightarrow> Some (case r_ret r of Inl e \<Rightarrow> Inl e | Inr _ \<Rightarrow> Inr (r_dirents r, r_cookie r, r_used r), c1)))
      else
        (case VfsFlatDirReadDir
                (map (\<lambda>e. \<lparr>de_name = pr_name e,
                           de_type = (if pr_dir e \<noteq> None then VFS_FILETYPE_DIRECTORY else VFS_FILETYPE_REGULAR_FILE)\<rparr>)
                  (filter (\<lambda>e. \<not> (pr_privileged e \<and> \<not> v_privileged c)) (v_procfs c)))
                bufLen (unat cookie) of
           (ds, i, used) \<Rightarrow> Some (Inr (ds, of_nat i, used), c)))"

end
