(* ===== verification/Vfs.thy ===== *)
theory Vfs
  imports VfsNames
begin

text \<open>
  The router of the virtual file system (\<open>src/vfs/vfs.c\<close>): the mount table, the table of descriptors
  and every call of the file system on them.  A descriptor is an \<open>int\<close>; pointers that the callers pass
  are there, so the checks for null arguments have no counterpart.  Results are the returned number or
  error with the new state, and \<open>None\<close> where a null driver would be followed.
\<close>

section \<open>Paths and mounts\<close>

definition vfsResolvePath :: "vfs_env \<Rightarrow> vfs_ctx \<Rightarrow> int \<Rightarrow> string \<Rightarrow> errno + string" where
  "vfsResolvePath E c parent path =
     (case (if path \<noteq> [] \<and> hd path = CHR ''/'' then Inr path
            else if parent < 0 \<or> parent \<ge> int VFS_MAX_FDS \<or> f_type (v_fds c ! nat parent) = VFS_TYPE_NONE then Inl EBADF
            else
              let base = f_path (v_fds c ! nat parent) in
              if length base + 1 + length path \<ge> VFS_FD_PATH_LEN * 2 then Inl ENAMETOOLONG
              else Inr ((if base = [] \<or> last base \<noteq> CHR ''/'' then base @ ''/'' else base) @ path)) of
        Inl e \<Rightarrow> Inl e
      | Inr src \<Rightarrow>
          let out = e_norm E src in
          if length out \<ge> VFS_FD_PATH_LEN then Inl ENAMETOOLONG
          else Inr (if length out > 1 \<and> last out = CHR ''/'' then butlast out else out))"

definition vfsMount :: "vfs_ctx \<Rightarrow> string \<Rightarrow> vfs_fd_type \<Rightarrow> nat option \<Rightarrow> (errno + nat) \<times> vfs_ctx" where
  "vfsMount c pfx type drv =
     (if length (v_mounts c) \<ge> VFS_MAX_MOUNTS then (Inl ENOSPC, c)
      else if length pfx \<ge> VFS_MOUNT_PREFIX_LEN then (Inl ENAMETOOLONG, c)
      else (Inr 0, c\<lparr>v_mounts := v_mounts c @ [\<lparr>mt_prefix = pfx, mt_type = type, mt_drv = drv\<rparr>]\<rparr>))"

definition VfsMountDriver :: "vfs_ctx \<Rightarrow> string \<Rightarrow> nat \<Rightarrow> (errno + nat) \<times> vfs_ctx" where
  "VfsMountDriver c pfx drv =
     (if pfx = [] \<or> hd pfx \<noteq> CHR ''/'' \<or> tl pfx = [] then (Inl EINVAL, c)
      else if list_ex (\<lambda>m. strcmp (mt_prefix m) pfx = 0) (v_mounts c) then (Inl EEXIST, c)
      else vfsMount c pfx VFS_TYPE_DRIVER (Some drv))"

definition checkFd :: "vfs_ctx \<Rightarrow> int \<Rightarrow> bool" where
  "checkFd c fd \<longleftrightarrow> fd \<ge> 0 \<and> fd < int VFS_MAX_FDS \<and> f_type (v_fds c ! nat fd) \<noteq> VFS_TYPE_NONE"

definition findFirstClosedFd :: "vfs_ctx \<Rightarrow> errno + nat" where
  "findFirstClosedFd c =
     (case find (\<lambda>i. f_type (v_fds c ! i) = VFS_TYPE_NONE) [ROOT_FD..<VFS_MAX_FDS] of None \<Rightarrow> Inl EMFILE | Some i \<Rightarrow> Inr i)"

text \<open>Whether a mount takes a path: the root takes all, another its own path and what is below it.\<close>

definition mount_matches :: "string \<Rightarrow> string \<Rightarrow> bool" where
  "mount_matches pfx path =
     (if length pfx = 1 then path \<noteq> [] \<and> hd path = CHR ''/''
      else strncmp (length pfx) path pfx = 0 \<and> (length path = length pfx \<or> path ! length pfx = CHR ''/''))"

fun route_loop :: "string \<Rightarrow> vfs_mount list \<Rightarrow> nat \<Rightarrow> vfs_fd_type \<Rightarrow> nat option \<Rightarrow> nat \<times> vfs_fd_type \<times> nat option" where
  "route_loop path [] best t drv = (best, t, drv)"
| "route_loop path (m # ms) best t drv =
     (if mount_matches (mt_prefix m) path \<and> length (mt_prefix m) > best
      then route_loop path ms (length (mt_prefix m)) (mt_type m) (mt_drv m)
      else route_loop path ms best t drv)"

definition routeMatch :: "vfs_ctx \<Rightarrow> string \<Rightarrow> errno + vfs_fd_type \<times> nat option \<times> string" where
  "routeMatch c path =
     (case route_loop path (v_mounts c) 0 VFS_TYPE_NONE None of
        (best, t, drv) \<Rightarrow>
          if t = VFS_TYPE_NONE then Inl ENOENT
          else
            let s = drop best path in
            Inr (t, drv, if s \<noteq> [] \<and> hd s = CHR ''/'' then tl s else s))"

definition isMountAncestor :: "vfs_ctx \<Rightarrow> string \<Rightarrow> bool" where
  "isMountAncestor c path \<longleftrightarrow>
     list_ex (\<lambda>m. let pfx = mt_prefix m; n = length path in
        strncmp n pfx path = 0 \<and> n + 1 < length pfx \<and> pfx ! n = CHR ''/'') (v_mounts c)"

section \<open>The descriptor table\<close>

abbreviation slot :: "vfs_ctx \<Rightarrow> int \<Rightarrow> vfs_fd" where
  "slot c fd \<equiv> v_fds c ! nat fd"

definition set_fd :: "vfs_ctx \<Rightarrow> nat \<Rightarrow> (vfs_fd \<Rightarrow> vfs_fd) \<Rightarrow> vfs_ctx" where
  "set_fd c i g = c\<lparr>v_fds := (v_fds c)[i := g (v_fds c ! i)]\<rparr>"

definition openMountDir :: "vfs_ctx \<Rightarrow> string \<Rightarrow> (errno + nat) \<times> vfs_ctx" where
  "openMountDir c path =
     (case findFirstClosedFd c of
        Inl e \<Rightarrow> (Inl e, c)
      | Inr fd \<Rightarrow> (Inr fd, set_fd c fd (\<lambda>f. f\<lparr>f_type := VFS_TYPE_MOUNTDIR, f_flags := VFS_O_RDONLY,
                                            f_path := strncpy_buf VFS_FD_PATH_LEN path\<rparr>)))"

text \<open>The close of the handle of a namespace, which \<open>route_open\<close>, \<open>VfsClose\<close> and \<open>VfsDestroy\<close> share.\<close>

definition close_handle :: "vfs_env \<Rightarrow> vfs_ctx \<Rightarrow> vfs_handle \<Rightarrow> ((errno + nat) \<times> vfs_ctx) option" where
  "close_handle E c h =
     (case h of
        DevHandle d \<Rightarrow> DevFs_Close E c d
      | NetHandle d \<Rightarrow> NetFs_Close E c d
      | ProcHandle p \<Rightarrow> Some (Inr 0, c)
      | TarHandle t \<Rightarrow> Some (Inr 0, c)
      | NoHandle \<Rightarrow> Some (Inl EBADF, c))"

definition read_only :: "oflags \<Rightarrow> bool" where
  "read_only flags \<longleftrightarrow> flags AND 3 = VFS_O_RDONLY \<and> flags AND (VFS_O_CREAT OR VFS_O_TRUNC) = 0"

text \<open>The second part of \<open>route_open\<close>: a slot for an open namespace handle.\<close>

definition install_handle :: "vfs_env \<Rightarrow> vfs_ctx \<Rightarrow> vfs_fd_type \<Rightarrow> vfs_handle \<Rightarrow> oflags \<Rightarrow> string \<Rightarrow> ((errno + nat) \<times> vfs_ctx) option" where
  "install_handle E c type h flags path =
     (case findFirstClosedFd c of
        Inl e \<Rightarrow> (case close_handle E c h of None \<Rightarrow> None | Some (_, c1) \<Rightarrow> Some (Inl e, c1))
      | Inr fd \<Rightarrow> Some (Inr fd, set_fd c fd (\<lambda>f. f\<lparr>f_type := type, f_ctx := h, f_flags := flags,
                                                f_path := strncpy_buf VFS_FD_PATH_LEN path\<rparr>)))"

text \<open>The first part: a driver mount delegates to its driver.\<close>

definition open_driver :: "vfs_env \<Rightarrow> vfs_ctx \<Rightarrow> nat option \<Rightarrow> string \<Rightarrow> oflags \<Rightarrow> string \<Rightarrow> ((errno + nat) \<times> vfs_ctx) option" where
  "open_driver E c drv sfx flags path =
     (case drv of
        None \<Rightarrow> None
      | Some d \<Rightarrow>
          let open_path = (if sfx = [] then (if dr_filetype (e_drv E d) = VFS_FILETYPE_DIRECTORY then ''/'' else []) else sfx) in
          (case TRY_DRV E c drv OpOpen (\<lambda>i. COpen i open_path flags) of
             None \<Rightarrow> None
           | Some (r, c1) \<Rightarrow>
               (case r_ret r of
                  Inl e \<Rightarrow> Some (Inl e, c1)
                | Inr n \<Rightarrow>
                    (case findFirstClosedFd c1 of
                       Inl e \<Rightarrow> (case TRY_DRV E c1 drv OpClose (\<lambda>i. CClose i (int n)) of None \<Rightarrow> None | Some (_, c2) \<Rightarrow> Some (Inl e, c2))
                     | Inr fd \<Rightarrow>
                         Some (Inr fd, set_fd c1 fd (\<lambda>f. f\<lparr>f_type := VFS_TYPE_DRIVER, f_driver := drv, f_drv_fd := int n,
                                 f_flags := flags, f_path := strncpy_buf VFS_FD_PATH_LEN path\<rparr>))))))"

text \<open>The TarFS case of \<open>route_open\<close>, with the synthetic directories above a mount.\<close>

definition open_tarfs :: "vfs_env \<Rightarrow> vfs_ctx \<Rightarrow> oflags \<Rightarrow> string \<Rightarrow> ((errno + nat) \<times> vfs_ctx) option" where
  "open_tarfs E c flags path =
     (case v_tarfs c of
        None \<Rightarrow> Some (if read_only flags \<and> isMountAncestor c path then openMountDir c path else (Inl ENOENT, c))
      | Some t \<Rightarrow>
          if \<not> read_only flags then Some (Inl EROFS, c)
          else
            (case TarFs_Open t (e_alloc E (v_log c) 0) (e_alloc E (v_log c) 1) path flags of
               None \<Rightarrow> Some (if isMountAncestor c path then openMountDir c path else (Inl ENOENT, c))
             | Some h \<Rightarrow> install_handle E c VFS_TYPE_TARFS (TarHandle h) flags path))"

definition route_open :: "vfs_env \<Rightarrow> vfs_ctx \<Rightarrow> string \<Rightarrow> oflags \<Rightarrow> ((errno + nat) \<times> vfs_ctx) option" where
  "route_open E c path flags =
     (case routeMatch c path of
        Inl e \<Rightarrow> Some (Inl e, c)
      | Inr (type, drv, sfx) \<Rightarrow>
          (case type of
             VFS_TYPE_DRIVER \<Rightarrow> open_driver E c drv sfx flags path
           | VFS_TYPE_DEV \<Rightarrow>
               (case DevFs_Open E c sfx flags of
                  None \<Rightarrow> None
                | Some (Inl e, c1) \<Rightarrow> Some (Inl e, c1)
                | Some (Inr h, c1) \<Rightarrow> install_handle E c1 VFS_TYPE_DEV (DevHandle h) flags path)
           | VFS_TYPE_NET \<Rightarrow>
               (case NetFs_Open E c sfx flags of
                  None \<Rightarrow> None
                | Some (Inl e, c1) \<Rightarrow> Some (Inl e, c1)
                | Some (Inr h, c1) \<Rightarrow> install_handle E c1 VFS_TYPE_NET (NetHandle h) flags path)
           | VFS_TYPE_PROC \<Rightarrow>
               (case ProcFs_Open E c sfx of
                  (Inl e, c1) \<Rightarrow> Some (Inl e, c1)
                | (Inr h, c1) \<Rightarrow> install_handle E c1 VFS_TYPE_PROC (ProcHandle h) flags path)
           | VFS_TYPE_TARFS \<Rightarrow> open_tarfs E c flags path
           | _ \<Rightarrow> Some (Inl ENOTSUP, c)))"

section \<open>Setting up\<close>

definition fd_zero :: vfs_fd where
  "fd_zero = \<lparr>f_type = VFS_TYPE_NONE, f_ctx = NoHandle, f_flags = 0, f_path = [], f_driver = None, f_drv_fd = 0\<rparr>"

definition vfs_zero :: vfs_ctx where
  "vfs_zero = \<lparr>v_fds = replicate VFS_MAX_FDS fd_zero, v_tarfs = None, v_devfs = [], v_netfs = [], v_mounts = [],
     v_procfs = [], v_privileged = False, v_wake_fd = -1, v_log = []\<rparr>"

definition VfsInit :: "bool \<Rightarrow> vfs_ctx option" where
  "VfsInit ok =
     (if \<not> ok then None
      else
        let c1 = snd (vfsMount vfs_zero ''/'' VFS_TYPE_TARFS None);
            c2 = snd (vfsMount c1 ''/dev'' VFS_TYPE_DEV None);
            c3 = snd (vfsMount c2 ''/net'' VFS_TYPE_NET None)
        in Some (snd (vfsMount c3 ''/proc'' VFS_TYPE_PROC None)))"

definition VfsSetPrivileged :: "vfs_ctx \<Rightarrow> bool \<Rightarrow> vfs_ctx" where
  "VfsSetPrivileged c p = c\<lparr>v_privileged := p\<rparr>"

definition VfsSetWakeFd :: "vfs_ctx \<Rightarrow> int \<Rightarrow> vfs_ctx" where
  "VfsSetWakeFd c fd = c\<lparr>v_wake_fd := fd\<rparr>"

definition VfsWakeFd :: "vfs_ctx \<Rightarrow> int" where
  "VfsWakeFd c = v_wake_fd c"

definition VfsStreamDriver :: "vfs_ctx \<Rightarrow> int \<Rightarrow> nat option" where
  "VfsStreamDriver c fd =
     (if fd < 0 \<or> fd \<ge> int VFS_MAX_FDS then None
      else if f_type (slot c fd) \<noteq> VFS_TYPE_STREAM then None
      else f_driver (slot c fd))"

definition VfsAttachTarfs :: "vfs_ctx \<Rightarrow> tarfs option \<Rightarrow> vfs_ctx" where
  "VfsAttachTarfs c t = c\<lparr>v_tarfs := t\<rparr>"

definition VfsRegister :: "vfs_env \<Rightarrow> vfs_ctx \<Rightarrow> string \<Rightarrow> nat \<Rightarrow> (errno + nat) \<times> vfs_ctx" where
  "VfsRegister E c path d =
     (case (if path = ''<stdin>'' then Some (0, VFS_O_RDONLY) else if path = ''<stdout>'' then Some (1, VFS_O_WRONLY)
            else if path = ''<stderr>'' then Some (2, VFS_O_WRONLY) else None) of
        None \<Rightarrow> (Inl EINVAL, snd (opt_drv E c (Some d) OpDestroy CDestroy))
      | Some (i, flags) \<Rightarrow>
          (Inr 0, set_fd c i (\<lambda>f. f\<lparr>f_type := VFS_TYPE_STREAM, f_driver := Some d, f_drv_fd := int i, f_flags := flags\<rparr>)))"

definition VfsBindPlatformFd :: "vfs_ctx \<Rightarrow> string \<Rightarrow> nat \<Rightarrow> int \<Rightarrow> bool \<Rightarrow> (errno + nat) \<times> vfs_ctx" where
  "VfsBindPlatformFd c path d host_fd readonly =
     (case findFirstClosedFd c of
        Inl e \<Rightarrow> (Inl e, c)
      | Inr i \<Rightarrow>
          (Inr i, (set_fd c i (\<lambda>f. f\<lparr>f_type := VFS_TYPE_PLATFORM, f_driver := Some d, f_drv_fd := host_fd,
             f_flags := (if readonly then VFS_O_RDONLY else VFS_O_RDWR) OR VFS_O_DIRECTORY,
             f_path := take (VFS_FD_PATH_LEN - 1) path\<rparr>))\<lparr>v_log := v_log c @ [(CBind d host_fd, (reply_err EPERM)\<lparr>r_ret := Inr 0\<rparr>)]\<rparr>))"

section \<open>Opening and closing\<close>

definition VfsOpen :: "vfs_env \<Rightarrow> vfs_ctx \<Rightarrow> string \<Rightarrow> oflags \<Rightarrow> ((errno + nat) \<times> vfs_ctx) option" where
  "VfsOpen E c path flags =
     (if path = [] then Some (Inl EINVAL, c)
      else case vfsResolvePath E c (-1) path of Inl e \<Rightarrow> Some (Inl e, c) | Inr p \<Rightarrow> route_open E c p flags)"

definition platform_parent :: "vfs_ctx \<Rightarrow> int \<Rightarrow> string \<Rightarrow> bool" where
  "platform_parent c fd path \<longleftrightarrow> f_type (slot c fd) = VFS_TYPE_PLATFORM \<and> \<not> (path \<noteq> [] \<and> hd path = CHR ''/'')"

text \<open>The open below a host directory, which the driver resolves itself.\<close>

definition open_platform :: "vfs_env \<Rightarrow> vfs_ctx \<Rightarrow> int \<Rightarrow> string \<Rightarrow> oflags \<Rightarrow> (errno + nat) \<times> vfs_ctx" where
  "open_platform E c fd path flags =
     (case f_driver (slot c fd) of
        None \<Rightarrow> (Inl ENOTSUP, c)
      | Some d \<Rightarrow>
          if \<not> dr_has (e_drv E d) OpOpenAt then (Inl ENOTSUP, c)
          else
            (case drv_call E c (COpenAt d (f_drv_fd (slot c fd)) path flags) of
               (r, c1) \<Rightarrow>
                 (case r_ret r of
                    Inl e \<Rightarrow> (Inl e, c1)
                  | Inr n \<Rightarrow>
                      (case findFirstClosedFd c1 of
                         Inl e \<Rightarrow> (Inl e, snd (opt_drv E c1 (Some d) OpClose (\<lambda>i. CClose i (int n))))
                       | Inr i \<Rightarrow>
                           let parent = f_path (slot c fd) in
                           (Inr i, set_fd c1 i (\<lambda>f. f\<lparr>f_type := VFS_TYPE_PLATFORM, f_driver := Some d, f_drv_fd := int n,
                              f_flags := flags,
                              f_path := (if length parent + 1 + length path < VFS_FD_PATH_LEN then parent @ ''/'' @ path else [])\<rparr>))))))"

definition VfsOpenAt :: "vfs_env \<Rightarrow> vfs_ctx \<Rightarrow> int \<Rightarrow> string \<Rightarrow> oflags \<Rightarrow> ((errno + nat) \<times> vfs_ctx) option" where
  "VfsOpenAt E c fd path flags =
     (if path = [] then Some (Inl EINVAL, c)
      else if fd \<ge> 0 \<and> fd < int VFS_MAX_FDS \<and> platform_parent c fd path then Some (open_platform E c fd path flags)
      else case vfsResolvePath E c fd path of Inl e \<Rightarrow> Some (Inl e, c) | Inr p \<Rightarrow> route_open E c p flags)"

text \<open>Another host slot shares the driver of this one.\<close>

definition platform_shared :: "vfs_ctx \<Rightarrow> nat \<Rightarrow> bool" where
  "platform_shared c k \<longleftrightarrow>
     list_ex (\<lambda>i. i \<noteq> k \<and> f_type (v_fds c ! i) = VFS_TYPE_PLATFORM \<and> f_driver (v_fds c ! i) = f_driver (v_fds c ! k)) [0..<VFS_MAX_FDS]"

text \<open>The release of a slot that a driver serves.\<close>

definition clear_driver :: "vfs_fd \<Rightarrow> vfs_fd" where
  "clear_driver f = f\<lparr>f_type := VFS_TYPE_NONE, f_driver := None, f_drv_fd := -1\<rparr>"

definition clear_handle :: "vfs_fd \<Rightarrow> vfs_fd" where
  "clear_handle f = f\<lparr>f_type := VFS_TYPE_NONE, f_ctx := NoHandle\<rparr>"

definition VfsClose :: "vfs_env \<Rightarrow> vfs_ctx \<Rightarrow> int \<Rightarrow> ((errno + nat) \<times> vfs_ctx) option" where
  "VfsClose E c fd =
     (if \<not> checkFd c fd then Some (Inl EBADF, c)
      else
        let f = slot c fd; k = nat fd in
        (case f_type f of
           VFS_TYPE_MOUNTDIR \<Rightarrow> Some (Inr 0, set_fd c k (\<lambda>f. f\<lparr>f_type := VFS_TYPE_NONE\<rparr>))
         | VFS_TYPE_DRIVER \<Rightarrow>
             (case opt_drv E c (f_driver f) OpClose (\<lambda>i. CClose i (f_drv_fd f)) of
                (r, c1) \<Rightarrow> Some (r, set_fd c1 k clear_driver))
         | VFS_TYPE_STREAM \<Rightarrow> Some (opt_drv E c (f_driver f) OpClose (\<lambda>i. CStdClose i (f_drv_fd f)))
         | VFS_TYPE_PLATFORM \<Rightarrow>
             if \<not> platform_shared c k then Some (Inr 0, c)
             else
               (case opt_drv E c (f_driver f) OpClose (\<lambda>i. CClose i (f_drv_fd f)) of
                  (r, c1) \<Rightarrow> Some (r, set_fd c1 k clear_driver))
         | VFS_TYPE_NONE \<Rightarrow> Some (Inl EBADF, c)
         | _ \<Rightarrow> (case close_handle E c (f_ctx f) of
                   None \<Rightarrow> None | Some (r, c1) \<Rightarrow> Some (r, set_fd c1 k clear_handle))))"

section \<open>Destroying\<close>

text \<open>\<open>destroyTypedFds\<close>, slot by slot; consoles, host directories and synthetic ones are left.\<close>

fun destroy_typed :: "vfs_env \<Rightarrow> vfs_ctx \<Rightarrow> nat list \<Rightarrow> vfs_ctx option" where
  "destroy_typed E c [] = Some c"
| "destroy_typed E c (i # is) =
     (let f = v_fds c ! i in
      case f_type f of
        VFS_TYPE_DRIVER \<Rightarrow>
          destroy_typed E (set_fd (snd (opt_drv E c (f_driver f) OpClose (\<lambda>d. CClose d (f_drv_fd f)))) i clear_driver) is
      | VFS_TYPE_NONE \<Rightarrow> destroy_typed E c is
      | VFS_TYPE_STREAM \<Rightarrow> destroy_typed E c is
      | VFS_TYPE_PLATFORM \<Rightarrow> destroy_typed E c is
      | VFS_TYPE_MOUNTDIR \<Rightarrow> destroy_typed E c is
      | _ \<Rightarrow> (case close_handle E c (f_ctx f) of None \<Rightarrow> None | Some (_, c1) \<Rightarrow> destroy_typed E (set_fd c1 i clear_handle) is))"

text \<open>The two passes of \<open>destroyPlatformFds\<close>.\<close>

fun close_platform :: "vfs_env \<Rightarrow> vfs_ctx \<Rightarrow> nat list \<Rightarrow> vfs_ctx" where
  "close_platform E c [] = c"
| "close_platform E c (i # is) =
     (let f = v_fds c ! i in
      if f_type f \<noteq> VFS_TYPE_PLATFORM then close_platform E c is
      else close_platform E (snd (opt_drv E c (f_driver f) OpClose (\<lambda>d. CClose d (f_drv_fd f)))) is)"

definition clear_sharing :: "vfs_ctx \<Rightarrow> nat \<Rightarrow> nat \<Rightarrow> vfs_ctx" where
  "clear_sharing c i d =
     c\<lparr>v_fds := map (\<lambda>j. let f = v_fds c ! j in
        if i \<le> j \<and> f_type f = VFS_TYPE_PLATFORM \<and> f_driver f = Some d then clear_driver f else f) [0..<length (v_fds c)]\<rparr>"

fun destroy_platform :: "vfs_env \<Rightarrow> vfs_ctx \<Rightarrow> nat list \<Rightarrow> vfs_ctx" where
  "destroy_platform E c [] = c"
| "destroy_platform E c (i # is) =
     (let f = v_fds c ! i in
      if f_type f \<noteq> VFS_TYPE_PLATFORM then destroy_platform E c is
      else
        (case f_driver f of
           Some d \<Rightarrow> destroy_platform E (snd (opt_drv E (clear_sharing c i d) (Some d) OpDestroy CDestroy)) is
         | None \<Rightarrow> destroy_platform E (set_fd c i (\<lambda>f. f\<lparr>f_type := VFS_TYPE_NONE\<rparr>)) is))"

definition destroyPlatformFds :: "vfs_env \<Rightarrow> vfs_ctx \<Rightarrow> vfs_ctx" where
  "destroyPlatformFds E c = destroy_platform E (close_platform E c [0..<VFS_MAX_FDS]) [0..<VFS_MAX_FDS]"

definition destroyTypedFds :: "vfs_env \<Rightarrow> vfs_ctx \<Rightarrow> vfs_ctx option" where
  "destroyTypedFds E c = map_option (destroyPlatformFds E) (destroy_typed E c [0..<VFS_MAX_FDS])"

fun destroy_mounts :: "vfs_env \<Rightarrow> vfs_ctx \<Rightarrow> vfs_mount list \<Rightarrow> vfs_ctx" where
  "destroy_mounts E c [] = c"
| "destroy_mounts E c (m # ms) =
     (if mt_type m \<noteq> VFS_TYPE_DRIVER then destroy_mounts E c ms
      else destroy_mounts E (snd (opt_drv E c (mt_drv m) OpDestroy CDestroy)) ms)"

definition destroyMountDrivers :: "vfs_env \<Rightarrow> vfs_ctx \<Rightarrow> vfs_ctx" where
  "destroyMountDrivers E c =
     (destroy_mounts E c (v_mounts c))\<lparr>v_mounts :=
        map (\<lambda>m. if mt_type m = VFS_TYPE_DRIVER then m\<lparr>mt_drv := None\<rparr> else m) (v_mounts c)\<rparr>"

definition destroyStreamFd :: "vfs_env \<Rightarrow> vfs_ctx \<Rightarrow> nat \<Rightarrow> vfs_ctx" where
  "destroyStreamFd E c i =
     (let f = v_fds c ! i in
      if f_type f \<noteq> VFS_TYPE_STREAM then c
      else
        let c1 = snd (opt_drv E c (f_driver f) OpClose (\<lambda>d. CStdClose d (f_drv_fd f)));
            c2 = snd (opt_drv E c1 (f_driver f) OpDestroy CDestroy)
        in set_fd c2 i (\<lambda>f. f\<lparr>f_type := VFS_TYPE_NONE, f_driver := None\<rparr>))"

text \<open>\<open>VfsDestroy\<close>: the state is freed at the end, so what counts is its log.\<close>

definition VfsDestroy :: "vfs_env \<Rightarrow> vfs_ctx \<Rightarrow> vfs_ctx option" where
  "VfsDestroy E c =
     (case destroyTypedFds E c of
        None \<Rightarrow> None
      | Some c1 \<Rightarrow>
          let c2 = ProcFs_Destroy (NetFs_Destroy E (DevFs_Destroy E (destroyMountDrivers E c1)));
              c3 = destroyStreamFd E (destroyStreamFd E (destroyStreamFd E c2 2) 1) 0
          in Some (c3\<lparr>v_wake_fd := -1, v_tarfs := None\<rparr>))"

section \<open>Calls on a descriptor\<close>

definition stat_reply :: "(reply \<times> vfs_ctx) option \<Rightarrow> ((errno + vfs_stat) \<times> vfs_ctx) option" where
  "stat_reply x = map_option (\<lambda>(r, c). (case r_ret r of Inl e \<Rightarrow> Inl e | Inr _ \<Rightarrow> Inr (r_stat r), c)) x"

definition VfsStat :: "vfs_env \<Rightarrow> vfs_ctx \<Rightarrow> int \<Rightarrow> ((errno + vfs_stat) \<times> vfs_ctx) option" where
  "VfsStat E c fd =
     (if \<not> checkFd c fd then Some (Inl EBADF, c)
      else
        let f = slot c fd in
        (case (f_type f, f_ctx f) of
           (VFS_TYPE_DEV, DevHandle h) \<Rightarrow> DevFs_Stat E c h
         | (VFS_TYPE_NET, NetHandle h) \<Rightarrow> NetFs_Stat E c h
         | (VFS_TYPE_PROC, ProcHandle h) \<Rightarrow> Some (Inr (ProcFs_Stat h), c)
         | (VFS_TYPE_TARFS, TarHandle h) \<Rightarrow>
             (case TarFs_Stat h of (ty, sz) \<Rightarrow> Some (Inr (stat_zero\<lparr>st_filetype := ty, st_size := sz, st_nlink := 1\<rparr>), c))
         | (VFS_TYPE_STREAM, _) \<Rightarrow> stat_reply (TRY_DRV E c (f_driver f) OpStat (\<lambda>i. CStat i (f_drv_fd f)))
         | (VFS_TYPE_PLATFORM, _) \<Rightarrow> stat_reply (TRY_DRV E c (f_driver f) OpStat (\<lambda>i. CStat i (f_drv_fd f)))
         | (VFS_TYPE_DRIVER, _) \<Rightarrow> stat_reply (TRY_DRV E c (f_driver f) OpStat (\<lambda>i. CStat i (f_drv_fd f)))
         | (VFS_TYPE_MOUNTDIR, _) \<Rightarrow> Some (Inr (stat_zero\<lparr>st_filetype := VFS_FILETYPE_DIRECTORY, st_nlink := 1\<rparr>), c)
         | _ \<Rightarrow> Some (Inl EBADF, c)))"

definition VfsStatAt :: "vfs_env \<Rightarrow> vfs_ctx \<Rightarrow> int \<Rightarrow> string \<Rightarrow> ((errno + vfs_stat) \<times> vfs_ctx) option" where
  "VfsStatAt E c fd path =
     (if \<not> checkFd c fd then Some (Inl EBADF, c)
      else
        (case (if platform_parent c fd path then None
               else case vfsResolvePath E c fd path of
                      Inl e \<Rightarrow> None
                    | Inr p \<Rightarrow> (case routeMatch c p of
                                 Inr (VFS_TYPE_NET, drv, sfx) \<Rightarrow> Some sfx
                               | _ \<Rightarrow> None)) of
           Some sfx \<Rightarrow> Some (NetFs_StatPath E c sfx, c)
         | None \<Rightarrow>
             (case VfsOpenAt E c fd path 0 of
                None \<Rightarrow> None
              | Some (Inl e, c1) \<Rightarrow> Some (Inl e, c1)
              | Some (Inr n, c1) \<Rightarrow>
                  (case VfsStat E c1 (int n) of
                     None \<Rightarrow> None
                   | Some (r, c2) \<Rightarrow> (case VfsClose E c2 (int n) of None \<Rightarrow> None | Some (_, c3) \<Rightarrow> Some (r, c3))))))"

definition VfsStatSet :: "vfs_env \<Rightarrow> vfs_ctx \<Rightarrow> int \<Rightarrow> vfs_stat \<Rightarrow> (reply \<times> vfs_ctx) option" where
  "VfsStatSet E c fd st =
     (if \<not> checkFd c fd then Some (reply_err EBADF, c)
      else
        let f = slot c fd in
        (case (f_type f, f_ctx f) of
           (VFS_TYPE_DEV, DevHandle h) \<Rightarrow> DevFs_StatSet E c h st
         | (VFS_TYPE_TARFS, _) \<Rightarrow> Some (reply_err EROFS, c)
         | (VFS_TYPE_STREAM, _) \<Rightarrow> TRY_DRV E c (f_driver f) OpStatSet (\<lambda>i. CStatSet i (f_drv_fd f) st)
         | (VFS_TYPE_DRIVER, _) \<Rightarrow> TRY_DRV E c (f_driver f) OpStatSet (\<lambda>i. CStatSet i (f_drv_fd f) st)
         | _ \<Rightarrow> Some (reply_err ENOTSUP, c)))"

definition bytes_reply :: "(reply \<times> vfs_ctx) option \<Rightarrow> ((errno + byte list) \<times> vfs_ctx) option" where
  "bytes_reply x = map_option (\<lambda>(r, c). (case r_ret r of Inl e \<Rightarrow> Inl e | Inr _ \<Rightarrow> Inr (r_bytes r), c)) x"

definition VfsRead :: "vfs_env \<Rightarrow> vfs_ctx \<Rightarrow> int \<Rightarrow> nat \<Rightarrow> ((errno + byte list) \<times> vfs_ctx) option" where
  "VfsRead E c fd n =
     (if \<not> checkFd c fd then Some (Inl EBADF, c)
      else
        let f = slot c fd in
        (case (f_type f, f_ctx f) of
           (VFS_TYPE_DEV, DevHandle h) \<Rightarrow> bytes_reply (DevFs_Read E c h n)
         | (VFS_TYPE_NET, NetHandle h) \<Rightarrow> bytes_reply (NetFs_Read E c h n)
         | (VFS_TYPE_PROC, ProcHandle h) \<Rightarrow>
             (case ProcFs_Read E c h n of
                None \<Rightarrow> None
              | Some (r, h1, c1) \<Rightarrow> Some (r, set_fd c1 (nat fd) (\<lambda>f. f\<lparr>f_ctx := ProcHandle h1\<rparr>)))
         | (VFS_TYPE_TARFS, TarHandle h) \<Rightarrow>
             (case v_tarfs c of
                None \<Rightarrow> Some (Inl EINVAL, c)
              | Some t \<Rightarrow>
                  (case TarFs_Read t h n of
                     None \<Rightarrow> None
                   | Some (Inl e) \<Rightarrow> Some (Inl e, c)
                   | Some (Inr (bs, h1)) \<Rightarrow> Some (Inr bs, set_fd c (nat fd) (\<lambda>f. f\<lparr>f_ctx := TarHandle h1\<rparr>))))
         | (VFS_TYPE_STREAM, _) \<Rightarrow> bytes_reply (TRY_DRV E c (f_driver f) OpRead (\<lambda>i. CRead i (f_drv_fd f) n))
         | (VFS_TYPE_PLATFORM, _) \<Rightarrow> bytes_reply (TRY_DRV E c (f_driver f) OpRead (\<lambda>i. CRead i (f_drv_fd f) n))
         | (VFS_TYPE_DRIVER, _) \<Rightarrow> bytes_reply (TRY_DRV E c (f_driver f) OpRead (\<lambda>i. CRead i (f_drv_fd f) n))
         | _ \<Rightarrow> Some (Inl EBADF, c)))"

definition ret_reply :: "(reply \<times> vfs_ctx) option \<Rightarrow> ((errno + nat) \<times> vfs_ctx) option" where
  "ret_reply x = map_option (\<lambda>(r, c). (r_ret r, c)) x"

definition VfsWrite :: "vfs_env \<Rightarrow> vfs_ctx \<Rightarrow> int \<Rightarrow> byte list \<Rightarrow> ((errno + nat) \<times> vfs_ctx) option" where
  "VfsWrite E c fd bs =
     (if \<not> checkFd c fd then Some (Inl EBADF, c)
      else
        let f = slot c fd in
        (case (f_type f, f_ctx f) of
           (VFS_TYPE_DEV, DevHandle h) \<Rightarrow> ret_reply (DevFs_Write E c h bs)
         | (VFS_TYPE_NET, NetHandle h) \<Rightarrow> ret_reply (NetFs_Write E c h bs)
         | (VFS_TYPE_TARFS, _) \<Rightarrow> Some (Inl EROFS, c)
         | (VFS_TYPE_STREAM, _) \<Rightarrow> ret_reply (TRY_DRV E c (f_driver f) OpWrite (\<lambda>i. CWrite i (f_drv_fd f) bs))
         | (VFS_TYPE_PLATFORM, _) \<Rightarrow> ret_reply (TRY_DRV E c (f_driver f) OpWrite (\<lambda>i. CWrite i (f_drv_fd f) bs))
         | (VFS_TYPE_DRIVER, _) \<Rightarrow> ret_reply (TRY_DRV E c (f_driver f) OpWrite (\<lambda>i. CWrite i (f_drv_fd f) bs))
         | _ \<Rightarrow> Some (Inl EBADF, c)))"

definition pos_reply :: "(reply \<times> vfs_ctx) option \<Rightarrow> ((errno + int) \<times> vfs_ctx) option" where
  "pos_reply x = map_option (\<lambda>(r, c). (case r_ret r of Inl e \<Rightarrow> Inl e | Inr _ \<Rightarrow> Inr (r_pos r), c)) x"

definition VfsSeek :: "vfs_env \<Rightarrow> vfs_ctx \<Rightarrow> int \<Rightarrow> int \<Rightarrow> nat \<Rightarrow> ((errno + int) \<times> vfs_ctx) option" where
  "VfsSeek E c fd off whence =
     (if \<not> checkFd c fd then Some (Inl EBADF, c)
      else
        let f = slot c fd in
        (case (f_type f, f_ctx f) of
           (VFS_TYPE_DEV, DevHandle h) \<Rightarrow> pos_reply (DevFs_Seek E c h off whence)
         | (VFS_TYPE_TARFS, TarHandle h) \<Rightarrow>
             (case TarFs_Seek h off whence of
                None \<Rightarrow> None
              | Some (Inl e) \<Rightarrow> Some (Inl e, c)
              | Some (Inr (p, h1)) \<Rightarrow> Some (Inr p, set_fd c (nat fd) (\<lambda>f. f\<lparr>f_ctx := TarHandle h1\<rparr>)))
         | (VFS_TYPE_STREAM, _) \<Rightarrow> pos_reply (TRY_DRV E c (f_driver f) OpSeek (\<lambda>i. CSeek i (f_drv_fd f) off whence))
         | (VFS_TYPE_PLATFORM, _) \<Rightarrow> pos_reply (TRY_DRV E c (f_driver f) OpSeek (\<lambda>i. CSeek i (f_drv_fd f) off whence))
         | (VFS_TYPE_DRIVER, _) \<Rightarrow> pos_reply (TRY_DRV E c (f_driver f) OpSeek (\<lambda>i. CSeek i (f_drv_fd f) off whence))
         | _ \<Rightarrow> Some (Inl ENOTSUP, c)))"

definition VfsTell :: "vfs_env \<Rightarrow> vfs_ctx \<Rightarrow> int \<Rightarrow> ((errno + int) \<times> vfs_ctx) option" where
  "VfsTell E c fd =
     map_option (\<lambda>(r, c1). (case r of Inl e \<Rightarrow> Inl (if e = EPERM \<or> e = ENOTSUP \<or> e = ENOSYS then ESPIPE else e) | Inr p \<Rightarrow> Inr p, c1))
       (VfsSeek E c fd 0 1)"

text \<open>\<open>positionAt\<close>: the offset that was saved, after the seek.\<close>

definition positionAt :: "vfs_env \<Rightarrow> vfs_ctx \<Rightarrow> int \<Rightarrow> u64 \<Rightarrow> ((errno + int) \<times> vfs_ctx) option" where
  "positionAt E c fd off =
     (if uint off > LONG_MAX then Some (Inl EOVERFLOW, c)
      else
        (case VfsTell E c fd of
           None \<Rightarrow> None
         | Some (Inl e, c1) \<Rightarrow> Some (Inl e, c1)
         | Some (Inr saved, c1) \<Rightarrow>
             (case VfsSeek E c1 fd (uint off) 0 of
                None \<Rightarrow> None
              | Some (Inl e, c2) \<Rightarrow> Some (Inl e, c2)
              | Some (Inr _, c2) \<Rightarrow> Some (Inr saved, c2))))"

definition VfsPread :: "vfs_env \<Rightarrow> vfs_ctx \<Rightarrow> int \<Rightarrow> nat \<Rightarrow> u64 \<Rightarrow> ((errno + byte list) \<times> vfs_ctx) option" where
  "VfsPread E c fd n off =
     (case positionAt E c fd off of
        None \<Rightarrow> None
      | Some (Inl e, c1) \<Rightarrow> Some (Inl e, c1)
      | Some (Inr saved, c1) \<Rightarrow>
          (case VfsRead E c1 fd n of
             None \<Rightarrow> None
           | Some (r, c2) \<Rightarrow> (case VfsSeek E c2 fd saved 0 of None \<Rightarrow> None | Some (_, c3) \<Rightarrow> Some (r, c3))))"

definition VFS_O_APPEND :: oflags where "VFS_O_APPEND = 0x400"
definition VFS_O_DSYNC :: oflags where "VFS_O_DSYNC = 0x1000"
definition VFS_O_SYNC :: oflags where "VFS_O_SYNC = 0x101000"

definition VfsPwrite :: "vfs_env \<Rightarrow> vfs_ctx \<Rightarrow> int \<Rightarrow> byte list \<Rightarrow> u64 \<Rightarrow> ((errno + nat) \<times> vfs_ctx) option" where
  "VfsPwrite E c fd bs off =
     (if checkFd c fd \<and> f_flags (slot c fd) AND VFS_O_APPEND \<noteq> 0 then VfsWrite E c fd bs
      else
        (case positionAt E c fd off of
           None \<Rightarrow> None
         | Some (Inl e, c1) \<Rightarrow> Some (Inl e, c1)
         | Some (Inr saved, c1) \<Rightarrow>
             (case VfsWrite E c1 fd bs of
                None \<Rightarrow> None
              | Some (r, c2) \<Rightarrow> (case VfsSeek E c2 fd saved 0 of None \<Rightarrow> None | Some (_, c3) \<Rightarrow> Some (r, c3)))))"

definition fdDriver :: "vfs_ctx \<Rightarrow> int \<Rightarrow> nat option \<times> int" where
  "fdDriver c fd =
     (let f = slot c fd in
      case (f_type f, f_ctx f) of
        (VFS_TYPE_DEV, DevHandle h) \<Rightarrow> DevFs_HandleDriver h
      | (VFS_TYPE_NET, NetHandle h) \<Rightarrow> NetFs_HandleDriver h
      | (VFS_TYPE_STREAM, _) \<Rightarrow> (f_driver f, f_drv_fd f)
      | (VFS_TYPE_PLATFORM, _) \<Rightarrow> (f_driver f, f_drv_fd f)
      | (VFS_TYPE_DRIVER, _) \<Rightarrow> (f_driver f, f_drv_fd f)
      | _ \<Rightarrow> (None, -1))"

definition VfsSync :: "vfs_env \<Rightarrow> vfs_ctx \<Rightarrow> int \<Rightarrow> (errno + nat) \<times> vfs_ctx" where
  "VfsSync E c fd =
     (if \<not> checkFd c fd then (Inl EBADF, c)
      else case fdDriver c fd of (d, n) \<Rightarrow> opt_drv E c d OpSync (\<lambda>i. CSync i n))"

definition VfsTruncate :: "vfs_env \<Rightarrow> vfs_ctx \<Rightarrow> int \<Rightarrow> u64 \<Rightarrow> (errno + nat) \<times> vfs_ctx" where
  "VfsTruncate E c fd sz =
     (if \<not> checkFd c fd then (Inl EBADF, c)
      else if f_type (slot c fd) = VFS_TYPE_TARFS then (Inl EROFS, c)
      else
        (case fdDriver c fd of
           (None, n) \<Rightarrow> (Inl EINVAL, c)
         | (Some d, n) \<Rightarrow>
             if \<not> dr_has (e_drv E d) OpTruncate then (Inl EINVAL, c)
             else opt_drv E c (Some d) OpTruncate (\<lambda>i. CTruncate i n sz)))"

definition VfsFlags :: "vfs_ctx \<Rightarrow> int \<Rightarrow> errno + oflags" where
  "VfsFlags c fd = (if \<not> checkFd c fd then Inl EBADF else Inr (f_flags (slot c fd)))"

definition RUNTIME_FLAGS :: oflags where "RUNTIME_FLAGS = VFS_O_NONBLOCK OR VFS_O_APPEND"
definition SYNC_FLAGS :: oflags where "SYNC_FLAGS = VFS_O_SYNC OR VFS_O_DSYNC"

definition VfsSetFlags :: "vfs_env \<Rightarrow> vfs_ctx \<Rightarrow> int \<Rightarrow> oflags \<Rightarrow> (errno + nat) \<times> vfs_ctx" where
  "VfsSetFlags E c fd flags =
     (if \<not> checkFd c fd then (Inl EBADF, c)
      else
        let cur = f_flags (slot c fd) in
        if flags AND SYNC_FLAGS \<noteq> cur AND SYNC_FLAGS then (Inl ENOTSUP, c)
        else
          let nx = (cur AND NOT RUNTIME_FLAGS) OR (flags AND RUNTIME_FLAGS) in
          if nx = cur then (Inr 0, c)
          else
            (case fdDriver c fd of
               (d, n) \<Rightarrow>
                 (case opt_drv E c d OpSetFlags (\<lambda>i. CSetFlags i n nx) of
                    (Inl e, c1) \<Rightarrow> (Inl e, c1)
                  | (Inr _, c1) \<Rightarrow> (Inr 0, set_fd c1 (nat fd) (\<lambda>f. f\<lparr>f_flags := nx\<rparr>)))))"

definition isPlatformPreopen :: "vfs_ctx \<Rightarrow> nat \<Rightarrow> bool" where
  "isPlatformPreopen c k \<longleftrightarrow> f_type (v_fds c ! k) = VFS_TYPE_PLATFORM \<and> \<not> platform_shared c k"

definition VfsRenumber :: "vfs_env \<Rightarrow> vfs_ctx \<Rightarrow> int \<Rightarrow> int \<Rightarrow> ((errno + nat) \<times> vfs_ctx) option" where
  "VfsRenumber E c from_fd to_fd =
     (if \<not> checkFd c from_fd \<or> \<not> checkFd c to_fd then Some (Inl EBADF, c)
      else if from_fd = to_fd then Some (Inr 0, c)
      else if f_type (slot c from_fd) = VFS_TYPE_STREAM \<or> f_type (slot c to_fd) = VFS_TYPE_STREAM \<or>
         isPlatformPreopen c (nat from_fd) \<or> isPlatformPreopen c (nat to_fd) then Some (Inl ENOTSUP, c)
      else
        (case VfsClose E c to_fd of
           None \<Rightarrow> None
         | Some (Inl e, c1) \<Rightarrow> Some (Inl e, c1)
         | Some (Inr _, c1) \<Rightarrow>
             Some (Inr 0, set_fd (set_fd c1 (nat to_fd) (\<lambda>_. slot c1 from_fd)) (nat from_fd) (\<lambda>_. fd_zero))))"

definition pollDriver :: "vfs_env \<Rightarrow> vfs_ctx \<Rightarrow> nat option \<Rightarrow> int \<Rightarrow> (errno + nat) \<times> u32 \<times> vfs_ctx" where
  "pollDriver E c d n =
     (case d of
        None \<Rightarrow> (Inr (unat POLL_ALWAYS), 0, c)
      | Some i \<Rightarrow>
          if \<not> dr_has (e_drv E i) OpPoll then (Inr (unat POLL_ALWAYS), 0, c)
          else (case drv_call E c (CPoll i n) of (r, c1) \<Rightarrow> (r_ret r, r_avail r, c1)))"

definition VfsPoll :: "vfs_env \<Rightarrow> vfs_ctx \<Rightarrow> int \<Rightarrow> ((errno + nat) \<times> u32 \<times> vfs_ctx) option" where
  "VfsPoll E c fd =
     (if \<not> checkFd c fd then Some (Inl EBADF, 0, c)
      else
        let f = slot c fd in
        (case (f_type f, f_ctx f) of
           (VFS_TYPE_DEV, DevHandle h) \<Rightarrow> DevFs_Poll E c h
         | (VFS_TYPE_NET, NetHandle h) \<Rightarrow> NetFs_Poll E c h
         | (VFS_TYPE_STREAM, _) \<Rightarrow> Some (pollDriver E c (f_driver f) (f_drv_fd f))
         | (VFS_TYPE_PLATFORM, _) \<Rightarrow> Some (pollDriver E c (f_driver f) (f_drv_fd f))
         | (VFS_TYPE_DRIVER, _) \<Rightarrow> Some (pollDriver E c (f_driver f) (f_drv_fd f))
         | _ \<Rightarrow> Some (Inr (unat POLL_ALWAYS), 0, c)))"

section \<open>Listing\<close>

definition MOUNT_PHASE_BIT :: u64 where "MOUNT_PHASE_BIT = push_bit 63 1"

text \<open>The name of the component below \<open>base\<close> that a mount goes through, and whether it ends there.\<close>

definition mount_child :: "string \<Rightarrow> vfs_mount \<Rightarrow> (string \<times> bool) option" where
  "mount_child base m =
     (let pfx = mt_prefix m; n = length base in
      if strncmp n pfx base \<noteq> 0 \<or> \<not> (n < length pfx \<and> pfx ! n = CHR ''/'') \<or> length pfx = n + 1 then None
      else (case strchr_split CHR ''/'' (drop (n + 1) pfx) of (name, rest) \<Rightarrow> Some (name, rest = None)))"

function mountChildren :: "vfs_env \<Rightarrow> vfs_mount list \<Rightarrow> string \<Rightarrow> nat \<Rightarrow> nat \<Rightarrow> nat \<Rightarrow> u64 \<Rightarrow> dirent list \<times> nat \<times> nat" where
  "mountChildren E ms base mspace i mused cookieBit =
     (if i < length ms then
        (case mount_child base (ms ! i) of
           None \<Rightarrow> mountChildren E ms base mspace (i + 1) mused cookieBit
         | Some (name, leaf) \<Rightarrow>
             if list_ex (\<lambda>m. case mount_child base m of None \<Rightarrow> False | Some (n2, _) \<Rightarrow> n2 = name) (take i ms)
             then mountChildren E ms base mspace (i + 1) mused cookieBit
             else if mused + dirent_size + length name > mspace then ([], i, mused)
             else
               let ftype = (case mt_drv (ms ! i) of
                     Some d \<Rightarrow> if leaf then dr_filetype (e_drv E d) else VFS_FILETYPE_DIRECTORY
                   | None \<Rightarrow> VFS_FILETYPE_DIRECTORY);
                   dir = \<lparr>d_next = unat (cookieBit OR of_nat (i + 1)), d_ino = 0x10000 + i, d_namlen = length name,
                          d_type = ftype, d_name = name\<rparr>;
                   (ds, i', mused') = mountChildren E ms base mspace (i + 1) (mused + dirent_size + length name) cookieBit
               in (dir # ds, i', mused'))
      else ([], i, mused))"
  by pat_completeness auto
termination by (relation "measure (\<lambda>(_, ms, _, _, i, _). length ms - i)") auto

declare mountChildren.simps [simp del]

text \<open>
  The listing of a directory.  The mount phase of the root adds to the count of used bytes that the
  caller passes in, which is 0, as the one caller has it.
\<close>

definition VfsReadDir :: "vfs_env \<Rightarrow> vfs_ctx \<Rightarrow> int \<Rightarrow> nat \<Rightarrow> u64 \<Rightarrow> (dir_reply \<times> vfs_ctx) option" where
  "VfsReadDir E c fd bufLen cookie =
     (if \<not> checkFd c fd then Some (Inl EBADF, c)
      else
        let f = slot c fd in
        (case (f_type f, f_ctx f) of
           (VFS_TYPE_DEV, DevHandle h) \<Rightarrow> DevFs_ReadDir E c h bufLen cookie
         | (VFS_TYPE_NET, NetHandle h) \<Rightarrow> NetFs_ReadDir E c h bufLen cookie
         | (VFS_TYPE_PROC, ProcHandle h) \<Rightarrow> ProcFs_ReadDir E c h bufLen cookie
         | (VFS_TYPE_PLATFORM, _) \<Rightarrow> drv_readdir E c (f_driver f) (f_drv_fd f) bufLen cookie
         | (VFS_TYPE_DRIVER, _) \<Rightarrow> drv_readdir E c (f_driver f) (f_drv_fd f) bufLen cookie
         | (VFS_TYPE_TARFS, TarHandle h) \<Rightarrow>
             (let tar = (\<lambda>k. case v_tarfs c of
                     None \<Rightarrow> Inl EINVAL
                   | Some t \<Rightarrow> (case TarFs_ReadDir t h bufLen (unat k) of Inl e \<Rightarrow> Inl e | Inr (ds, i, used) \<Rightarrow> Inr (ds, of_nat i, used)));
                  mounts = (\<lambda>ds used k. case mountChildren E (v_mounts c) [] (bufLen - used) (unat (k AND NOT MOUNT_PHASE_BIT)) 0 MOUNT_PHASE_BIT of
                     (ms, i, mused) \<Rightarrow> Inr (ds @ ms, MOUNT_PHASE_BIT OR of_nat i, used + mused)) in
              if f_path f \<noteq> ''/'' then Some (tar cookie, c)
              else if cookie AND MOUNT_PHASE_BIT = 0 then
                (case tar cookie of
                   Inl e \<Rightarrow> Some (Inl e, c)
                 | Inr (ds, k, used) \<Rightarrow>
                     if used = bufLen then Some (Inr (ds, k, used), c) else Some (mounts ds used MOUNT_PHASE_BIT, c))
              else Some (mounts [] 0 cookie, c))
         | (VFS_TYPE_MOUNTDIR, _) \<Rightarrow>
             (case mountChildren E (v_mounts c) (f_path f) bufLen (unat cookie) 0 0 of
                (ds, i, used) \<Rightarrow> Some (Inr (ds, of_nat i, used), c))
         | _ \<Rightarrow> Some (Inl ENOTSUP, c)))"

section \<open>Calls on a path\<close>

text \<open>The routing that unlink, mkdir and rmdir share; \<open>err\<close> is the error of a missing operation.\<close>

definition path_call :: "vfs_env \<Rightarrow> vfs_ctx \<Rightarrow> int \<Rightarrow> string \<Rightarrow> drv_op \<Rightarrow> (nat \<Rightarrow> int \<Rightarrow> string \<Rightarrow> vcall) \<Rightarrow> errno \<Rightarrow>
    (string \<Rightarrow> (reply \<times> vfs_ctx) option) \<Rightarrow> (reply \<times> vfs_ctx) option" where
  "path_call E c fd path op x err dev =
     (if \<not> checkFd c fd then Some (reply_err EBADF, c)
      else if platform_parent c fd path then TRY_DRV E c (f_driver (slot c fd)) op (\<lambda>i. x i (f_drv_fd (slot c fd)) path)
      else
        (case vfsResolvePath E c fd path of
           Inl e \<Rightarrow> Some (reply_err e, c)
         | Inr p \<Rightarrow>
             (case routeMatch c p of
                Inl e \<Rightarrow> Some (reply_err e, c)
              | Inr (type, drv, sfx) \<Rightarrow>
                  (case type of
                     VFS_TYPE_DEV \<Rightarrow> dev sfx
                   | VFS_TYPE_DRIVER \<Rightarrow>
                       (case drv of
                          None \<Rightarrow> None
                        | Some d \<Rightarrow>
                            Some (if dr_has (e_drv E d) op then drv_call E c (x d (-1) sfx) else (reply_err err, c)))
                   | VFS_TYPE_TARFS \<Rightarrow> Some (reply_err EROFS, c)
                   | VFS_TYPE_PROC \<Rightarrow> Some (reply_err EROFS, c)
                   | VFS_TYPE_NET \<Rightarrow> Some (reply_err EINVAL, c)
                   | _ \<Rightarrow> Some (reply_err ENOTSUP, c)))))"

definition VfsUnlink :: "vfs_env \<Rightarrow> vfs_ctx \<Rightarrow> int \<Rightarrow> string \<Rightarrow> (reply \<times> vfs_ctx) option" where
  "VfsUnlink E c fd path = path_call E c fd path OpUnlink CUnlink EPERM (DevFs_UnlinkPath E c)"

definition VfsMkdir :: "vfs_env \<Rightarrow> vfs_ctx \<Rightarrow> int \<Rightarrow> string \<Rightarrow> (reply \<times> vfs_ctx) option" where
  "VfsMkdir E c fd path = path_call E c fd path OpMkdir CMkdir ENOSYS (\<lambda>_. Some (reply_err ENOTSUP, c))"

definition VfsRmdir :: "vfs_env \<Rightarrow> vfs_ctx \<Rightarrow> int \<Rightarrow> string \<Rightarrow> (reply \<times> vfs_ctx) option" where
  "VfsRmdir E c fd path = path_call E c fd path OpRmdir CRmdir ENOSYS (\<lambda>_. Some (reply_err ENOTSUP, c))"

definition VfsRename :: "vfs_env \<Rightarrow> vfs_ctx \<Rightarrow> int \<Rightarrow> string \<Rightarrow> int \<Rightarrow> string \<Rightarrow> (reply \<times> vfs_ctx) option" where
  "VfsRename E c old_fd old_path new_fd new_path =
     (if \<not> checkFd c old_fd \<or> \<not> checkFd c new_fd then Some (reply_err EBADF, c)
      else if platform_parent c old_fd old_path \<and> platform_parent c new_fd new_path then
        let od = f_driver (slot c old_fd); nd = f_driver (slot c new_fd) in
        if od \<noteq> nd then Some (reply_err EXDEV, c)
        else TRY_DRV E c od OpRename (\<lambda>i. CRename i (f_drv_fd (slot c old_fd)) old_path (f_drv_fd (slot c new_fd)) new_path)
      else
        (case vfsResolvePath E c old_fd old_path of
           Inl e \<Rightarrow> Some (reply_err e, c)
         | Inr op \<Rightarrow>
             (case vfsResolvePath E c new_fd new_path of
                Inl e \<Rightarrow> Some (reply_err e, c)
              | Inr np \<Rightarrow>
                  (case routeMatch c op of
                     Inl e \<Rightarrow> Some (reply_err e, c)
                   | Inr (ot, od, osfx) \<Rightarrow>
                       (case routeMatch c np of
                          Inl e \<Rightarrow> Some (reply_err e, c)
                        | Inr (nt, nd, nsfx) \<Rightarrow>
                            if ot \<noteq> nt then Some (reply_err EXDEV, c)
                            else
                              (case ot of
                                 VFS_TYPE_TARFS \<Rightarrow> Some (reply_err EROFS, c)
                               | VFS_TYPE_PROC \<Rightarrow> Some (reply_err EROFS, c)
                               | VFS_TYPE_NET \<Rightarrow> Some (reply_err EINVAL, c)
                               | VFS_TYPE_DRIVER \<Rightarrow>
                                   if od \<noteq> nd then Some (reply_err EXDEV, c)
                                   else
                                     (case od of
                                        None \<Rightarrow> None
                                      | Some d \<Rightarrow>
                                          Some (if \<not> dr_has (e_drv E d) OpRename then (reply_err ENOSYS, c)
                                                else drv_call E c (CRename d (-1) osfx (-1) nsfx)))
                               | _ \<Rightarrow> Some (reply_err ENOTSUP, c)))))))"

section \<open>Sockets\<close>

definition VfsSockAccept :: "vfs_env \<Rightarrow> vfs_ctx \<Rightarrow> int \<Rightarrow> oflags \<Rightarrow> ((errno + nat) \<times> vfs_ctx) option" where
  "VfsSockAccept E c fd flags =
     (if \<not> checkFd c fd then Some (Inl EBADF, c)
      else
        (case (f_type (slot c fd), f_ctx (slot c fd)) of
           (VFS_TYPE_NET, NetHandle h) \<Rightarrow>
             (case NetFs_SockAccept E c h flags of
                None \<Rightarrow> None
              | Some (Inl e, c1) \<Rightarrow> Some (Inl e, c1)
              | Some (Inr nh, c1) \<Rightarrow>
                  (case findFirstClosedFd c1 of
                     Inl e \<Rightarrow> (case NetFs_Close E c1 nh of None \<Rightarrow> None | Some (_, c2) \<Rightarrow> Some (Inl e, c2))
                   | Inr i \<Rightarrow>
                       Some (Inr i, set_fd c1 i (\<lambda>f. f\<lparr>f_type := VFS_TYPE_NET, f_ctx := NetHandle nh, f_flags := flags,
                                      f_path := strncpy_buf VFS_FD_PATH_LEN (f_path (slot c1 fd))\<rparr>))))
         | _ \<Rightarrow> Some (Inl ENOTSOCK, c)))"

definition VfsSockRecv :: "vfs_env \<Rightarrow> vfs_ctx \<Rightarrow> int \<Rightarrow> nat \<Rightarrow> nat \<Rightarrow> (reply \<times> vfs_ctx) option" where
  "VfsSockRecv E c fd n iflags =
     (if \<not> checkFd c fd then Some (reply_err EBADF, c)
      else (case (f_type (slot c fd), f_ctx (slot c fd)) of
              (VFS_TYPE_NET, NetHandle h) \<Rightarrow> NetFs_SockRecv E c h n iflags
            | _ \<Rightarrow> Some (reply_err ENOTSOCK, c)))"

definition VfsSockSend :: "vfs_env \<Rightarrow> vfs_ctx \<Rightarrow> int \<Rightarrow> byte list \<Rightarrow> nat \<Rightarrow> (reply \<times> vfs_ctx) option" where
  "VfsSockSend E c fd bs flags =
     (if \<not> checkFd c fd then Some (reply_err EBADF, c)
      else (case (f_type (slot c fd), f_ctx (slot c fd)) of
              (VFS_TYPE_NET, NetHandle h) \<Rightarrow> NetFs_SockSend E c h bs flags
            | _ \<Rightarrow> Some (reply_err ENOTSOCK, c)))"

definition VfsSockShutdown :: "vfs_env \<Rightarrow> vfs_ctx \<Rightarrow> int \<Rightarrow> nat \<Rightarrow> (reply \<times> vfs_ctx) option" where
  "VfsSockShutdown E c fd flags =
     (if \<not> checkFd c fd then Some (reply_err EBADF, c)
      else (case (f_type (slot c fd), f_ctx (slot c fd)) of
              (VFS_TYPE_NET, NetHandle h) \<Rightarrow> NetFs_SockShutdown E c h flags
            | _ \<Rightarrow> Some (reply_err ENOTSOCK, c)))"

end
