(* ===== verification/VfsInv.thy ===== *)
theory VfsInv
  imports Vfs "HOL-Library.Multiset"
begin

text \<open>
  The invariant of the router: the tables are well-formed, and the driver handles that calls have
  opened are those that were closed and those that the table of descriptors holds.  It is stated with
  the handles in flight, opened and not yet in the table, so that it follows an operation call by call.
\<close>

section \<open>Handles in the log and in the table\<close>

text \<open>The driver handles that a logged call hands out, and the one it takes back.\<close>

fun acquired :: "vcall \<times> reply \<Rightarrow> (nat \<times> int) multiset" where
  "acquired (COpen d p fl, r) = (case r_ret r of Inr n \<Rightarrow> {#(d, int n)#} | Inl e \<Rightarrow> {#})"
| "acquired (COpenAt d fd p fl, r) = (case r_ret r of Inr n \<Rightarrow> {#(d, int n)#} | Inl e \<Rightarrow> {#})"
| "acquired (CSockAccept d fd fl, r) = (case r_ret r of Inr n \<Rightarrow> {#(d, r_fd r)#} | Inl e \<Rightarrow> {#})"
| "acquired (CBind d fd, r) = {#(d, fd)#}"
| "acquired (_, r) = {#}"

fun released :: "vcall \<times> reply \<Rightarrow> (nat \<times> int) multiset" where
  "released (CClose d fd, r) = {#(d, fd)#}"
| "released (_, r) = {#}"

definition opened :: "vlog \<Rightarrow> (nat \<times> int) multiset" where
  "opened xs = sum_list (map acquired xs)"

definition closed :: "vlog \<Rightarrow> (nat \<times> int) multiset" where
  "closed xs = sum_list (map released xs)"

text \<open>The driver handle that a slot of the table holds.\<close>

definition handle_of :: "devfs_handle \<Rightarrow> (nat \<times> int) multiset" where
  "handle_of h = (if h_is_root h then {#} else case h_drv h of None \<Rightarrow> {#} | Some d \<Rightarrow> {#(d, h_drv_fd h)#})"

definition ctx_handle :: "vfs_handle \<Rightarrow> (nat \<times> int) multiset" where
  "ctx_handle x = (case x of DevHandle h \<Rightarrow> handle_of h | NetHandle h \<Rightarrow> handle_of h | _ \<Rightarrow> {#})"

definition drv_handle :: "vfs_fd \<Rightarrow> (nat \<times> int) multiset" where
  "drv_handle f = (case f_driver f of None \<Rightarrow> {#} | Some d \<Rightarrow> {#(d, f_drv_fd f)#})"

definition slot_held :: "vfs_fd \<Rightarrow> (nat \<times> int) multiset" where
  "slot_held f =
     (case f_type f of
        VFS_TYPE_DEV \<Rightarrow> ctx_handle (f_ctx f)
      | VFS_TYPE_NET \<Rightarrow> ctx_handle (f_ctx f)
      | VFS_TYPE_DRIVER \<Rightarrow> drv_handle f
      | VFS_TYPE_PLATFORM \<Rightarrow> drv_handle f
      | _ \<Rightarrow> {#})"

definition table_handles :: "vfs_ctx \<Rightarrow> (nat \<times> int) multiset" where
  "table_handles c = sum_list (map slot_held (v_fds c))"

definition balanced :: "vfs_ctx \<Rightarrow> bool" where
  "balanced c \<longleftrightarrow> opened (v_log c) = closed (v_log c) + table_handles c"

lemma opened_append [simp]: "opened (xs @ ys) = opened xs + opened ys"
  by (simp add: opened_def)

lemma closed_append [simp]: "closed (xs @ ys) = closed xs + closed ys"
  by (simp add: closed_def)

lemma opened_Nil [simp]: "opened [] = {#}" and closed_Nil [simp]: "closed [] = {#}"
  by (simp_all add: opened_def closed_def)

lemma opened_one [simp]: "opened [x] = acquired x" and closed_one [simp]: "closed [x] = released x"
  by (simp_all add: opened_def closed_def)

lemma sum_list_upd:
  fixes g :: "'a \<Rightarrow> 'b multiset"
  assumes "i < length xs"
  shows "sum_list (map g (xs[i := y])) + g (xs ! i) = sum_list (map g xs) + g y"
  using assms
proof (induction xs arbitrary: i)
  case (Cons x xs)
  then show ?case by (cases i) (auto simp: ac_simps)
qed simp

section \<open>Well-formed tables\<close>

definition ns_ok :: "devfs_handle \<Rightarrow> bool" where
  "ns_ok h \<longleftrightarrow> (h_is_root h \<longleftrightarrow> h_drv h = None)"

definition proc_ok :: "proc_entry list \<Rightarrow> procfs_handle \<Rightarrow> bool" where
  "proc_ok ps h \<longleftrightarrow> ph_is_root h \<and> ph_is_dir h \<or>
     \<not> ph_is_root h \<and> ph_entry h < length ps \<and> (ph_is_dir h \<longrightarrow> pr_dir (ps ! ph_entry h) \<noteq> None)"

definition fd_ok :: "proc_entry list \<Rightarrow> vfs_fd \<Rightarrow> bool" where
  "fd_ok ps f \<longleftrightarrow>
     (case f_type f of
        VFS_TYPE_NONE \<Rightarrow> True
      | VFS_TYPE_MOUNTDIR \<Rightarrow> True
      | VFS_TYPE_TARFS \<Rightarrow> (\<exists>h. f_ctx f = TarHandle h)
      | VFS_TYPE_DEV \<Rightarrow> (\<exists>h. f_ctx f = DevHandle h \<and> ns_ok h)
      | VFS_TYPE_NET \<Rightarrow> (\<exists>h. f_ctx f = NetHandle h \<and> ns_ok h)
      | VFS_TYPE_PROC \<Rightarrow> (\<exists>h. f_ctx f = ProcHandle h \<and> proc_ok ps h)
      | _ \<Rightarrow> f_driver f \<noteq> None)"

definition mount_ok :: "vfs_mount \<Rightarrow> bool" where
  "mount_ok m \<longleftrightarrow> mt_type m \<in> {VFS_TYPE_TARFS, VFS_TYPE_DEV, VFS_TYPE_NET, VFS_TYPE_PROC, VFS_TYPE_DRIVER} \<and>
     (mt_type m = VFS_TYPE_DRIVER \<longrightarrow> mt_drv m \<noteq> None) \<and> (mt_prefix m = ''/'' \<longrightarrow> mt_type m = VFS_TYPE_TARFS)"

definition prefixes_ok :: "string list \<Rightarrow> bool" where
  "prefixes_ok ps \<longleftrightarrow> distinct ps \<and> ''/'' \<in> set ps \<and> (\<forall>p \<in> set ps. p \<noteq> [] \<and> hd p = CHR ''/'')"

definition vfs_wf :: "vfs_ctx \<Rightarrow> bool" where
  "vfs_wf c \<longleftrightarrow> length (v_fds c) = VFS_MAX_FDS \<and> (\<forall>i < VFS_MAX_FDS. fd_ok (v_procfs c) (v_fds c ! i)) \<and>
     (\<forall>i < ROOT_FD. f_type (v_fds c ! i) \<in> {VFS_TYPE_NONE, VFS_TYPE_STREAM}) \<and>
     (\<forall>m \<in> set (v_mounts c). mount_ok m) \<and> prefixes_ok (map mt_prefix (v_mounts c)) \<and>
     (\<forall>e \<in> set (v_devfs c) \<union> set (v_netfs c). nd_drv e \<noteq> None) \<and>
     (\<forall>e \<in> set (v_procfs c). pr_read e \<noteq> None \<or> pr_dir e \<noteq> None)"

section \<open>Calls that move no handle\<close>

definition quiet :: "vfs_ctx \<Rightarrow> vfs_ctx \<Rightarrow> bool" where
  "quiet c c' \<longleftrightarrow> (\<exists>xs. c' = c\<lparr>v_log := v_log c @ xs\<rparr> \<and> opened xs = {#} \<and> closed xs = {#})"

lemma quiet_refl [simp]: "quiet c c"
  unfolding quiet_def by (intro exI[of _ "[]"]) simp

lemma quiet_wf: "quiet c c' \<Longrightarrow> vfs_wf c' = vfs_wf c"
  by (auto simp: quiet_def vfs_wf_def)

lemma quiet_balanced: "quiet c c' \<Longrightarrow> balanced c' = balanced c"
  by (auto simp: quiet_def balanced_def table_handles_def)

lemma drv_call_quiet: "acquired (x, e_reply E (v_log c) x) = {#} \<Longrightarrow> released (x, e_reply E (v_log c) x) = {#} \<Longrightarrow>
    quiet c (snd (drv_call E c x))"
  by (auto simp: drv_call_def Let_def quiet_def)

lemma drv_call_op [simp]: "quiet c (snd (drv_call E c (COp op d fd a)))" "quiet c (snd (drv_call E c (CProc op d s n k)))"
  "quiet c (snd (drv_call E c (CDestroy d)))" "quiet c (snd (drv_call E c (CStdClose d fd)))"
  by (rule drv_call_quiet; simp)+

definition closable :: "vfs_env \<Rightarrow> bool" where
  "closable E \<longleftrightarrow> (\<forall>d. dr_has (e_drv E d) OpClose)"

text \<open>The invariant, with handles \<open>H\<close> that are open and not yet in the table.\<close>

definition flight :: "vfs_env \<Rightarrow> (nat \<times> int) multiset \<Rightarrow> vfs_ctx \<Rightarrow> bool" where
  "flight E H c \<longleftrightarrow> vfs_wf c \<and> (closable E \<longrightarrow> opened (v_log c) = closed (v_log c) + table_handles c + H)"

abbreviation vfs_inv :: "vfs_env \<Rightarrow> vfs_ctx \<Rightarrow> bool" where
  "vfs_inv E c \<equiv> flight E {#} c"

lemma flight_quiet: "flight E H c \<Longrightarrow> quiet c c' \<Longrightarrow> flight E H c'"
  using quiet_wf[of c c'] by (auto simp: flight_def quiet_def table_handles_def)

lemma quiet_fds: "quiet c c' \<Longrightarrow> v_fds c' = v_fds c \<and> v_tarfs c' = v_tarfs c \<and> v_mounts c' = v_mounts c \<and>
    v_procfs c' = v_procfs c \<and> v_devfs c' = v_devfs c \<and> v_netfs c' = v_netfs c"
  by (auto simp: quiet_def)

lemma drv_call_simps [simp]:
  "v_fds (snd (drv_call E c x)) = v_fds c" "v_mounts (snd (drv_call E c x)) = v_mounts c" "v_tarfs (snd (drv_call E c x)) = v_tarfs c"
  "v_procfs (snd (drv_call E c x)) = v_procfs c" "v_devfs (snd (drv_call E c x)) = v_devfs c" "v_netfs (snd (drv_call E c x)) = v_netfs c"
  "v_log (snd (drv_call E c x)) = v_log c @ [(x, e_reply E (v_log c) x)]" "fst (drv_call E c x) = e_reply E (v_log c) x"
  by (simp_all add: drv_call_def Let_def)

lemma wf_log [simp]: "vfs_wf (c\<lparr>v_log := l\<rparr>) = vfs_wf c"
  by (simp add: vfs_wf_def)

lemma drv_call_wf [simp]: "vfs_wf (snd (drv_call E c x)) = vfs_wf c"
  by (simp add: drv_call_def Let_def)

lemma drv_call_table [simp]: "table_handles (snd (drv_call E c x)) = table_handles c"
  by (simp add: table_handles_def)

lemma flight_acquire:
  assumes "flight E {#} c" "(r, c1) = drv_call E c x" "released (x, r) = {#}"
  shows "flight E (acquired (x, r)) c1"
  using assms by (auto simp: flight_def drv_call_def Let_def table_handles_def)

lemma flight_release:
  assumes "flight E {#(d, fd)#} c"
  shows "flight E {#} (snd (opt_drv E c (Some d) OpClose (\<lambda>i. CClose i fd)))"
  using assms by (auto simp: flight_def opt_drv_def closable_def split: prod.splits if_splits
      dest!: arg_cong[where f = snd, of "drv_call E c _"] simp: drv_call_def Let_def table_handles_def)

lemma TRY_DRV_Close: "TRY_DRV E c (Some d) OpClose x = Some (r, c') \<Longrightarrow> c' = snd (opt_drv E c (Some d) OpClose x)"
  by (auto simp: TRY_DRV_def opt_drv_def split: if_splits prod.splits)

lemma findFirstClosedFd_Inr:
  "findFirstClosedFd c = Inr i \<Longrightarrow> ROOT_FD \<le> i \<and> i < VFS_MAX_FDS \<and> f_type (v_fds c ! i) = VFS_TYPE_NONE"
  by (auto simp: findFirstClosedFd_def find_Some_iff split: option.splits)

lemma set_fd_simps [simp]:
  "v_log (set_fd c i g) = v_log c" "v_mounts (set_fd c i g) = v_mounts c" "v_tarfs (set_fd c i g) = v_tarfs c"
  "v_procfs (set_fd c i g) = v_procfs c" "v_devfs (set_fd c i g) = v_devfs c" "v_netfs (set_fd c i g) = v_netfs c"
  "length (v_fds (set_fd c i g)) = length (v_fds c)"
  by (simp_all add: set_fd_def)

lemma set_fd_nth: "i < length (v_fds c) \<Longrightarrow> v_fds (set_fd c i g) ! j = (if j = i then g (v_fds c ! i) else v_fds c ! j)"
  by (simp add: set_fd_def)

lemma set_fd_table:
  "i < length (v_fds c) \<Longrightarrow> table_handles (set_fd c i g) + slot_held (v_fds c ! i) = table_handles c + slot_held (g (v_fds c ! i))"
  unfolding table_handles_def set_fd_def by (simp add: sum_list_upd)

lemma set_fd_wf:
  assumes "vfs_wf c" "i < VFS_MAX_FDS" "fd_ok (v_procfs c) (g (v_fds c ! i))"
    "i < ROOT_FD \<longrightarrow> f_type (g (v_fds c ! i)) \<in> {VFS_TYPE_NONE, VFS_TYPE_STREAM}"
  shows "vfs_wf (set_fd c i g)"
proof -
  have l: "i < length (v_fds c)" using assms(1,2) by (simp add: vfs_wf_def)
  show ?thesis using assms unfolding vfs_wf_def by (auto simp: set_fd_nth[OF l])
qed

lemma flight_install:
  assumes "flight E H c" "findFirstClosedFd c = Inr i" "fd_ok (v_procfs c) (g (v_fds c ! i))" "slot_held (g (v_fds c ! i)) = H"
  shows "vfs_inv E (set_fd c i g)"
proof -
  note i = findFirstClosedFd_Inr[OF assms(2)]
  have l: "i < length (v_fds c)" using assms(1) i by (simp add: flight_def vfs_wf_def)
  have "slot_held (v_fds c ! i) = {#}" using i by (simp add: slot_held_def)
  then have t: "table_handles (set_fd c i g) = table_handles c + H" using set_fd_table[OF l, of g] assms(4) by simp
  have "vfs_wf (set_fd c i g)" using assms(1,3) i by (intro set_fd_wf) (auto simp: flight_def)
  then show ?thesis using assms(1) t by (simp add: flight_def add.assoc)
qed

lemma flight_update:
  assumes "flight E H c" "k < VFS_MAX_FDS" "fd_ok (v_procfs c) (g (v_fds c ! k))" "slot_held (g (v_fds c ! k)) = slot_held (v_fds c ! k)"
    "k < ROOT_FD \<longrightarrow> f_type (g (v_fds c ! k)) \<in> {VFS_TYPE_NONE, VFS_TYPE_STREAM}"
  shows "flight E H (set_fd c k g)"
proof -
  have l: "k < length (v_fds c)" using assms(1,2) by (simp add: flight_def vfs_wf_def)
  have "table_handles (set_fd c k g) = table_handles c" using set_fd_table[OF l, of g] assms(4) by simp
  moreover have "vfs_wf (set_fd c k g)" using assms by (intro set_fd_wf) (auto simp: flight_def)
  ultimately show ?thesis using assms(1) by (simp add: flight_def)
qed

text \<open>Closing the handle of a slot and clearing the slot.\<close>

lemma flight_clear:
  assumes "flight E H c" "k < VFS_MAX_FDS" "slot_held (v_fds c ! k) = {#(d, fd)#}" "f_type (g (v_fds c ! k)) = VFS_TYPE_NONE"
  shows "flight E H (set_fd (snd (opt_drv E c (Some d) OpClose (\<lambda>i. CClose i fd))) k g)"
proof -
  let ?c1 = "snd (opt_drv E c (Some d) OpClose (\<lambda>i. CClose i fd))"
  have s: "v_fds ?c1 = v_fds c" "v_procfs ?c1 = v_procfs c" "vfs_wf ?c1 = vfs_wf c" "table_handles ?c1 = table_handles c"
    by (auto simp: opt_drv_def drv_call_def Let_def table_handles_def)
  have l: "k < length (v_fds ?c1)" using assms(1,2) s(1) by (simp add: flight_def vfs_wf_def)
  have "slot_held (g (v_fds c ! k)) = {#}" using assms(4) by (simp add: slot_held_def)
  then have t: "table_handles c = table_handles (set_fd ?c1 k g) + {#(d, fd)#}"
    using set_fd_table[OF l, of g] assms(3) s(1,4) by simp
  have w: "vfs_wf (set_fd ?c1 k g)" using assms(1,2,4) s by (intro set_fd_wf) (auto simp: flight_def fd_ok_def)
  have "opened (v_log ?c1) = opened (v_log c) \<and> closed (v_log ?c1) = closed (v_log c) + {#(d, fd)#}" if "closable E"
    using that by (simp add: opt_drv_def closable_def drv_call_def Let_def)
  then show ?thesis using assms(1) t w by (auto simp: flight_def)
qed

section \<open>Operations keep the invariant\<close>

text \<open>An operation that returns, and keeps the invariant; and one that keeps it if it returns.\<close>

definition keeps :: "vfs_env \<Rightarrow> ('r \<times> vfs_ctx) option \<Rightarrow> bool" where
  "keeps E x \<longleftrightarrow> (\<exists>r c. x = Some (r, c) \<and> vfs_inv E c)"

definition may_keep :: "vfs_env \<Rightarrow> ('r \<times> vfs_ctx) option \<Rightarrow> bool" where
  "may_keep E x \<longleftrightarrow> x = None \<or> keeps E x"

lemma keeps_Some [simp]: "keeps E (Some (r, c)) \<longleftrightarrow> vfs_inv E c"
  by (auto simp: keeps_def)

lemma keepsE:
  assumes "keeps E x"
  obtains r c where "x = Some (r, c)" "vfs_inv E c"
  using assms by (auto simp: keeps_def)

lemma keeps_Some_pair: "vfs_inv E (snd x) \<Longrightarrow> keeps E (Some x)"
  by (cases x) simp

lemma may_keep_Some [simp]: "may_keep E (Some (r, c)) \<longleftrightarrow> vfs_inv E c" and may_keep_None [simp]: "may_keep E None"
  by (simp_all add: may_keep_def)

lemma keeps_may [intro]: "keeps E x \<Longrightarrow> may_keep E x"
  by (simp add: may_keep_def)

lemma flight_proc: "flight E H c \<Longrightarrow> vfs_wf c"
  by (simp add: flight_def)

lemma opt_drv_quiet:
  assumes "\<And>i. acquired (x i, e_reply E (v_log c) (x i)) = {#}" "\<And>i. released (x i, e_reply E (v_log c) (x i)) = {#}"
  shows "quiet c (snd (opt_drv E c d op x))"
proof (cases d)
  case (Some i)
  then show ?thesis using drv_call_quiet[OF assms, of i] by (auto simp: opt_drv_def split: prod.splits)
qed (simp add: opt_drv_def)

lemma TRY_DRV_quiet:
  assumes "TRY_DRV E c d op x = Some (r, c')"
    "\<And>i. acquired (x i, e_reply E (v_log c) (x i)) = {#}" "\<And>i. released (x i, e_reply E (v_log c) (x i)) = {#}"
  shows "quiet c c'"
proof (cases d)
  case (Some i)
  then show ?thesis using drv_call_quiet[OF assms(2,3), of i] assms(1) by (auto simp: TRY_DRV_def split: if_splits prod.splits)
qed (use assms(1) in \<open>simp add: TRY_DRV_def\<close>)

lemma opt_drv_COp [simp]: "quiet c (snd (opt_drv E c d op (\<lambda>i. COp o' i n a)))"
  "quiet c (snd (opt_drv E c d op (\<lambda>i. CStdClose i n)))" "quiet c (snd (opt_drv E c d op CDestroy))"
  by (rule opt_drv_quiet; simp)+

lemma TRY_DRV_op:
  assumes "vfs_inv E c"
  shows "may_keep E (TRY_DRV E c d op (\<lambda>i. COp o' i n a))" "d \<noteq> None \<Longrightarrow> keeps E (TRY_DRV E c d op (\<lambda>i. COp o' i n a))"
proof -
  have q: "keeps E (TRY_DRV E c d op (\<lambda>i. COp o' i n a))" if "TRY_DRV E c d op (\<lambda>i. COp o' i n a) = Some (r, c')" for r c'
    using TRY_DRV_quiet[OF that] flight_quiet[OF assms] that by simp
  then show "may_keep E (TRY_DRV E c d op (\<lambda>i. COp o' i n a))"
    by (cases "TRY_DRV E c d op (\<lambda>i. COp o' i n a)") (auto simp: may_keep_def)
  show "keeps E (TRY_DRV E c d op (\<lambda>i. COp o' i n a))" if "d \<noteq> None"
  proof (cases "TRY_DRV E c d op (\<lambda>i. COp o' i n a)")
    case (Some x)
    then show ?thesis using q[of "fst x" "snd x"] by simp
  qed (use that in \<open>auto simp: TRY_DRV_def\<close>)
qed

lemma may_keep_map: "may_keep E x \<Longrightarrow> may_keep E (map_option (\<lambda>(r, c). (g r, c)) x)"
  and keeps_map: "keeps E x \<Longrightarrow> keeps E (map_option (\<lambda>(r, c). (g r, c)) x)"
  by (auto simp: may_keep_def keeps_def)

text \<open>A driver's open: an error, or a handle in flight.\<close>

lemma open_call:
  assumes "vfs_inv E c"
  obtains e r c1 where "TRY_DRV E c (Some d) OpOpen (\<lambda>i. COpen i p fl) = Some (r, c1)" "r_ret r = Inl e" "vfs_inv E c1"
  | n r c1 where "TRY_DRV E c (Some d) OpOpen (\<lambda>i. COpen i p fl) = Some (r, c1)" "r_ret r = Inr n" "flight E {#(d, int n)#} c1"
    "v_procfs c1 = v_procfs c"
proof (cases "dr_has (e_drv E d) OpOpen")
  case False
  then show ?thesis using that(1) assms by (auto simp: TRY_DRV_def reply_err_def)
next
  case True
  obtain r c1 where rc: "(r, c1) = drv_call E c (COpen d p fl)" by (metis surj_pair)
  then show ?thesis using that flight_acquire[OF assms rc] True by (cases "r_ret r") (auto simp: TRY_DRV_def drv_call_def Let_def)
qed

end
