(* ===== verification/VfsOps.thy ===== *)
theory VfsOps
  imports VfsInv
begin

text \<open>
  Every operation of the router keeps the invariant.  The operations that follow the driver of a node
  of \<open>/dev\<close> or \<open>/net\<close> without looking at it return on every descriptor but the roots of the two.
\<close>

text \<open>What opening a node of a namespace leaves: an error, or a handle that is well-formed and in flight.\<close>

definition node_open :: "vfs_env \<Rightarrow> vfs_ctx \<Rightarrow> ((errno + devfs_handle) \<times> vfs_ctx) option \<Rightarrow> bool" where
  "node_open E c x \<longleftrightarrow> (case x of None \<Rightarrow> False | Some (Inl e, c1) \<Rightarrow> vfs_inv E c1
     | Some (Inr h, c1) \<Rightarrow> ns_ok h \<and> flight E (handle_of h) c1)"

lemma flight_give_back:
  assumes "flight E {#(d, n)#} c"
  shows "\<exists>r c'. TRY_DRV E c (Some d) OpClose (\<lambda>i. CClose i n) = Some (r, c') \<and> vfs_inv E c'"
proof -
  obtain r c' where t: "TRY_DRV E c (Some d) OpClose (\<lambda>i. CClose i n) = Some (r, c')"
    by (cases "dr_has (e_drv E d) OpClose"; cases "drv_call E c (CClose d n)") (auto simp: TRY_DRV_def)
  then show ?thesis using flight_release[OF assms] TRY_DRV_Close[OF t] by auto
qed

lemma open_node:
  assumes "vfs_inv E c"
  shows "node_open E c (case TRY_DRV E c (Some d) OpOpen (\<lambda>i. COpen i p fl) of
      None \<Rightarrow> None
    | Some (r, c1) \<Rightarrow>
        (case r_ret r of
           Inl e \<Rightarrow> Some (Inl e, c1)
         | Inr fd \<Rightarrow>
             if e_alloc E (v_log c1) 0 then Some (Inr \<lparr>h_drv = Some d, h_drv_fd = int fd, h_is_root = False\<rparr>, c1)
             else (case TRY_DRV E c1 (Some d) OpClose (\<lambda>i. CClose i (int fd)) of
                     None \<Rightarrow> None | Some (_, c2) \<Rightarrow> Some (Inl ENOMEM, c2))))"
proof (rule open_call[OF assms, of d p fl])
  fix n r c1
  assume a: "TRY_DRV E c (Some d) OpOpen (\<lambda>i. COpen i p fl) = Some (r, c1)" "r_ret r = Inr n" "flight E {#(d, int n)#} c1"
  then show ?thesis using flight_give_back[OF a(3)] by (auto simp: node_open_def ns_ok_def handle_of_def)
qed (simp add: node_open_def)

lemma root_node: "vfs_inv E c \<Longrightarrow>
    node_open E c (Some (if ok then Inr \<lparr>h_drv = None, h_drv_fd = -1, h_is_root = True\<rparr> else Inl ENOMEM, c))"
  by (simp add: node_open_def ns_ok_def handle_of_def)

lemma DevFs_Open_keeps:
  assumes "vfs_inv E c"
  shows "node_open E c (DevFs_Open E c sfx fl)"
proof (cases "sfx = []")
  case True
  then show ?thesis using root_node[OF assms] by (simp add: DevFs_Open_def)
next
  case False
  obtain drv sub where r: "devfsResolve c sfx = (drv, sub)" by (metis surj_pair)
  show ?thesis
  proof (cases drv)
    case None
    then show ?thesis using False r assms by (simp add: DevFs_Open_def node_open_def)
  next
    case (Some d)
    then show ?thesis using False r unfolding DevFs_Open_def by (simp only: if_False prod.case option.case Let_def) (rule open_node[OF assms])
  qed
qed

lemma NetFs_Open_keeps:
  assumes "vfs_inv E c"
  shows "node_open E c (NetFs_Open E c sfx fl)"
proof (cases "sfx = []")
  case True
  then show ?thesis using root_node[OF assms] by (simp add: NetFs_Open_def)
next
  case False
  show ?thesis
  proof (cases "lookupDrv (v_netfs c) sfx")
    case None
    then show ?thesis using False assms by (simp add: NetFs_Open_def node_open_def)
  next
    case (Some d)
    then show ?thesis using False unfolding NetFs_Open_def by (simp only: if_False option.case) (rule open_node[OF assms])
  qed
qed

lemma accept_keeps:
  assumes "vfs_inv E c" "h_drv h = Some d"
  shows "node_open E c (NetFs_SockAccept E c h fl)"
proof (cases "dr_has (e_drv E d) OpSockAccept")
  case False
  then show ?thesis using assms by (simp add: NetFs_SockAccept_def TRY_DRV_def reply_err_def node_open_def)
next
  case True
  obtain r c1 where rc: "(r, c1) = drv_call E c (CSockAccept d (h_drv_fd h) fl)" by (metis surj_pair)
  from flight_acquire[OF assms(1) rc] have f: "flight E (case r_ret r of Inr n \<Rightarrow> {#(d, r_fd r)#} | Inl e \<Rightarrow> {#}) c1" by simp
  have t: "TRY_DRV E c (h_drv h) OpSockAccept (\<lambda>i. CSockAccept i (h_drv_fd h) fl) = Some (r, c1)"
    using True assms(2) rc by (simp add: TRY_DRV_def)
  show ?thesis
  proof (cases "r_ret r")
    case (Inl e)
    then show ?thesis using f t by (simp add: NetFs_SockAccept_def node_open_def)
  next
    case (Inr n)
    then have f1: "flight E {#(d, r_fd r)#} c1" using f by simp
    show ?thesis using flight_give_back[OF f1] f1 t Inr assms(2)
      by (auto simp: NetFs_SockAccept_def node_open_def ns_ok_def handle_of_def)
  qed
qed

lemma node_close_keeps:
  assumes "flight E (handle_of h) c" "ns_ok h"
  shows "keeps E (DevFs_Close E c h)"
proof (cases "h_is_root h")
  case True
  then show ?thesis using assms(1) by (simp add: DevFs_Close_def handle_of_def)
next
  case False
  then obtain d where d: "h_drv h = Some d" using assms(2) by (auto simp: ns_ok_def)
  then have "flight E {#(d, h_drv_fd h)#} c" using assms(1) False by (simp add: handle_of_def)
  from flight_give_back[OF this] show ?thesis using False d by (auto simp: DevFs_Close_def)
qed

lemma NetFs_Close_DevFs: "NetFs_Close E c h = DevFs_Close E c h"
  by (simp add: NetFs_Close_def DevFs_Close_def)

lemma close_handle_keeps:
  assumes "flight E (ctx_handle x) c" "\<And>h. x = DevHandle h \<or> x = NetHandle h \<Longrightarrow> ns_ok h"
  shows "keeps E (close_handle E c x)"
  using assms by (cases x) (auto simp: close_handle_def ctx_handle_def NetFs_Close_DevFs intro: node_close_keeps)

lemma install_keeps:
  assumes "flight E (ctx_handle x) c"
    "\<And>f. fd_ok (v_procfs c) (f\<lparr>f_type := ty, f_ctx := x, f_flags := fl, f_path := p\<rparr>)"
    "\<And>f. slot_held (f\<lparr>f_type := ty, f_ctx := x, f_flags := fl, f_path := p\<rparr>) = ctx_handle x"
    "\<And>h. x = DevHandle h \<or> x = NetHandle h \<Longrightarrow> ns_ok h" "p = strncpy_buf VFS_FD_PATH_LEN path"
  shows "keeps E (install_handle E c ty x fl path)"
proof (cases "findFirstClosedFd c")
  case (Inl e)
  then show ?thesis using close_handle_keeps[OF assms(1,4)] by (auto simp: install_handle_def keeps_def)
next
  case (Inr i)
  then show ?thesis using flight_install[OF assms(1) Inr, of "\<lambda>f. f\<lparr>f_type := ty, f_ctx := x, f_flags := fl, f_path := p\<rparr>"] assms(2,3,5)
    by (simp add: install_handle_def)
qed

lemma open_driver_keeps:
  assumes "vfs_inv E c" "drv \<noteq> None"
  shows "keeps E (open_driver E c drv sfx fl path)"
proof -
  obtain d where d: "drv = Some d" using assms(2) by auto
  let ?p = "if sfx = [] then (if dr_filetype (e_drv E d) = VFS_FILETYPE_DIRECTORY then ''/'' else []) else sfx"
  show ?thesis
  proof (rule open_call[OF assms(1), of d ?p fl])
    fix e r c1
    assume "TRY_DRV E c (Some d) OpOpen (\<lambda>i. COpen i ?p fl) = Some (r, c1)" "r_ret r = Inl e" "vfs_inv E c1"
    then show ?thesis by (simp add: open_driver_def d Let_def)
  next
    fix n r c1
    assume a: "TRY_DRV E c (Some d) OpOpen (\<lambda>i. COpen i ?p fl) = Some (r, c1)" "r_ret r = Inr n" "flight E {#(d, int n)#} c1"
    show ?thesis
    proof (cases "findFirstClosedFd c1")
      case (Inl e)
      then show ?thesis using a flight_give_back[OF a(3)] by (auto simp: open_driver_def d Let_def keeps_def)
    next
      case (Inr i)
      then show ?thesis using a flight_install[OF a(3) Inr, of "\<lambda>f. f\<lparr>f_type := VFS_TYPE_DRIVER, f_driver := Some d, f_drv_fd := int n,
            f_flags := fl, f_path := strncpy_buf VFS_FD_PATH_LEN path\<rparr>"]
        by (simp add: open_driver_def d Let_def fd_ok_def slot_held_def drv_handle_def)
    qed
  qed
qed

lemma openMountDir_keeps:
  assumes "vfs_inv E c"
  shows "vfs_inv E (snd (openMountDir c path))"
proof (cases "findFirstClosedFd c")
  case (Inr i)
  then show ?thesis using flight_install[OF assms Inr] by (simp add: openMountDir_def fd_ok_def slot_held_def)
qed (use assms in \<open>simp add: openMountDir_def\<close>)

lemma open_tarfs_keeps:
  assumes "vfs_inv E c"
  shows "keeps E (open_tarfs E c fl path)"
proof -
  have i: "keeps E (install_handle E c VFS_TYPE_TARFS (TarHandle h) fl path)" for h
    using assms by (intro install_keeps) (auto simp: ctx_handle_def fd_ok_def slot_held_def)
  show ?thesis
    using i openMountDir_keeps[OF assms, of path] assms keeps_Some_pair[of E "openMountDir c path"]
    by (auto simp: open_tarfs_def split: option.splits)
qed

lemma proc_call: "vfs_inv E c \<Longrightarrow> drv_call E c (CProc op d s n k) = (r, c1) \<Longrightarrow> vfs_inv E c1 \<and> v_procfs c1 = v_procfs c"
  using drv_call_op(2)[of c E op d s n k] flight_quiet[of E "{#}" c c1] quiet_fds[of c c1] by auto

lemma ProcFs_Open_keeps:
  assumes "vfs_inv E c"
  shows "case ProcFs_Open E c sfx of (Inl e, c1) \<Rightarrow> vfs_inv E c1 | (Inr h, c1) \<Rightarrow> vfs_inv E c1 \<and> proc_ok (v_procfs c1) h"
proof (cases "e_alloc E (v_log c) 0 \<and> sfx \<noteq> []")
  case False
  then show ?thesis using assms by (auto simp: ProcFs_Open_def proc_ok_def)
next
  case True
  show ?thesis
  proof (cases "splitFirst sfx")
    case (Inl e)
    then show ?thesis using True assms by (simp add: ProcFs_Open_def)
  next
    case (Inr sr)
    obtain seg rest where sr: "sr = (seg, rest)" by (cases sr)
    show ?thesis
    proof (cases "findEntry c seg")
      case None
      then show ?thesis using True Inr sr assms by (simp add: ProcFs_Open_def)
    next
      case (Some k)
      then have k: "k < length (v_procfs c)" by (auto simp: findEntry_def dest: find_idx_SomeD)
      let ?e = "v_procfs c ! k"
      show ?thesis
      proof (cases "pr_dir ?e")
        case None
        then show ?thesis using True Inr sr Some assms k by (simp add: ProcFs_Open_def Let_def proc_ok_def)
      next
        case (Some dops)
        obtain r c1 where rc: "drv_call E c (CProcStat dops rest) = (r, c1)" by (metis surj_pair)
        show ?thesis using True Inr sr \<open>findEntry c seg = Some k\<close> Some assms k rc proc_call[OF assms rc]
          by (cases "r_ret r") (auto simp: ProcFs_Open_def Let_def proc_ok_def)
      qed
    qed
  qed
qed

lemma route_type:
  assumes "vfs_wf c" "routeMatch c path = Inr (ty, drv, sfx)"
  shows "ty \<in> {VFS_TYPE_TARFS, VFS_TYPE_DEV, VFS_TYPE_NET, VFS_TYPE_PROC, VFS_TYPE_DRIVER} \<and> (ty = VFS_TYPE_DRIVER \<longrightarrow> drv \<noteq> None)"
proof -
  have l: "t = VFS_TYPE_NONE \<or> mount_ok \<lparr>mt_prefix = [], mt_type = t, mt_drv = d\<rparr>"
    if "route_loop path ms b0 t0 d0 = (b, t, d)" "\<forall>m \<in> set ms. mount_ok m"
      "t0 = VFS_TYPE_NONE \<or> mount_ok \<lparr>mt_prefix = [], mt_type = t0, mt_drv = d0\<rparr>" for ms b0 t0 d0 b t d
    using that by (induction path ms b0 t0 d0 rule: route_loop.induct) (auto simp: mount_ok_def split: if_splits)
  obtain b where "route_loop path (v_mounts c) 0 VFS_TYPE_NONE None = (b, ty, drv)" "ty \<noteq> VFS_TYPE_NONE"
    using assms(2) by (auto simp: routeMatch_def Let_def split: prod.splits if_splits)
  then show ?thesis using l[of "v_mounts c" 0 VFS_TYPE_NONE None b ty drv] assms(1) by (simp add: vfs_wf_def mount_ok_def)
qed

lemma route_open_keeps:
  assumes "vfs_inv E c"
  shows "keeps E (route_open E c path fl)"
proof (cases "routeMatch c path")
  case (Inl e)
  then show ?thesis using assms by (simp add: route_open_def)
next
  case (Inr x)
  obtain ty drv sfx where x: "x = (ty, drv, sfx)" by (cases x)
  note ty = route_type[OF flight_proc[OF assms] Inr[unfolded x]]
  have dev: ?thesis if "ty = VFS_TYPE_DEV"
  proof -
    from DevFs_Open_keeps[OF assms, of sfx fl] obtain r c1 where o1: "DevFs_Open E c sfx fl = Some (r, c1)"
      "case r of Inl e \<Rightarrow> vfs_inv E c1 | Inr h \<Rightarrow> ns_ok h \<and> flight E (handle_of h) c1"
      by (auto simp: node_open_def split: option.splits)
    show ?thesis
    proof (cases r)
      case (Inr h)
      have "keeps E (install_handle E c1 VFS_TYPE_DEV (DevHandle h) fl path)"
        using o1 Inr by (intro install_keeps) (auto simp: ctx_handle_def fd_ok_def slot_held_def)
      then show ?thesis using o1 Inr that \<open>routeMatch c path = Inr x\<close> x by (simp add: route_open_def)
    qed (use o1 that Inr x in \<open>simp add: route_open_def\<close>)
  qed
  have net: ?thesis if "ty = VFS_TYPE_NET"
  proof -
    from NetFs_Open_keeps[OF assms, of sfx fl] obtain r c1 where o1: "NetFs_Open E c sfx fl = Some (r, c1)"
      "case r of Inl e \<Rightarrow> vfs_inv E c1 | Inr h \<Rightarrow> ns_ok h \<and> flight E (handle_of h) c1"
      by (auto simp: node_open_def split: option.splits)
    show ?thesis
    proof (cases r)
      case (Inr h)
      have "keeps E (install_handle E c1 VFS_TYPE_NET (NetHandle h) fl path)"
        using o1 Inr by (intro install_keeps) (auto simp: ctx_handle_def fd_ok_def slot_held_def)
      then show ?thesis using o1 Inr that \<open>routeMatch c path = Inr x\<close> x by (simp add: route_open_def)
    qed (use o1 that Inr x in \<open>simp add: route_open_def\<close>)
  qed
  have proc: ?thesis if "ty = VFS_TYPE_PROC"
  proof -
    obtain r c1 where o1: "ProcFs_Open E c sfx = (r, c1)" by (metis surj_pair)
    note k = ProcFs_Open_keeps[OF assms, of sfx, unfolded o1]
    show ?thesis
    proof (cases r)
      case (Inr h)
      have "keeps E (install_handle E c1 VFS_TYPE_PROC (ProcHandle h) fl path)"
        using k Inr by (intro install_keeps) (auto simp: ctx_handle_def fd_ok_def slot_held_def)
      then show ?thesis using o1 Inr that \<open>routeMatch c path = Inr x\<close> x by (simp add: route_open_def)
    qed (use o1 k that Inr x in \<open>simp add: route_open_def\<close>)
  qed
  show ?thesis using ty dev net proc open_driver_keeps[OF assms, of drv sfx fl path] open_tarfs_keeps[OF assms, of fl path] Inr x
    by (auto simp: route_open_def)
qed

lemma VfsOpen_keeps: "vfs_inv E c \<Longrightarrow> keeps E (VfsOpen E c path fl)"
  using route_open_keeps[of E c] by (auto simp: VfsOpen_def split: sum.splits)

lemma open_platform_keeps:
  assumes "vfs_inv E c"
  shows "vfs_inv E (snd (open_platform E c fd path fl))"
proof (cases "f_driver (slot c fd)")
  case None
  then show ?thesis using assms by (simp add: open_platform_def)
next
  case (Some d)
  show ?thesis
  proof (cases "dr_has (e_drv E d) OpOpenAt")
    case False
    then show ?thesis using assms Some by (simp add: open_platform_def)
  next
    case True
    obtain r c1 where rc: "(r, c1) = drv_call E c (COpenAt d (f_drv_fd (slot c fd)) path fl)" by (metis surj_pair)
    from flight_acquire[OF assms rc] have f: "flight E (case r_ret r of Inr n \<Rightarrow> {#(d, int n)#} | Inl e \<Rightarrow> {#}) c1" by simp
    show ?thesis
    proof (cases "r_ret r")
      case (Inl e)
      then show ?thesis using f True Some rc[symmetric] by (simp add: open_platform_def)
    next
      case n: (Inr n)
      then have f1: "flight E {#(d, int n)#} c1" using f by simp
      show ?thesis
      proof (cases "findFirstClosedFd c1")
        case (Inl e)
        then show ?thesis using flight_release[OF f1] True Some rc[symmetric] n by (simp add: open_platform_def)
      next
        case (Inr i)
        then show ?thesis using flight_install[OF f1 Inr] True Some rc[symmetric] n
          by (simp add: open_platform_def Let_def fd_ok_def slot_held_def drv_handle_def)
      qed
    qed
  qed
qed

lemma VfsOpenAt_keeps: "vfs_inv E c \<Longrightarrow> keeps E (VfsOpenAt E c fd path fl)"
  using route_open_keeps[of E c] open_platform_keeps[of E c fd path fl] keeps_Some_pair[of E "open_platform E c fd path fl"]
  by (auto simp: VfsOpenAt_def split: sum.splits)

lemma check_slot:
  assumes "vfs_wf c" "checkFd c fd"
  shows "nat fd < VFS_MAX_FDS" "fd_ok (v_procfs c) (slot c fd)" "f_type (slot c fd) \<noteq> VFS_TYPE_NONE"
proof -
  show k: "nat fd < VFS_MAX_FDS" using assms(2) by (auto simp: checkFd_def)
  show "fd_ok (v_procfs c) (slot c fd)" using k assms(1) by (simp add: vfs_wf_def)
  show "f_type (slot c fd) \<noteq> VFS_TYPE_NONE" using assms(2) by (simp add: checkFd_def)
qed

text \<open>Closing and clearing a slot that holds the handle of a namespace, or one that a driver serves.\<close>

lemma close_handle_slot:
  assumes "vfs_inv E c" "k < VFS_MAX_FDS" "f_type (v_fds c ! k) \<in> {VFS_TYPE_TARFS, VFS_TYPE_DEV, VFS_TYPE_NET, VFS_TYPE_PROC}"
  shows "\<exists>r c1. close_handle E c (f_ctx (v_fds c ! k)) = Some (r, c1) \<and> v_fds c1 = v_fds c \<and> vfs_inv E (set_fd c1 k clear_handle)"
proof -
  let ?f = "v_fds c ! k"
  have ok: "fd_ok (v_procfs c) ?f" using assms(1,2) by (simp add: flight_def vfs_wf_def)
  have plain: "vfs_inv E (set_fd c k clear_handle)" if "slot_held ?f = {#}"
    using that assms(1,2) by (intro flight_update) (auto simp: clear_handle_def fd_ok_def slot_held_def)
  have node: "\<exists>r c1. DevFs_Close E c h = Some (r, c1) \<and> v_fds c1 = v_fds c \<and> vfs_inv E (set_fd c1 k clear_handle)"
    if h: "slot_held ?f = handle_of h" "ns_ok h" for h
  proof (cases "h_is_root h")
    case True
    then show ?thesis using plain h(1) by (simp add: DevFs_Close_def handle_of_def)
  next
    case False
    then obtain d where d: "h_drv h = Some d" using h(2) by (auto simp: ns_ok_def)
    let ?c1 = "snd (opt_drv E c (Some d) OpClose (\<lambda>i. CClose i (h_drv_fd h)))"
    have "vfs_inv E (set_fd ?c1 k clear_handle)"
      using h(1) False d by (intro flight_clear[OF assms(1,2)]) (simp_all add: handle_of_def clear_handle_def)
    moreover have "v_fds ?c1 = v_fds c" by (auto simp: opt_drv_def drv_call_def Let_def)
    moreover have "\<exists>r. DevFs_Close E c h = Some (r, ?c1)"
      using False d by (auto simp: DevFs_Close_def TRY_DRV_def opt_drv_def split: prod.splits)
    ultimately show ?thesis by blast
  qed
  consider "f_type ?f = VFS_TYPE_TARFS" | "f_type ?f = VFS_TYPE_PROC" | "f_type ?f = VFS_TYPE_DEV" | "f_type ?f = VFS_TYPE_NET"
    using assms(3) by auto
  then show ?thesis
  proof cases
    case 1
    then show ?thesis using ok plain by (auto simp: fd_ok_def slot_held_def close_handle_def)
  next
    case 2
    then show ?thesis using ok plain by (auto simp: fd_ok_def slot_held_def close_handle_def)
  next
    case 3
    then show ?thesis using ok node by (auto simp: fd_ok_def slot_held_def close_handle_def ctx_handle_def)
  next
    case 4
    then show ?thesis using ok node by (auto simp: fd_ok_def slot_held_def close_handle_def ctx_handle_def NetFs_Close_DevFs)
  qed
qed

lemma close_driver_slot:
  assumes "vfs_inv E c" "k < VFS_MAX_FDS" "f_type (v_fds c ! k) \<in> {VFS_TYPE_DRIVER, VFS_TYPE_PLATFORM}"
  shows "vfs_inv E (set_fd (snd (opt_drv E c (f_driver (v_fds c ! k)) OpClose (\<lambda>i. CClose i (f_drv_fd (v_fds c ! k))))) k clear_driver)"
proof -
  have ok: "fd_ok (v_procfs c) (v_fds c ! k)" using assms(1,2) by (simp add: flight_def vfs_wf_def)
  then obtain d where d: "f_driver (v_fds c ! k) = Some d" using assms(3) by (auto simp: fd_ok_def)
  show ?thesis unfolding d using assms(3) d
    by (intro flight_clear[OF assms(1,2)]) (auto simp: slot_held_def drv_handle_def clear_driver_def)
qed

lemma opt_drv_fds [simp]: "v_fds (snd (opt_drv E c d op x)) = v_fds c"
  by (auto simp: opt_drv_def drv_call_def Let_def split: option.splits)

lemma VfsClose_full:
  assumes "vfs_inv E c"
  shows "\<exists>r c1. VfsClose E c fd = Some (r, c1) \<and> vfs_inv E c1 \<and> (\<forall>j. j \<noteq> nat fd \<longrightarrow> v_fds c1 ! j = v_fds c ! j) \<and>
    (checkFd c fd \<and> f_type (slot c fd) \<noteq> VFS_TYPE_STREAM \<and> \<not> isPlatformPreopen c (nat fd) \<longrightarrow> f_type (slot c1 fd) = VFS_TYPE_NONE)"
proof (cases "checkFd c fd")
  case False
  then show ?thesis using assms by (simp add: VfsClose_def)
next
  case True
  let ?f = "slot c fd"
  note k = check_slot[OF flight_proc[OF assms] True]
  have l: "nat fd < length (v_fds c)" using assms k(1) by (simp add: flight_def vfs_wf_def)
  have clr: "\<forall>j. j \<noteq> nat fd \<longrightarrow> v_fds (set_fd c1 (nat fd) g) ! j = v_fds c ! j" if "v_fds c1 = v_fds c" for c1 g
    using that by (simp add: set_fd_def)
  consider (s) "f_type ?f = VFS_TYPE_STREAM" | (m) "f_type ?f = VFS_TYPE_MOUNTDIR" | (d) "f_type ?f = VFS_TYPE_DRIVER"
    | (p) "f_type ?f = VFS_TYPE_PLATFORM" | (n) "f_type ?f \<in> {VFS_TYPE_TARFS, VFS_TYPE_DEV, VFS_TYPE_NET, VFS_TYPE_PROC}"
    using k(3) by (cases "f_type ?f") auto
  then show ?thesis
  proof cases
    case s
    obtain r c1 where o1: "opt_drv E c (f_driver ?f) OpClose (\<lambda>i. CStdClose i (f_drv_fd ?f)) = (r, c1)" by (metis surj_pair)
    then have "quiet c c1" "v_fds c1 = v_fds c"
      using opt_drv_COp(2)[of c E "f_driver ?f" OpClose "f_drv_fd ?f"] opt_drv_fds[of E c "f_driver ?f" OpClose] by (metis snd_conv)+
    then show ?thesis using s True o1 flight_quiet[OF assms] by (simp add: VfsClose_def Let_def)
  next
    case m
    have "vfs_inv E (set_fd c (nat fd) (\<lambda>f. f\<lparr>f_type := VFS_TYPE_NONE\<rparr>))"
      using m k by (intro flight_update[OF assms]) (auto simp: fd_ok_def slot_held_def)
    then show ?thesis using m True clr[of c] l by (simp add: VfsClose_def Let_def set_fd_nth)
  next
    case d
    obtain r c1 where o1: "opt_drv E c (f_driver ?f) OpClose (\<lambda>i. CClose i (f_drv_fd ?f)) = (r, c1)" by (metis surj_pair)
    then have "vfs_inv E (set_fd c1 (nat fd) clear_driver)" "v_fds c1 = v_fds c"
      using close_driver_slot[OF assms k(1)] d opt_drv_fds[of E c "f_driver ?f" OpClose] by (metis insertI1 snd_conv)+
    then show ?thesis using d True o1 clr[of c1] l by (simp add: VfsClose_def Let_def set_fd_nth clear_driver_def)
  next
    case p
    show ?thesis
    proof (cases "platform_shared c (nat fd)")
      case False
      then show ?thesis using p True assms by (simp add: VfsClose_def Let_def isPlatformPreopen_def)
    next
      case sh: True
      obtain r c1 where o1: "opt_drv E c (f_driver ?f) OpClose (\<lambda>i. CClose i (f_drv_fd ?f)) = (r, c1)" by (metis surj_pair)
      then have "vfs_inv E (set_fd c1 (nat fd) clear_driver)" "v_fds c1 = v_fds c"
        using close_driver_slot[OF assms k(1)] p opt_drv_fds[of E c "f_driver ?f" OpClose] by (metis insertI1 insertI2 snd_conv)+
      then show ?thesis using p sh True o1 clr[of c1] l by (simp add: VfsClose_def Let_def set_fd_nth clear_driver_def)
    qed
  next
    case n
    obtain r c1 where o1: "close_handle E c (f_ctx ?f) = Some (r, c1)" "v_fds c1 = v_fds c" "vfs_inv E (set_fd c1 (nat fd) clear_handle)"
      using close_handle_slot[OF assms k(1) n] by blast
    have "VfsClose E c fd = Some (r, set_fd c1 (nat fd) clear_handle)" using n True o1(1) by (auto simp: VfsClose_def Let_def)
    then show ?thesis using o1(2,3) clr[of c1] l by (simp add: set_fd_nth clear_handle_def)
  qed
qed

lemma VfsClose_keeps: "vfs_inv E c \<Longrightarrow> keeps E (VfsClose E c fd)"
  using VfsClose_full[of E c fd] by auto

lemma VfsStat_keeps:
  assumes "vfs_inv E c"
  shows "keeps E (VfsStat E c fd)"
proof (cases "checkFd c fd")
  case False
  then show ?thesis using assms by (simp add: VfsStat_def)
next
  case True
  let ?f = "slot c fd"
  note k = check_slot[OF flight_proc[OF assms] True]
  have drv: "keeps E (stat_reply (TRY_DRV E c (f_driver ?f) OpStat (\<lambda>i. CStat i (f_drv_fd ?f))))" if "f_driver ?f \<noteq> None"
    using that keeps_map[OF TRY_DRV_op(2)[OF assms]] by (simp add: stat_reply_def)
  have node: "keeps E (DevFs_Stat E c h)" "keeps E (NetFs_Stat E c h)" if "ns_ok h" for h
  proof -
    have "keeps E (DevFs_Stat E c h)"
    proof (cases "h_is_root h")
      case False
      then have "keeps E (TRY_DRV E c (h_drv h) OpStat (\<lambda>i. CStat i (h_drv_fd h)))"
        using that by (intro TRY_DRV_op(2)[OF assms]) (auto simp: ns_ok_def)
      then show ?thesis using False by (auto simp: DevFs_Stat_def keeps_def)
    qed (use assms in \<open>simp add: DevFs_Stat_def\<close>)
    then show "keeps E (DevFs_Stat E c h)" "keeps E (NetFs_Stat E c h)" by (simp_all add: DevFs_Stat_def NetFs_Stat_def)
  qed
  show ?thesis using True k drv node assms
    by (cases "f_type ?f") (auto simp: VfsStat_def Let_def fd_ok_def split: prod.splits)
qed

lemma VfsStatAt_keeps:
  assumes "vfs_inv E c"
  shows "keeps E (VfsStatAt E c fd path)"
proof -
  have o1: "keeps E (case VfsOpenAt E c fd path 0 of
                None \<Rightarrow> None
              | Some (Inl e, c1) \<Rightarrow> Some (Inl e, c1)
              | Some (Inr n, c1) \<Rightarrow>
                  (case VfsStat E c1 (int n) of
                     None \<Rightarrow> None
                   | Some (r, c2) \<Rightarrow> (case VfsClose E c2 (int n) of None \<Rightarrow> None | Some (_, c3) \<Rightarrow> Some (r, c3))))"
  proof -
    obtain r c1 where "VfsOpenAt E c fd path 0 = Some (r, c1)" "vfs_inv E c1" by (rule keepsE[OF VfsOpenAt_keeps[OF assms]])
    then show ?thesis
    proof (cases r)
      case (Inr n)
      obtain s c2 where "VfsStat E c1 (int n) = Some (s, c2)" "vfs_inv E c2"
        by (rule keepsE[OF VfsStat_keeps[OF \<open>vfs_inv E c1\<close>]])
      moreover obtain x c3 where "VfsClose E c2 (int n) = Some (x, c3)" "vfs_inv E c3"
        by (rule keepsE[OF VfsClose_keeps[OF calculation(2)]])
      ultimately show ?thesis using Inr \<open>VfsOpenAt E c fd path 0 = Some (r, c1)\<close> by simp
    qed simp
  qed
  show ?thesis unfolding VfsStatAt_def using assms o1 by (auto split: option.splits)
qed

text \<open>The descriptor of \<open>/dev\<close> or \<open>/net\<close> itself, which no driver serves.\<close>

definition ns_root :: "vfs_fd \<Rightarrow> bool" where
  "ns_root f \<longleftrightarrow> (case f_ctx f of DevHandle h \<Rightarrow> f_type f = VFS_TYPE_DEV \<and> h_is_root h
     | NetHandle h \<Rightarrow> f_type f = VFS_TYPE_NET \<and> h_is_root h | _ \<Rightarrow> False)"

lemma forward_keeps:
  assumes "vfs_inv E c"
  shows "may_keep E (TRY_DRV E c (h_drv h) op (\<lambda>i. COp o' i n a))"
    "ns_ok h \<Longrightarrow> \<not> h_is_root h \<Longrightarrow> keeps E (TRY_DRV E c (h_drv h) op (\<lambda>i. COp o' i n a))"
  using TRY_DRV_op[OF assms] by (auto simp: ns_ok_def)

lemmas reply_defs = stat_reply_def bytes_reply_def ret_reply_def pos_reply_def

lemma proc_read_keeps:
  assumes "vfs_inv E c" "proc_ok (v_procfs c) h"
  shows "\<exists>r h1 c1. ProcFs_Read E c h n = Some (r, h1, c1) \<and> vfs_inv E c1 \<and> v_procfs c1 = v_procfs c \<and>
    v_fds c1 = v_fds c \<and> proc_ok (v_procfs c) h1"
proof (cases "ph_is_dir h \<or> ph_read_done h")
  case True
  then show ?thesis using assms by (auto simp: ProcFs_Read_def)
next
  case False
  then have e: "ph_entry h < length (v_procfs c)" using assms(2) by (auto simp: proc_ok_def)
  then have "pr_read (v_procfs c ! ph_entry h) \<noteq> None \<or> pr_dir (v_procfs c ! ph_entry h) \<noteq> None"
    using assms(1) by (auto simp: flight_def vfs_wf_def)
  then obtain fn where fn: "(case pr_dir (v_procfs c ! ph_entry h) of Some dops \<Rightarrow> Some dops | None \<Rightarrow> pr_read (v_procfs c ! ph_entry h)) = Some fn"
    by (cases "pr_dir (v_procfs c ! ph_entry h)") auto
  obtain r c1 where rc: "drv_call E c (CProcRead fn (if pr_dir (v_procfs c ! ph_entry h) = None then [] else ph_sub h) n) = (r, c1)"
    by (metis surj_pair)
  then have c1: "v_fds c1 = v_fds c" using drv_call_simps(1) by (metis snd_conv)
  show ?thesis using False fn rc proc_call[OF assms(1) rc] assms(2) c1
    by (cases "r_ret r") (auto simp: ProcFs_Read_def Let_def proc_ok_def)
qed

lemma VfsRead_keeps:
  assumes "vfs_inv E c"
  shows "may_keep E (VfsRead E c fd n)" "\<not> ns_root (slot c fd) \<Longrightarrow> f_type (slot c fd) \<noteq> VFS_TYPE_TARFS \<Longrightarrow> keeps E (VfsRead E c fd n)"
proof -
  let ?f = "slot c fd"
  have "may_keep E (VfsRead E c fd n) \<and> (\<not> ns_root ?f \<and> f_type ?f \<noteq> VFS_TYPE_TARFS \<longrightarrow> keeps E (VfsRead E c fd n))"
  proof (cases "checkFd c fd")
    case False
    then show ?thesis using assms by (simp add: VfsRead_def may_keep_def)
  next
    case True
    note k = check_slot[OF flight_proc[OF assms] True]
    have drv: "may_keep E (bytes_reply (TRY_DRV E c d OpRead (\<lambda>i. CRead i m n)))" for d m
      unfolding reply_defs by (intro may_keep_map TRY_DRV_op(1)[OF assms])
    have drv2: "keeps E (bytes_reply (TRY_DRV E c d OpRead (\<lambda>i. CRead i m n)))" if "d \<noteq> None" for d m
      unfolding reply_defs using that by (intro keeps_map TRY_DRV_op(2)[OF assms])
    show ?thesis
    proof (cases "f_type ?f")
      case VFS_TYPE_TARFS
      then obtain h where h: "f_ctx ?f = TarHandle h" using k(2) by (auto simp: fd_ok_def)
      have "vfs_inv E (set_fd c (nat fd) (\<lambda>f. f\<lparr>f_ctx := TarHandle h1\<rparr>))" for h1
        using VFS_TYPE_TARFS k assms by (intro flight_update) (auto simp: fd_ok_def slot_held_def flight_def vfs_wf_def)
      then show ?thesis using VFS_TYPE_TARFS h True assms
        by (auto simp: VfsRead_def Let_def may_keep_def split: option.splits sum.splits)
    next
      case VFS_TYPE_PROC
      then obtain h where h: "f_ctx ?f = ProcHandle h" "proc_ok (v_procfs c) h" using k(2) by (auto simp: fd_ok_def)
      obtain r h1 c1 where p: "ProcFs_Read E c h n = Some (r, h1, c1)" "vfs_inv E c1" "v_procfs c1 = v_procfs c" "v_fds c1 = v_fds c"
        "proc_ok (v_procfs c) h1" using proc_read_keeps[OF assms h(2)] by blast
      have "vfs_inv E (set_fd c1 (nat fd) (\<lambda>f. f\<lparr>f_ctx := ProcHandle h1\<rparr>))"
        using VFS_TYPE_PROC k p by (intro flight_update) (auto simp: fd_ok_def slot_held_def flight_def vfs_wf_def)
      then show ?thesis using VFS_TYPE_PROC h True p(1) by (simp add: VfsRead_def Let_def may_keep_def)
    next
      case VFS_TYPE_DEV
      then obtain h where h: "f_ctx ?f = DevHandle h" "ns_ok h" using k(2) by (auto simp: fd_ok_def)
      then show ?thesis using VFS_TYPE_DEV True drv[of "h_drv h"] drv2[of "h_drv h"]
        by (auto simp: VfsRead_def Let_def DevFs_Read_def ns_root_def ns_ok_def)
    next
      case VFS_TYPE_NET
      then obtain h where h: "f_ctx ?f = NetHandle h" "ns_ok h" using k(2) by (auto simp: fd_ok_def)
      then show ?thesis using VFS_TYPE_NET True drv[of "h_drv h"] drv2[of "h_drv h"]
        by (auto simp: VfsRead_def Let_def NetFs_Read_def ns_root_def ns_ok_def)
    qed (use True k drv drv2 assms in \<open>auto simp: VfsRead_def Let_def fd_ok_def may_keep_def\<close>)
  qed
  then show "may_keep E (VfsRead E c fd n)" "\<not> ns_root ?f \<Longrightarrow> f_type ?f \<noteq> VFS_TYPE_TARFS \<Longrightarrow> keeps E (VfsRead E c fd n)" by auto
qed

lemma VfsWrite_keeps:
  assumes "vfs_inv E c"
  shows "may_keep E (VfsWrite E c fd bs) \<and> (\<not> ns_root (slot c fd) \<longrightarrow> keeps E (VfsWrite E c fd bs))"
proof (cases "checkFd c fd")
  case False
  then show ?thesis using assms by (simp add: VfsWrite_def)
next
  case True
  let ?f = "slot c fd"
  note k = check_slot[OF flight_proc[OF assms] True]
  have drv: "may_keep E (ret_reply (TRY_DRV E c d OpWrite (\<lambda>i. CWrite i m bs)))" for d m
    unfolding reply_defs by (intro may_keep_map TRY_DRV_op(1)[OF assms])
  have drv2: "keeps E (ret_reply (TRY_DRV E c d OpWrite (\<lambda>i. CWrite i m bs)))" if "d \<noteq> None" for d m
    unfolding reply_defs using that by (intro keeps_map TRY_DRV_op(2)[OF assms])
  show ?thesis using True k(2,3) drv drv2 assms
    by (cases "f_type ?f") (auto simp: VfsWrite_def Let_def fd_ok_def DevFs_Write_def NetFs_Write_def ns_root_def ns_ok_def)
qed

lemma VfsStatSet_keeps:
  assumes "vfs_inv E c"
  shows "may_keep E (VfsStatSet E c fd st) \<and> (\<not> ns_root (slot c fd) \<longrightarrow> keeps E (VfsStatSet E c fd st))"
proof (cases "checkFd c fd")
  case False
  then show ?thesis using assms by (simp add: VfsStatSet_def)
next
  case True
  let ?f = "slot c fd"
  note k = check_slot[OF flight_proc[OF assms] True]
  show ?thesis using True k(2,3) TRY_DRV_op[OF assms] assms
    by (cases "f_type ?f"; cases "f_ctx ?f") (auto simp: VfsStatSet_def Let_def fd_ok_def DevFs_StatSet_def ns_root_def ns_ok_def)
qed

lemma VfsSeek_keeps:
  assumes "vfs_inv E c"
  shows "may_keep E (VfsSeek E c fd off w)"
    "\<not> ns_root (slot c fd) \<Longrightarrow> f_type (slot c fd) \<noteq> VFS_TYPE_TARFS \<Longrightarrow> keeps E (VfsSeek E c fd off w)"
proof -
  let ?f = "slot c fd"
  have "may_keep E (VfsSeek E c fd off w) \<and> (\<not> ns_root ?f \<and> f_type ?f \<noteq> VFS_TYPE_TARFS \<longrightarrow> keeps E (VfsSeek E c fd off w))"
  proof (cases "checkFd c fd")
    case False
    then show ?thesis using assms by (simp add: VfsSeek_def)
  next
    case True
    note k = check_slot[OF flight_proc[OF assms] True]
    have drv: "may_keep E (pos_reply (TRY_DRV E c d OpSeek (\<lambda>i. CSeek i m off w)))" for d m
      unfolding reply_defs by (intro may_keep_map TRY_DRV_op(1)[OF assms])
    have drv2: "keeps E (pos_reply (TRY_DRV E c d OpSeek (\<lambda>i. CSeek i m off w)))" if "d \<noteq> None" for d m
      unfolding reply_defs using that by (intro keeps_map TRY_DRV_op(2)[OF assms])
    show ?thesis
    proof (cases "f_type ?f = VFS_TYPE_TARFS")
      case t: True
      then obtain h where h: "f_ctx ?f = TarHandle h" using k(2) by (auto simp: fd_ok_def)
      have "vfs_inv E (set_fd c (nat fd) (\<lambda>f. f\<lparr>f_ctx := TarHandle h1\<rparr>))" for h1
        using t k assms by (intro flight_update) (auto simp: fd_ok_def slot_held_def flight_def vfs_wf_def)
      then show ?thesis using t h True assms
        by (auto simp: VfsSeek_def Let_def split: option.splits sum.splits)
    next
      case False
      then show ?thesis using True k(2,3) drv drv2 assms
        by (cases "f_type ?f"; cases "f_ctx ?f") (auto simp: VfsSeek_def Let_def fd_ok_def DevFs_Seek_def ns_root_def ns_ok_def)
    qed
  qed
  then show "may_keep E (VfsSeek E c fd off w)" "\<not> ns_root ?f \<Longrightarrow> f_type ?f \<noteq> VFS_TYPE_TARFS \<Longrightarrow> keeps E (VfsSeek E c fd off w)" by auto
qed

text \<open>Sequences of operations: each is run where the one before left the state.\<close>

lemma may_keep_bind:
  assumes "may_keep E x" "\<And>r c. x = Some (r, c) \<Longrightarrow> vfs_inv E c \<Longrightarrow> may_keep E (g r c)"
  shows "may_keep E (case x of None \<Rightarrow> None | Some (r, c) \<Rightarrow> g r c)"
  using assms by (auto simp: may_keep_def keeps_def split: option.splits)

lemma VfsTell_keeps: "vfs_inv E c \<Longrightarrow> may_keep E (VfsTell E c fd)"
  unfolding VfsTell_def by (intro may_keep_map VfsSeek_keeps)

lemma positionAt_keeps:
  assumes "vfs_inv E c"
  shows "may_keep E (positionAt E c fd off)"
proof (cases "uint off > LONG_MAX")
  case True
  then show ?thesis using assms by (simp add: positionAt_def may_keep_def)
next
  case False
  have "may_keep E (case VfsTell E c fd of None \<Rightarrow> None | Some (r, c1) \<Rightarrow> (case r of Inl e \<Rightarrow> Some (Inl e, c1)
      | Inr saved \<Rightarrow> (case VfsSeek E c1 fd (uint off) 0 of None \<Rightarrow> None | Some (r, c2) \<Rightarrow>
          (case r of Inl e \<Rightarrow> Some (Inl e, c2) | Inr _ \<Rightarrow> Some (Inr saved, c2)))))"
    by (intro may_keep_bind VfsTell_keeps[OF assms])
      (auto split: sum.splits intro!: may_keep_bind VfsSeek_keeps)
  then show ?thesis using False unfolding positionAt_def by (simp cong: option.case_cong sum.case_cong prod.case_cong)
qed

lemma VfsPread_keeps:
  assumes "vfs_inv E c"
  shows "may_keep E (VfsPread E c fd n off)"
proof -
  have "may_keep E (case positionAt E c fd off of None \<Rightarrow> None | Some (r, c1) \<Rightarrow> (case r of Inl e \<Rightarrow> Some (Inl e, c1)
      | Inr saved \<Rightarrow> (case VfsRead E c1 fd n of None \<Rightarrow> None | Some (r, c2) \<Rightarrow>
          (case VfsSeek E c2 fd saved 0 of None \<Rightarrow> None | Some (_, c3) \<Rightarrow> Some (r, c3)))))"
    by (intro may_keep_bind positionAt_keeps[OF assms])
      (auto split: sum.splits intro!: may_keep_bind VfsSeek_keeps VfsRead_keeps)
  then show ?thesis unfolding VfsPread_def by (simp cong: option.case_cong sum.case_cong prod.case_cong)
qed

lemma VfsPwrite_keeps:
  assumes "vfs_inv E c"
  shows "may_keep E (VfsPwrite E c fd bs off)"
proof -
  have "may_keep E (case positionAt E c fd off of None \<Rightarrow> None | Some (r, c1) \<Rightarrow> (case r of Inl e \<Rightarrow> Some (Inl e, c1)
      | Inr saved \<Rightarrow> (case VfsWrite E c1 fd bs of None \<Rightarrow> None | Some (r, c2) \<Rightarrow>
          (case VfsSeek E c2 fd saved 0 of None \<Rightarrow> None | Some (_, c3) \<Rightarrow> Some (r, c3)))))"
    by (intro may_keep_bind positionAt_keeps[OF assms])
      (auto split: sum.splits intro!: may_keep_bind VfsSeek_keeps VfsWrite_keeps[THEN conjunct1])
  then show ?thesis using VfsWrite_keeps[OF assms, of fd bs] unfolding VfsPwrite_def
    by (simp cong: option.case_cong sum.case_cong prod.case_cong)
qed

lemma VfsSync_keeps: "vfs_inv E c \<Longrightarrow> vfs_inv E (snd (VfsSync E c fd))"
  using flight_quiet opt_drv_COp(1) by (auto simp: VfsSync_def split: prod.splits)

lemma VfsTruncate_keeps: "vfs_inv E c \<Longrightarrow> vfs_inv E (snd (VfsTruncate E c fd sz))"
  using flight_quiet opt_drv_COp(1) by (auto simp: VfsTruncate_def split: prod.splits option.splits)

lemma slot_held_flags [simp]: "slot_held (f\<lparr>f_flags := x\<rparr>) = slot_held f"
  by (cases "f_type f") (simp_all add: slot_held_def drv_handle_def split: option.split)

lemma fd_ok_flags [simp]: "fd_ok ps (f\<lparr>f_flags := x\<rparr>) = fd_ok ps f"
  by (cases "f_type f") (simp_all add: fd_ok_def)

lemma VfsSetFlags_keeps:
  assumes "vfs_inv E c"
  shows "vfs_inv E (snd (VfsSetFlags E c fd fl))"
proof (cases "checkFd c fd")
  case False
  then show ?thesis using assms by (simp add: VfsSetFlags_def)
next
  case True
  note k = check_slot[OF flight_proc[OF assms] True]
  obtain d n where d: "fdDriver c fd = (d, n)" by (metis surj_pair)
  let ?nx = "(f_flags (slot c fd) AND NOT RUNTIME_FLAGS) OR (fl AND RUNTIME_FLAGS)"
  obtain r c1 where o1: "opt_drv E c d OpSetFlags (\<lambda>i. CSetFlags i n ?nx) = (r, c1)" by (metis surj_pair)
  then have q: "quiet c c1" using opt_drv_COp(1) by (metis snd_conv)
  have "vfs_inv E (set_fd c1 (nat fd) (\<lambda>f. f\<lparr>f_flags := ?nx\<rparr>))"
    using quiet_fds[OF q] k flight_quiet[OF assms q] assms
    by (intro flight_update) (auto simp: flight_def vfs_wf_def)
  then show ?thesis using assms flight_quiet[OF assms q] d o1 by (auto simp: VfsSetFlags_def Let_def split: sum.splits)
qed

lemma slot_held_zero: "slot_held fd_zero = {#}"
  by (simp add: slot_held_def fd_zero_def)

lemma VfsRenumber_keeps:
  assumes "vfs_inv E c"
  shows "keeps E (VfsRenumber E c a b)"
proof (cases "checkFd c a \<and> checkFd c b \<and> a \<noteq> b \<and> \<not> (f_type (slot c a) = VFS_TYPE_STREAM \<or> f_type (slot c b) = VFS_TYPE_STREAM \<or>
    isPlatformPreopen c (nat a) \<or> isPlatformPreopen c (nat b))")
  case False
  then show ?thesis using assms by (auto simp: VfsRenumber_def)
next
  case True
  note ka = check_slot[OF flight_proc[OF assms], of a] and kb = check_slot[OF flight_proc[OF assms], of b]
  have ne: "nat a \<noteq> nat b" using True by (auto simp: checkFd_def)
  obtain r c1 where c1: "VfsClose E c b = Some (r, c1)" "vfs_inv E c1" "\<forall>j. j \<noteq> nat b \<longrightarrow> v_fds c1 ! j = v_fds c ! j"
    "f_type (slot c1 b) = VFS_TYPE_NONE" using VfsClose_full[OF assms, of b] True by blast
  let ?c2 = "set_fd c1 (nat b) (\<lambda>_. slot c1 a)"
  let ?c3 = "set_fd ?c2 (nat a) (\<lambda>_. fd_zero)"
  have l: "nat a < length (v_fds c1)" "nat b < length (v_fds c1)" using ka kb True c1(2) by (auto simp: flight_def vfs_wf_def)
  have b3: "\<not> nat b < ROOT_FD" "\<not> nat a < ROOT_FD" using True ka(3) kb(3) assms by (auto simp: flight_def vfs_wf_def)
  have w2: "vfs_wf ?c2" using c1(2) l b3 True kb(1) by (intro set_fd_wf) (auto simp: flight_def vfs_wf_def)
  have w3: "vfs_wf ?c3" using ka(1) True by (intro set_fd_wf[OF w2]) (auto simp: fd_zero_def fd_ok_def)
  have "table_handles ?c2 = table_handles c1 + slot_held (slot c1 a)" using set_fd_table[OF l(2), of "\<lambda>_. slot c1 a"] c1(4) by (simp add: slot_held_def)
  moreover have "table_handles ?c3 + slot_held (slot c1 a) = table_handles ?c2"
    using set_fd_table[of "nat a" ?c2 "\<lambda>_. fd_zero"] l ne slot_held_zero by (simp add: set_fd_nth)
  ultimately have "table_handles ?c3 = table_handles c1" by simp
  then have "vfs_inv E ?c3" using w3 c1(2) by (simp add: flight_def)
  then show ?thesis using True c1(1,2) by (cases r) (auto simp: VfsRenumber_def)
qed

text \<open>Polling: the answer has a second part.\<close>

lemma node_poll_keeps:
  assumes "vfs_inv E c" "ns_ok h"
  shows "\<exists>r a c1. DevFs_Poll E c h = Some (r, a, c1) \<and> vfs_inv E c1"
proof (cases "h_is_root h \<or> \<not> dr_has (e_drv E (the (h_drv h))) OpPoll")
  case True
  then show ?thesis using assms by (auto simp: DevFs_Poll_def ns_ok_def)
next
  case False
  then obtain d where d: "h_drv h = Some d" using assms(2) by (auto simp: ns_ok_def)
  then show ?thesis using False flight_quiet[OF assms(1) drv_call_op(1), of E OpPoll d "h_drv_fd h" ANone]
    by (auto simp: DevFs_Poll_def split: prod.splits)
qed

lemma VfsPoll_keeps:
  assumes "vfs_inv E c"
  shows "\<exists>r a c1. VfsPoll E c fd = Some (r, a, c1) \<and> vfs_inv E c1"
proof (cases "checkFd c fd")
  case False
  then show ?thesis using assms by (simp add: VfsPoll_def)
next
  case True
  note k = check_slot[OF flight_proc[OF assms] True]
  have p: "\<exists>r a c1. pollDriver E c d n = (r, a, c1) \<and> vfs_inv E c1" for d n
    using assms flight_quiet[OF assms drv_call_op(1), of E OpPoll _ n ANone]
    by (auto simp: pollDriver_def split: option.splits prod.splits) (metis surj_pair snd_conv)
  have n: "NetFs_Poll E c h = DevFs_Poll E c h" for h by (simp add: NetFs_Poll_def DevFs_Poll_def)
  show ?thesis using True k(2,3) p node_poll_keeps[OF assms] assms
    by (cases "f_type (slot c fd)") (auto simp: VfsPoll_def Let_def fd_ok_def n)
qed

lemma drv_call_keeps: "vfs_inv E c \<Longrightarrow> keeps E (Some (drv_call E c (COp op d n a)))"
  using flight_quiet drv_call_op(1) keeps_Some_pair by blast

lemma drv_readdir_keeps:
  assumes "vfs_inv E c" "d \<noteq> None"
  shows "keeps E (drv_readdir E c d n b k)"
proof -
  obtain r c1 where "TRY_DRV E c d OpReadDir (\<lambda>i. CReadDir i n b k) = Some (r, c1)" "vfs_inv E c1"
    by (rule keepsE[OF TRY_DRV_op(2)[OF assms]])
  then show ?thesis by (simp add: drv_readdir_def)
qed

lemma node_readdir_keeps:
  assumes "vfs_inv E c" "ns_ok h"
  shows "keeps E (DevFs_ReadDir E c h b k)" "keeps E (NetFs_ReadDir E c h b k)"
  using assms drv_readdir_keeps[OF assms(1), of "h_drv h"]
  by (auto simp: DevFs_ReadDir_def NetFs_ReadDir_def ns_ok_def split: prod.split)

lemma proc_readdir_keeps:
  assumes "vfs_inv E c" "proc_ok (v_procfs c) h"
  shows "keeps E (ProcFs_ReadDir E c h b k)"
proof (cases "ph_is_dir h \<and> \<not> ph_is_root h")
  case False
  then show ?thesis using assms(1) by (auto simp: ProcFs_ReadDir_def split: prod.split)
next
  case True
  then obtain ops where o: "pr_dir (v_procfs c ! ph_entry h) = Some ops" using assms(2) by (auto simp: proc_ok_def)
  obtain r c1 where rc: "drv_call E c (CProcReadDir ops (ph_sub h) b k) = (r, c1)" by (metis surj_pair)
  show ?thesis using True o rc proc_call[OF assms(1) rc] by (simp add: ProcFs_ReadDir_def)
qed

lemma VfsReadDir_keeps:
  assumes "vfs_inv E c"
  shows "keeps E (VfsReadDir E c fd b k)"
proof (cases "checkFd c fd")
  case False
  then show ?thesis using assms by (simp add: VfsReadDir_def)
next
  case True
  note s = check_slot[OF flight_proc[OF assms] True]
  show ?thesis
  proof (cases "f_type (slot c fd)")
    case VFS_TYPE_TARFS
    then obtain h where "f_ctx (slot c fd) = TarHandle h" using s(2) by (auto simp: fd_ok_def)
    then show ?thesis using True VFS_TYPE_TARFS assms
      by (auto simp: VfsReadDir_def Let_def split: option.split sum.split prod.split)
  next
    case VFS_TYPE_DEV
    then obtain h where "f_ctx (slot c fd) = DevHandle h" "ns_ok h" using s(2) by (auto simp: fd_ok_def)
    then show ?thesis using True VFS_TYPE_DEV node_readdir_keeps[OF assms] by (simp add: VfsReadDir_def)
  next
    case VFS_TYPE_NET
    then obtain h where "f_ctx (slot c fd) = NetHandle h" "ns_ok h" using s(2) by (auto simp: fd_ok_def)
    then show ?thesis using True VFS_TYPE_NET node_readdir_keeps[OF assms] by (simp add: VfsReadDir_def)
  next
    case VFS_TYPE_PROC
    then obtain h where "f_ctx (slot c fd) = ProcHandle h" "proc_ok (v_procfs c) h" using s(2) by (auto simp: fd_ok_def)
    then show ?thesis using True VFS_TYPE_PROC proc_readdir_keeps[OF assms] by (simp add: VfsReadDir_def)
  next
    case VFS_TYPE_MOUNTDIR
    then show ?thesis using True assms by (auto simp: VfsReadDir_def split: prod.split)
  qed (use s True assms drv_readdir_keeps[OF assms] in \<open>auto simp: VfsReadDir_def fd_ok_def\<close>)
qed

section \<open>Calls on a path\<close>

lemma DevFs_UnlinkPath_keeps:
  assumes "vfs_inv E c"
  shows "keeps E (DevFs_UnlinkPath E c sfx)"
proof -
  obtain d s where ds: "devfsResolve c sfx = (d, s)" by (metis surj_pair)
  show ?thesis using assms TRY_DRV_op(2)[OF assms, of d]
    by (cases d; cases s) (simp_all add: DevFs_UnlinkPath_def ds)
qed

lemma path_call_keeps:
  assumes "vfs_inv E c" "\<And>s. keeps E (dev s)" "\<And>d n p. x d n p = COp o' d n (AStr p)"
  shows "keeps E (path_call E c fd path op x err dev)"
proof (cases "checkFd c fd \<and> \<not> platform_parent c fd path")
  case False
  have "f_driver (slot c fd) \<noteq> None" if "checkFd c fd" "platform_parent c fd path"
    using check_slot(2)[OF flight_proc[OF assms(1)] that(1)] that(2) by (auto simp: platform_parent_def fd_ok_def)
  then show ?thesis using False assms(1) TRY_DRV_op(2)[OF assms(1)] by (auto simp: path_call_def assms(3))
next
  case True
  show ?thesis
  proof (cases "vfsResolvePath E c fd path")
    case (Inl e)
    then show ?thesis using True assms(1) by (simp add: path_call_def)
  next
    case p: (Inr p)
    show ?thesis
    proof (cases "routeMatch c p")
      case (Inl e)
      then show ?thesis using True p assms(1) by (simp add: path_call_def)
    next
      case (Inr m)
      obtain ty drv sfx where m: "m = (ty, drv, sfx)" by (metis surj_pair)
      note r = route_type[OF flight_proc[OF assms(1)] Inr[unfolded m]]
      show ?thesis
      proof (cases "ty = VFS_TYPE_DRIVER")
        case td: True
        then obtain d where d: "drv = Some d" using r by auto
        show ?thesis using True p Inr m td d assms(1) drv_call_keeps[OF assms(1), of o' d]
          by (simp add: path_call_def assms(3))
      next
        case False
        then show ?thesis using True p Inr m r assms(1,2) by (auto simp: path_call_def)
      qed
    qed
  qed
qed

lemma VfsUnlink_keeps: "vfs_inv E c \<Longrightarrow> keeps E (VfsUnlink E c fd path)"
  unfolding VfsUnlink_def by (rule path_call_keeps) (auto intro: DevFs_UnlinkPath_keeps)

lemma VfsMkdir_keeps: "vfs_inv E c \<Longrightarrow> keeps E (VfsMkdir E c fd path)"
  unfolding VfsMkdir_def by (rule path_call_keeps) auto

lemma VfsRmdir_keeps: "vfs_inv E c \<Longrightarrow> keeps E (VfsRmdir E c fd path)"
  unfolding VfsRmdir_def by (rule path_call_keeps) auto

lemma VfsRename_keeps:
  assumes "vfs_inv E c"
  shows "keeps E (VfsRename E c a p b q)"
proof (cases "checkFd c a \<and> checkFd c b \<and> \<not> (platform_parent c a p \<and> platform_parent c b q)")
  case False
  have "f_driver (slot c a) \<noteq> None" if "checkFd c a" "platform_parent c a p"
    using check_slot(2)[OF flight_proc[OF assms(1)] that(1)] that(2) by (auto simp: platform_parent_def fd_ok_def)
  then show ?thesis using False assms(1) TRY_DRV_op(2)[OF assms(1)] by (auto simp: VfsRename_def Let_def)
next
  case True
  have d: "od \<noteq> None" if "routeMatch c r = Inr (VFS_TYPE_DRIVER, od, sf)" for r od sf
    using route_type[OF flight_proc[OF assms] that] by simp
  show ?thesis using True assms drv_call_keeps[OF assms]
    by (auto simp: VfsRename_def dest: d split: sum.split prod.split vfs_fd_type.split option.split)
qed

section \<open>Sockets\<close>

lemma VfsSockAccept_keeps:
  assumes "vfs_inv E c"
  shows "may_keep E (VfsSockAccept E c fd fl)" "\<not> ns_root (slot c fd) \<Longrightarrow> keeps E (VfsSockAccept E c fd fl)"
proof -
  have m: "keeps E (VfsSockAccept E c fd fl)" if "checkFd c fd" "f_type (slot c fd) = VFS_TYPE_NET" "f_ctx (slot c fd) = NetHandle h" "h_drv h = Some d" for h d
  proof (cases "NetFs_SockAccept E c h fl")
    case None
    then show ?thesis using accept_keeps[OF assms that(4), of fl] by (simp add: node_open_def)
  next
    case (Some x)
    obtain r c1 where x: "x = (r, c1)" by (cases x)
    show ?thesis
    proof (cases r)
      case (Inl e)
      then show ?thesis using that(1-3) Some x accept_keeps[OF assms that(4), of fl] by (simp add: node_open_def VfsSockAccept_def)
    next
      case (Inr nh)
      then have nh: "ns_ok nh" "flight E (handle_of nh) c1" using Some x accept_keeps[OF assms that(4), of fl] by (auto simp: node_open_def)
      show ?thesis
      proof (cases "findFirstClosedFd c1")
        case (Inl e)
        obtain r2 c2 where "DevFs_Close E c1 nh = Some (r2, c2)" "vfs_inv E c2" by (rule keepsE[OF node_close_keeps[OF nh(2,1)]])
        then show ?thesis using that(1-3) Some x Inr Inl by (simp add: VfsSockAccept_def NetFs_Close_DevFs)
      next
        case i: (Inr i)
        show ?thesis using that(1-3) Some x Inr i flight_install[OF nh(2) i] nh(1)
          by (simp add: VfsSockAccept_def fd_ok_def slot_held_def ctx_handle_def)
      qed
    qed
  qed
  have n: "keeps E (VfsSockAccept E c fd fl)" if "\<not> checkFd c fd \<or> f_type (slot c fd) \<noteq> VFS_TYPE_NET"
    using assms that by (cases "f_type (slot c fd)") (auto simp: VfsSockAccept_def)
  have h: "\<exists>h. f_ctx (slot c fd) = NetHandle h \<and> ns_ok h" if "checkFd c fd" "f_type (slot c fd) = VFS_TYPE_NET"
    using check_slot(2)[OF flight_proc[OF assms] that(1)] that(2) by (simp add: fd_ok_def)
  have z: "VfsSockAccept E c fd fl = None" if "checkFd c fd" "f_type (slot c fd) = VFS_TYPE_NET" "f_ctx (slot c fd) = NetHandle h" "h_drv h = None" for h
    using that by (simp add: VfsSockAccept_def NetFs_SockAccept_def TRY_DRV_def)
  show "may_keep E (VfsSockAccept E c fd fl)" using m n h z unfolding may_keep_def by (metis option.exhaust)
  show "keeps E (VfsSockAccept E c fd fl)" if "\<not> ns_root (slot c fd)"
    using m n h that by (cases "checkFd c fd \<and> f_type (slot c fd) = VFS_TYPE_NET") (auto simp: ns_root_def ns_ok_def)
qed

text \<open>The socket calls that only forward.\<close>

lemma sock_forward:
  fixes fd :: int
  assumes "vfs_inv E c" "\<And>h. F h = TRY_DRV E c (h_drv h) op (\<lambda>i. COp op' i (h_drv_fd h) a)"
  defines "x \<equiv> if \<not> checkFd c fd then Some (reply_err EBADF, c)
      else (case (f_type (slot c fd), f_ctx (slot c fd)) of (VFS_TYPE_NET, NetHandle h) \<Rightarrow> F h | _ \<Rightarrow> Some (reply_err ENOTSOCK, c))"
  shows "may_keep E x" "\<not> ns_root (slot c fd) \<Longrightarrow> keeps E x"
proof -
  have n: "keeps E x" if "\<not> checkFd c fd \<or> f_type (slot c fd) \<noteq> VFS_TYPE_NET"
    using assms(1) that by (cases "f_type (slot c fd)") (auto simp: x_def)
  have h: "\<exists>h. f_ctx (slot c fd) = NetHandle h \<and> ns_ok h \<and> x = F h" if "checkFd c fd" "f_type (slot c fd) = VFS_TYPE_NET"
    using check_slot(2)[OF flight_proc[OF assms(1)] that(1)] that by (auto simp: fd_ok_def x_def)
  show "may_keep E x" using n h forward_keeps(1)[OF assms(1)] assms(2) by (metis keeps_may)
  show "keeps E x" if "\<not> ns_root (slot c fd)"
    using n h forward_keeps(2)[OF assms(1)] assms(2) that
    by (cases "checkFd c fd \<and> f_type (slot c fd) = VFS_TYPE_NET") (auto simp: ns_root_def)
qed

lemma VfsSockRecv_keeps:
  assumes "vfs_inv E c"
  shows "may_keep E (VfsSockRecv E c fd n fl)" "\<not> ns_root (slot c fd) \<Longrightarrow> keeps E (VfsSockRecv E c fd n fl)"
  unfolding VfsSockRecv_def by (rule sock_forward[OF assms]; simp add: NetFs_SockRecv_def)+

lemma VfsSockSend_keeps:
  assumes "vfs_inv E c"
  shows "may_keep E (VfsSockSend E c fd bs fl)" "\<not> ns_root (slot c fd) \<Longrightarrow> keeps E (VfsSockSend E c fd bs fl)"
  unfolding VfsSockSend_def by (rule sock_forward[OF assms]; simp add: NetFs_SockSend_def)+

lemma VfsSockShutdown_keeps:
  assumes "vfs_inv E c"
  shows "may_keep E (VfsSockShutdown E c fd fl)" "\<not> ns_root (slot c fd) \<Longrightarrow> keeps E (VfsSockShutdown E c fd fl)"
  unfolding VfsSockShutdown_def by (rule sock_forward[OF assms]; simp add: NetFs_SockShutdown_def)+

section \<open>Setting up\<close>

lemma VfsInit_inv:
  assumes "VfsInit ok = Some c"
  shows "vfs_inv E c"
proof -
  have "f_type fd_zero = VFS_TYPE_NONE" by (simp add: fd_zero_def)
  moreover have "sum_list (replicate n {#}) = ({#} :: (nat \<times> int) multiset)" for n by (induction n) auto
  moreover have "v_fds c = replicate VFS_MAX_FDS fd_zero" "v_log c = []" "v_devfs c = []" "v_netfs c = []" "v_procfs c = []"
    "\<forall>m \<in> set (v_mounts c). mount_ok m" "map mt_prefix (v_mounts c) = [''/'', ''/dev'', ''/net'', ''/proc'']"
    using assms by (auto simp: VfsInit_def Let_def vfsMount_def vfs_zero_def mount_ok_def VFS_MAX_MOUNTS_def VFS_MOUNT_PREFIX_LEN_def
        split: if_splits)
  ultimately show ?thesis
    by (simp add: flight_def vfs_wf_def table_handles_def slot_held_zero fd_ok_def prefixes_ok_def ROOT_FD_def VFS_MAX_FDS_def)
qed

lemma VfsMountDriver_keeps:
  assumes "vfs_inv E c"
  shows "vfs_inv E (snd (VfsMountDriver c p d))"
proof (cases "p = [] \<or> hd p \<noteq> CHR ''/'' \<or> list_ex (\<lambda>m. strcmp (mt_prefix m) p = 0) (v_mounts c)")
  case False
  have "strcmp q q = 0" for q by (induction q) auto
  then have "p \<notin> mt_prefix ` set (v_mounts c)" using False by (auto simp: list_ex_iff)
  then show ?thesis using False assms
    by (auto simp: VfsMountDriver_def vfsMount_def flight_def vfs_wf_def table_handles_def mount_ok_def prefixes_ok_def)
qed (use assms in \<open>auto simp: VfsMountDriver_def\<close>)

lemma register_keeps:
  assumes "vfs_inv E c"
  shows "vfs_inv E (snd (DevFs_Register E c n d))" "vfs_inv E (snd (NetFs_Register E c n d))"
  using assms by (auto simp: DevFs_Register_def NetFs_Register_def flight_def vfs_wf_def table_handles_def)

lemma fd_ok_append: "fd_ok ps f \<Longrightarrow> fd_ok (ps @ qs) f"
  by (cases "f_type f") (auto simp: fd_ok_def proc_ok_def nth_append)

lemma procfs_keeps:
  assumes "vfs_inv E c" "pr_read e \<noteq> None \<or> pr_dir e \<noteq> None"
  shows "vfs_inv E (c\<lparr>v_procfs := v_procfs c @ [e]\<rparr>)"
  using assms by (auto simp: flight_def vfs_wf_def table_handles_def fd_ok_append)

lemma ProcFs_Register_keeps:
  assumes "vfs_inv E c"
  shows "vfs_inv E (snd (ProcFs_Register c n f p))" "vfs_inv E (snd (ProcFs_RegisterDir c n f p))"
  using assms by (auto simp: ProcFs_Register_def ProcFs_RegisterDir_def intro!: procfs_keeps split: sum.split)

lemma attach_keeps:
  assumes "vfs_inv E c"
  shows "vfs_inv E (VfsAttachTarfs c t)" "vfs_inv E (VfsSetPrivileged c p)" "vfs_inv E (VfsSetWakeFd c fd)"
  using assms by (auto simp: VfsAttachTarfs_def VfsSetPrivileged_def VfsSetWakeFd_def flight_def vfs_wf_def table_handles_def)

lemma VfsRegister_keeps:
  assumes "vfs_inv E c"
  shows "vfs_inv E (snd (VfsRegister E c path d))"
proof -
  have "vfs_inv E (set_fd c i (\<lambda>f. f\<lparr>f_type := VFS_TYPE_STREAM, f_driver := Some d, f_drv_fd := n, f_flags := fl\<rparr>))" if "i < ROOT_FD" for i n fl
  proof (rule flight_update[OF assms])
    show k: "i < VFS_MAX_FDS" using that by (simp add: ROOT_FD_def VFS_MAX_FDS_def)
    have "f_type (v_fds c ! i) \<in> {VFS_TYPE_NONE, VFS_TYPE_STREAM}" using assms that unfolding flight_def vfs_wf_def by blast
    then show "slot_held ((v_fds c ! i)\<lparr>f_type := VFS_TYPE_STREAM, f_driver := Some d, f_drv_fd := n, f_flags := fl\<rparr>) = slot_held (v_fds c ! i)"
      by (auto simp: slot_held_def)
  qed (auto simp: fd_ok_def)
  then show ?thesis using flight_quiet[OF assms opt_drv_COp(3)] by (auto simp: VfsRegister_def ROOT_FD_def)
qed

lemma VfsBindPlatformFd_keeps:
  assumes "vfs_inv E c"
  shows "vfs_inv E (snd (VfsBindPlatformFd c path d h ro))"
proof (cases "findFirstClosedFd c")
  case (Inl e)
  then show ?thesis using assms by (simp add: VfsBindPlatformFd_def)
next
  case (Inr i)
  let ?c1 = "c\<lparr>v_log := v_log c @ [(CBind d h, (reply_err EPERM)\<lparr>r_ret := Inr 0\<rparr>)]\<rparr>"
  let ?g = "\<lambda>f. f\<lparr>f_type := VFS_TYPE_PLATFORM, f_driver := Some d, f_drv_fd := h,
      f_flags := (if ro then VFS_O_RDONLY else VFS_O_RDWR) OR VFS_O_DIRECTORY, f_path := take (VFS_FD_PATH_LEN - 1) path\<rparr>"
  have f: "flight E {#(d, h)#} ?c1" using assms by (auto simp: flight_def table_handles_def)
  have i: "findFirstClosedFd ?c1 = Inr i" using Inr by (simp add: findFirstClosedFd_def)
  have "vfs_inv E (set_fd ?c1 i ?g)" by (rule flight_install[OF f i]) (simp_all add: fd_ok_def slot_held_def drv_handle_def)
  moreover have "snd (VfsBindPlatformFd c path d h ro) = set_fd ?c1 i ?g"
    by (rule vfs_ctx.equality) (simp_all add: VfsBindPlatformFd_def set_fd_def Inr)
  ultimately show ?thesis by simp
qed

end
