(* ===== verification/VfsTeardown.thy ===== *)
theory VfsTeardown
  imports VfsOps
begin

text \<open>
  \<open>VfsDestroy\<close>: it first closes every driver handle that the table of descriptors holds, and only then
  destroys the drivers that the file system owns, each once.
\<close>

section \<open>What a file system destroys\<close>

fun destroyed_by :: "vcall \<times> reply \<Rightarrow> nat multiset" where
  "destroyed_by (CDestroy d, r) = {#d#}"
| "destroyed_by (_, r) = {#}"

definition destroyed :: "vlog \<Rightarrow> nat multiset" where
  "destroyed xs = sum_list (map destroyed_by xs)"

lemma destroyed_append [simp]: "destroyed (xs @ ys) = destroyed xs + destroyed ys"
  and destroyed_Nil [simp]: "destroyed [] = {#}" and destroyed_one [simp]: "destroyed [x] = destroyed_by x"
  by (simp_all add: destroyed_def)

definition platform_drivers :: "vfs_fd list \<Rightarrow> nat list" where
  "platform_drivers fs = List.map_filter (\<lambda>f. if f_type f = VFS_TYPE_PLATFORM then f_driver f else None) fs"

definition stream_drivers :: "vfs_fd list \<Rightarrow> nat list" where
  "stream_drivers fs = List.map_filter (\<lambda>f. if f_type f = VFS_TYPE_STREAM then f_driver f else None) fs"

definition mount_drivers :: "vfs_mount list \<Rightarrow> nat list" where
  "mount_drivers ms = List.map_filter (\<lambda>m. if mt_type m = VFS_TYPE_DRIVER then mt_drv m else None) ms"

text \<open>The drivers that a file system owns: host slots share theirs, every other entry has its own.\<close>

definition owned :: "vfs_ctx \<Rightarrow> nat multiset" where
  "owned c = mset (remdups (platform_drivers (v_fds c))) + mset (mount_drivers (v_mounts c)) +
     mset (List.map_filter nd_drv (v_devfs c)) + mset (List.map_filter nd_drv (v_netfs c)) +
     mset (stream_drivers (take ROOT_FD (v_fds c)))"

definition destroyable :: "vfs_env \<Rightarrow> nat multiset \<Rightarrow> nat multiset" where
  "destroyable E M = filter_mset (\<lambda>d. dr_has (e_drv E d) OpDestroy) M"

lemma destroyable_simps [simp]: "destroyable E {#} = {#}" "destroyable E (M + N) = destroyable E M + destroyable E N"
  by (simp_all add: destroyable_def)

text \<open>What comes between two states: calls that destroy \<open>D\<close> and close \<open>H\<close>, and open nothing.\<close>

definition did :: "vfs_ctx \<Rightarrow> vfs_ctx \<Rightarrow> nat multiset \<Rightarrow> (nat \<times> int) multiset \<Rightarrow> bool" where
  "did c c' D H \<longleftrightarrow> (\<exists>xs. v_log c' = v_log c @ xs \<and> opened xs = {#} \<and> closed xs = H \<and> destroyed xs = D)"

lemma did_refl: "v_log c' = v_log c \<Longrightarrow> did c c' {#} {#}"
  by (auto simp: did_def)

lemma did_trans: "did c c1 D H \<Longrightarrow> did c1 c2 D' H' \<Longrightarrow> did c c2 (D + D') (H + H')"
  unfolding did_def by (elim exE conjE, rename_tac xs ys, rule_tac x = "xs @ ys" in exI) simp

lemma did_log: "v_log c1' = v_log c1 \<Longrightarrow> did c c1' D H = did c c1 D H"
  by (simp add: did_def)

lemma did_destroy: "did c (snd (opt_drv E c d OpDestroy CDestroy)) (destroyable E (mset (List.map_filter id [d]))) {#}"
  by (cases d) (auto simp: did_def opt_drv_def destroyable_def drv_call_def Let_def List.map_filter_simps)

lemma did_close:
  assumes "closable E"
  shows "did c (snd (opt_drv E c (Some d) OpClose (\<lambda>i. CClose i n))) {#} {#(d, n)#}"
  using assms by (auto simp: did_def opt_drv_def closable_def drv_call_def Let_def)

lemma did_std_close: "did c (snd (opt_drv E c d OpClose (\<lambda>i. CStdClose i n))) {#} {#}"
  by (cases d) (auto simp: did_def opt_drv_def drv_call_def Let_def)

lemma opt_drv_simps [simp]:
  "v_mounts (snd (opt_drv E c d op x)) = v_mounts c" "v_devfs (snd (opt_drv E c d op x)) = v_devfs c"
  "v_netfs (snd (opt_drv E c d op x)) = v_netfs c" "v_procfs (snd (opt_drv E c d op x)) = v_procfs c"
  by (auto simp: opt_drv_def drv_call_def Let_def split: option.splits)

lemma destroy_named_did: "did c (destroy_named E c es) (destroyable E (mset (List.map_filter nd_drv es))) {#} \<and>
    v_fds (destroy_named E c es) = v_fds c \<and> v_mounts (destroy_named E c es) = v_mounts c \<and>
    v_devfs (destroy_named E c es) = v_devfs c \<and> v_netfs (destroy_named E c es) = v_netfs c"
proof (induction es arbitrary: c)
  case Nil
  then show ?case by (simp add: did_refl List.map_filter_simps)
next
  case (Cons e es)
  have "mset (List.map_filter nd_drv (e # es)) = mset (List.map_filter id [nd_drv e]) + mset (List.map_filter nd_drv es)"
    by (cases "nd_drv e") (simp_all add: List.map_filter_simps)
  then show ?case using did_trans[OF did_destroy Cons.IH[THEN conjunct1]] Cons.IH by simp
qed

lemma destroy_mounts_did: "did c (destroy_mounts E c ms) (destroyable E (mset (mount_drivers ms))) {#} \<and>
    v_fds (destroy_mounts E c ms) = v_fds c \<and> v_devfs (destroy_mounts E c ms) = v_devfs c \<and> v_netfs (destroy_mounts E c ms) = v_netfs c"
proof (induction ms arbitrary: c)
  case Nil
  then show ?case by (simp add: did_refl mount_drivers_def List.map_filter_simps)
next
  case (Cons m ms)
  show ?case
  proof (cases "mt_type m = VFS_TYPE_DRIVER")
    case True
    then have "mset (mount_drivers (m # ms)) = mset (List.map_filter id [mt_drv m]) + mset (mount_drivers ms)"
      by (cases "mt_drv m") (simp_all add: mount_drivers_def List.map_filter_simps)
    then show ?thesis using True did_trans[OF did_destroy Cons.IH[THEN conjunct1]] Cons.IH by simp
  next
    case False
    then have "mount_drivers (m # ms) = mount_drivers ms" by (simp add: mount_drivers_def List.map_filter_simps)
    then show ?thesis using False Cons.IH by simp
  qed
qed

text \<open>The host slots: every handle is closed, then every driver is destroyed once.\<close>

lemma close_platform_did:
  assumes "closable E" "\<forall>i \<in> set is. f_type (v_fds c ! i) = VFS_TYPE_PLATFORM \<longrightarrow> f_driver (v_fds c ! i) \<noteq> None"
  shows "did c (close_platform E c is) {#} (sum_list (map (\<lambda>i. if f_type (v_fds c ! i) = VFS_TYPE_PLATFORM then drv_handle (v_fds c ! i) else {#}) is))"
  using assms(2)
proof (induction "is" arbitrary: c)
  case Nil
  then show ?case by (simp add: did_refl)
next
  case (Cons i "is")
  show ?case
  proof (cases "f_type (v_fds c ! i) = VFS_TYPE_PLATFORM")
    case True
    then obtain d where d: "f_driver (v_fds c ! i) = Some d" using Cons.prems by auto
    show ?thesis using True d Cons.prems
      did_trans[OF did_close[OF assms(1), of c d "f_drv_fd (v_fds c ! i)"] Cons.IH[of "snd (opt_drv E c (Some d) OpClose (\<lambda>j. CClose j (f_drv_fd (v_fds c ! i))))"]]
      by (simp add: drv_handle_def cong: if_cong)
  next
    case False
    then show ?thesis using Cons by simp
  qed
qed

lemma close_platform_tables [simp]:
  "v_fds (close_platform E c is) = v_fds c" "v_mounts (close_platform E c is) = v_mounts c"
  "v_devfs (close_platform E c is) = v_devfs c" "v_netfs (close_platform E c is) = v_netfs c"
  by (induction "is" arbitrary: c) (simp_all add: Let_def)

lemma clear_sharing_nth: "j < length (v_fds c) \<Longrightarrow> v_fds (clear_sharing c i d) ! j =
    (if i \<le> j \<and> f_type (v_fds c ! j) = VFS_TYPE_PLATFORM \<and> f_driver (v_fds c ! j) = Some d then clear_driver (v_fds c ! j) else v_fds c ! j)"
  by (simp add: clear_sharing_def Let_def)

lemma clear_sharing_simps [simp]: "length (v_fds (clear_sharing c i d)) = length (v_fds c)" "v_log (clear_sharing c i d) = v_log c"
  "v_mounts (clear_sharing c i d) = v_mounts c" "v_devfs (clear_sharing c i d) = v_devfs c" "v_netfs (clear_sharing c i d) = v_netfs c"
  by (simp_all add: clear_sharing_def)

lemma map_filter_id_map: "List.map_filter id (map g xs) = List.map_filter g xs"
  by (induction xs) (auto simp: List.map_filter_simps split: option.split)

lemma platform_drivers_set: "set (platform_drivers fs) = {d. \<exists>f \<in> set fs. f_type f = VFS_TYPE_PLATFORM \<and> f_driver f = Some d}"
  by (induction fs) (auto simp: platform_drivers_def List.map_filter_simps split: option.splits if_splits)

lemma platform_drivers_Cons: "platform_drivers (f # fs) =
    (if f_type f = VFS_TYPE_PLATFORM then (case f_driver f of None \<Rightarrow> platform_drivers fs | Some d \<Rightarrow> d # platform_drivers fs) else platform_drivers fs)"
  by (auto simp: platform_drivers_def List.map_filter_simps split: option.split)

lemma platform_drivers_clear:
  assumes "i \<le> length (v_fds c)"
  shows "platform_drivers (drop i (v_fds (clear_sharing c i d))) = filter (\<lambda>x. x \<noteq> d) (platform_drivers (drop i (v_fds c)))"
proof -
  let ?g = "\<lambda>f. if f_type f = VFS_TYPE_PLATFORM \<and> f_driver f = Some d then clear_driver f else f"
  have "drop i (v_fds (clear_sharing c i d)) = map ?g (drop i (v_fds c))"
    by (rule nth_equalityI) (use assms in \<open>auto simp: clear_sharing_nth\<close>)
  moreover have "platform_drivers (map ?g fs) = filter (\<lambda>x. x \<noteq> d) (platform_drivers fs)" for fs
    by (induction fs) (auto simp: platform_drivers_Cons clear_driver_def platform_drivers_def List.map_filter_simps split: option.splits)
  ultimately show ?thesis by simp
qed

lemma clear_stream: "stream_drivers (take n (v_fds (clear_sharing c i d))) = stream_drivers (take n (v_fds c))"
proof -
  let ?g = "\<lambda>j. let f = v_fds c ! j in if i \<le> j \<and> f_type f = VFS_TYPE_PLATFORM \<and> f_driver f = Some d then clear_driver f else f"
  have "stream_drivers (map ?g js) = stream_drivers (map (\<lambda>j. v_fds c ! j) js)" for js
    by (induction js) (auto simp: stream_drivers_def List.map_filter_simps Let_def clear_driver_def split: option.split)
  from this[of "take n [0..<length (v_fds c)]"] show ?thesis by (simp add: clear_sharing_def take_map[symmetric] map_nth)
qed

lemma mset_remdups_set: "mset (remdups xs) = mset_set (set xs)"
  by (metis distinct_remdups mset_set_set set_remdups)

lemma mset_remdups_filter: "mset (remdups (d # xs)) = add_mset d (mset (remdups (filter (\<lambda>x. x \<noteq> d) xs)))"
proof -
  have "mset_set (insert d (set xs)) = mset_set (insert d (set xs - {d}))" by simp
  also have "\<dots> = add_mset d (mset_set (set xs - {d}))" by (subst mset_set.insert) auto
  also have "set xs - {d} = set (filter (\<lambda>x. x \<noteq> d) xs)" by auto
  finally show ?thesis unfolding mset_remdups_set by simp
qed

lemma destroy_platform_did:
  assumes "length (v_fds c) = n" "i \<le> n"
  shows "did c (destroy_platform E c [i..<n]) (destroyable E (mset (remdups (platform_drivers (drop i (v_fds c)))))) {#} \<and>
    (\<forall>k. stream_drivers (take k (v_fds (destroy_platform E c [i..<n]))) = stream_drivers (take k (v_fds c))) \<and>
    v_mounts (destroy_platform E c [i..<n]) = v_mounts c \<and> v_devfs (destroy_platform E c [i..<n]) = v_devfs c \<and>
    v_netfs (destroy_platform E c [i..<n]) = v_netfs c"
  using assms
proof (induction "n - i" arbitrary: i c)
  case 0
  then show ?case by (simp add: did_refl platform_drivers_def List.map_filter_simps)
next
  case (Suc k)
  then have i: "i < n" "[i..<n] = i # [Suc i..<n]" by (simp_all add: upt_conv_Cons)
  then have dr: "drop i (v_fds c) = v_fds c ! i # drop (Suc i) (v_fds c)" using Suc.prems by (simp add: Cons_nth_drop_Suc)
  show ?case
  proof (cases "f_type (v_fds c ! i) = VFS_TYPE_PLATFORM")
    case False
    then show ?thesis using Suc.hyps(1)[of "Suc i" c] Suc.hyps(2) Suc.prems i dr by (simp add: platform_drivers_Cons Let_def)
  next
    case p: True
    show ?thesis
    proof (cases "f_driver (v_fds c ! i)")
      case None
      let ?c = "set_fd c i (\<lambda>f. f\<lparr>f_type := VFS_TYPE_NONE\<rparr>)"
      have s: "stream_drivers (take k (v_fds ?c)) = stream_drivers (take k (v_fds c))" for k
      proof -
        have "stream_drivers (fs[j := f\<lparr>f_type := VFS_TYPE_NONE\<rparr>]) = stream_drivers fs"
          if "f_type (fs ! j) = VFS_TYPE_PLATFORM" for fs :: "vfs_fd list" and j f
          using that by (induction fs arbitrary: j) (auto simp: stream_drivers_def List.map_filter_simps split: nat.split option.split)
        from this[of "take k (v_fds c)" i "v_fds c ! i"] show ?thesis using p i Suc.prems
          by (cases "i < k") (simp_all add: set_fd_def take_update_swap list_update_beyond)
      qed
      have "did c (destroy_platform E ?c [Suc i..<n]) D {#} = did ?c (destroy_platform E ?c [Suc i..<n]) D {#}" for D
        by (simp add: did_def)
      moreover have "drop (Suc i) (v_fds ?c) = drop (Suc i) (v_fds c)" by (simp add: set_fd_def)
      ultimately show ?thesis using None p Suc.hyps(1)[of "Suc i" ?c] Suc.hyps(2) Suc.prems i dr s
        by (simp add: platform_drivers_Cons Let_def)
    next
      case (Some d)
      let ?c = "clear_sharing c i d"
      let ?c1 = "snd (opt_drv E ?c (Some d) OpDestroy CDestroy)"
      have "drop i (v_fds ?c) = v_fds ?c ! i # drop (Suc i) (v_fds ?c)" using i Suc.prems by (simp add: Cons_nth_drop_Suc)
      then have "platform_drivers (drop (Suc i) (v_fds ?c)) = filter (\<lambda>x. x \<noteq> d) (platform_drivers (drop i (v_fds c)))"
        using platform_drivers_clear[of i c d] i Suc.prems Some p by (simp add: platform_drivers_Cons clear_sharing_nth clear_driver_def)
      then have m: "mset (remdups (platform_drivers (drop i (v_fds c)))) =
          mset (List.map_filter id [Some d]) + mset (remdups (platform_drivers (drop (Suc i) (v_fds ?c))))"
        unfolding dr using p Some mset_remdups_filter[of d "platform_drivers (drop (Suc i) (v_fds c))"]
        by (simp add: platform_drivers_Cons List.map_filter_simps)
      note ih = Suc.hyps(1)[of "Suc i" ?c1]
      have "did ?c (destroy_platform E ?c1 [Suc i..<n]) (destroyable E (mset (remdups (platform_drivers (drop i (v_fds c)))))) {#}"
        unfolding m destroyable_simps using did_trans[OF did_destroy[of ?c E "Some d"] ih[THEN conjunct1]] Suc.hyps(2) Suc.prems i by simp
      then have "did c (destroy_platform E ?c1 [Suc i..<n]) (destroyable E (mset (remdups (platform_drivers (drop i (v_fds c)))))) {#}"
        by (simp add: did_def)
      then show ?thesis using p Some ih Suc.hyps(2) Suc.prems i clear_stream by (simp add: Let_def)
    qed
  qed
qed

lemma destroy_platform_length: "length (v_fds (destroy_platform E c is)) = length (v_fds c)"
  by (induction "is" arbitrary: c) (simp_all add: Let_def split: option.split)

text \<open>The first pass of \<open>VfsDestroy\<close>, which closes every slot that is not a console or a host one.\<close>

definition leftover :: "vfs_fd \<Rightarrow> bool" where
  "leftover f \<longleftrightarrow> f_type f \<in> {VFS_TYPE_NONE, VFS_TYPE_STREAM, VFS_TYPE_PLATFORM, VFS_TYPE_MOUNTDIR}"

definition typed_step :: "vfs_ctx \<Rightarrow> vfs_ctx \<Rightarrow> bool" where
  "typed_step c c' \<longleftrightarrow> length (v_fds c') = length (v_fds c) \<and>
     (\<forall>j. leftover (v_fds c ! j) \<longrightarrow> v_fds c' ! j = v_fds c ! j) \<and> (\<forall>j. v_fds c' ! j = v_fds c ! j \<or> f_type (v_fds c' ! j) = VFS_TYPE_NONE) \<and>
     v_mounts c' = v_mounts c \<and> v_devfs c' = v_devfs c \<and> v_netfs c' = v_netfs c \<and>
     (\<exists>xs. v_log c' = v_log c @ xs \<and> opened xs = {#} \<and> destroyed xs = {#})"

lemma typed_step_refl: "typed_step c c"
  by (simp add: typed_step_def)

lemma typed_step_trans:
  assumes "typed_step c c1" "typed_step c1 c2"
  shows "typed_step c c2"
proof -
  obtain xs ys where "v_log c1 = v_log c @ xs" "opened xs = {#}" "destroyed xs = {#}" "v_log c2 = v_log c1 @ ys" "opened ys = {#}" "destroyed ys = {#}"
    using assms by (auto simp: typed_step_def)
  then have "\<exists>xs. v_log c2 = v_log c @ xs \<and> opened xs = {#} \<and> destroyed xs = {#}" by (intro exI[of _ "xs @ ys"]) simp
  then show ?thesis using assms unfolding typed_step_def by auto metis
qed

lemma opt_close_step: "typed_step c (snd (opt_drv E c d OpClose (\<lambda>i. CClose i n)))"
  by (cases d) (auto simp: typed_step_def opt_drv_def drv_call_def Let_def)

lemma TRY_close_step: "TRY_DRV E c d OpClose (\<lambda>i. CClose i n) = Some (r, c1) \<Longrightarrow> typed_step c c1"
  using opt_close_step[of c E d n] TRY_DRV_Close[of E c _ "\<lambda>i. CClose i n" r c1] by (cases d) (auto simp: TRY_DRV_def split: if_splits)

lemma close_handle_step: "close_handle E c h = Some (r, c1) \<Longrightarrow> typed_step c c1"
  by (cases h) (auto simp: close_handle_def DevFs_Close_def NetFs_Close_def typed_step_refl TRY_close_step split: if_splits option.splits)

lemma clear_step:
  assumes "i < length (v_fds c)" "\<not> leftover (v_fds c ! i)" "f_type (g (v_fds c ! i)) = VFS_TYPE_NONE"
  shows "typed_step c (set_fd c i g)"
  using assms by (auto simp: typed_step_def set_fd_nth)

lemma destroy_typed_ok:
  assumes "vfs_inv E c" "\<forall>i \<in> set is. i < VFS_MAX_FDS"
  shows "\<exists>c'. destroy_typed E c is = Some c' \<and> vfs_inv E c' \<and> typed_step c c' \<and> (\<forall>i \<in> set is. leftover (v_fds c' ! i))"
  using assms
proof (induction "is" arbitrary: c)
  case Nil
  then show ?case by (simp add: typed_step_refl)
next
  case (Cons i "is")
  let ?f = "v_fds c ! i"
  have i: "i < VFS_MAX_FDS" "i < length (v_fds c)" using Cons.prems by (auto simp: flight_def vfs_wf_def)
  have go: "\<exists>c'. destroy_typed E c1 is = Some c' \<and> vfs_inv E c' \<and> typed_step c c' \<and> (\<forall>i \<in> set (i # is). leftover (v_fds c' ! i))"
    if "vfs_inv E c1" "typed_step c c1" "leftover (v_fds c1 ! i)" for c1
  proof -
    note h = that
    obtain c' where c': "destroy_typed E c1 is = Some c'" "vfs_inv E c'" "typed_step c1 c'" "\<forall>i \<in> set is. leftover (v_fds c' ! i)"
      using Cons.IH[OF h(1)] Cons.prems(2) by auto
    moreover have "leftover (v_fds c' ! i)" using c'(3) h(3) by (auto simp: typed_step_def)
    ultimately show ?thesis using typed_step_trans[OF h(2) c'(3)] by auto
  qed
  consider "leftover ?f" | "f_type ?f = VFS_TYPE_DRIVER" | "f_type ?f \<in> {VFS_TYPE_TARFS, VFS_TYPE_DEV, VFS_TYPE_NET, VFS_TYPE_PROC}"
    by (cases "f_type ?f") (auto simp: leftover_def)
  then show ?case
  proof cases
    case 1
    then have "destroy_typed E c (i # is) = destroy_typed E c is" by (auto simp: leftover_def Let_def)
    then show ?thesis using go[OF Cons.prems(1) typed_step_refl 1] by simp
  next
    case 2
    let ?c1 = "snd (opt_drv E c (f_driver ?f) OpClose (\<lambda>d. CClose d (f_drv_fd ?f)))"
    have "vfs_inv E (set_fd ?c1 i clear_driver)" using close_driver_slot[OF Cons.prems(1) i(1)] 2 by simp
    moreover have "typed_step c (set_fd ?c1 i clear_driver)" 
      by (rule typed_step_trans[OF opt_close_step clear_step]) (use i(2) 2 in \<open>auto simp: leftover_def clear_driver_def\<close>)
    moreover have "leftover (v_fds (set_fd ?c1 i clear_driver) ! i)" using i by (simp add: set_fd_nth leftover_def clear_driver_def)
    ultimately show ?thesis using go[of "set_fd ?c1 i clear_driver"] 2 by (simp add: Let_def)
  next
    case 3
    obtain r c1 where c1: "close_handle E c (f_ctx ?f) = Some (r, c1)" "v_fds c1 = v_fds c" "vfs_inv E (set_fd c1 i clear_handle)"
      using close_handle_slot[OF Cons.prems(1) i(1) 3] by auto
    have "typed_step c (set_fd c1 i clear_handle)" 
      by (rule typed_step_trans[OF close_handle_step[OF c1(1)] clear_step])
         (use i(2) 3 c1(2) in \<open>auto simp: leftover_def clear_handle_def\<close>)
    moreover have "leftover (v_fds (set_fd c1 i clear_handle) ! i)" using i c1(2) by (simp add: set_fd_nth leftover_def clear_handle_def)
    ultimately show ?thesis using go[of "set_fd c1 i clear_handle"] 3 c1 by (auto simp: Let_def)
  qed
qed

text \<open>What is left of the table holds the handles of the host slots, and no driver was lost.\<close>

lemma stream_drivers_step:
  assumes "typed_step c c'" "\<forall>i < n. f_type (v_fds c ! i) \<in> {VFS_TYPE_NONE, VFS_TYPE_STREAM}" "n \<le> length (v_fds c)"
  shows "take n (v_fds c') = take n (v_fds c)"
  using assms by (intro nth_equalityI) (auto simp: typed_step_def leftover_def)

lemma platform_drivers_step:
  assumes "typed_step c c'" "\<forall>i < length (v_fds c). leftover (v_fds c' ! i)"
  shows "platform_drivers (v_fds c') = platform_drivers (v_fds c)"
proof -
  have l: "length (v_fds c') = length (v_fds c)" using assms(1) by (simp add: typed_step_def)
  have s: "f_type (v_fds c' ! j) = VFS_TYPE_PLATFORM \<longleftrightarrow> f_type (v_fds c ! j) = VFS_TYPE_PLATFORM"
    "f_type (v_fds c ! j) = VFS_TYPE_PLATFORM \<Longrightarrow> v_fds c' ! j = v_fds c ! j" for j
    using assms(1) unfolding typed_step_def by (metis (no_types, lifting) leftover_def insertI1 insertI2 vfs_fd_type.simps(12))+
  let ?g = "\<lambda>f. if f_type f = VFS_TYPE_PLATFORM then f_driver f else None"
  have "map ?g (v_fds c') = map ?g (v_fds c)" by (rule nth_equalityI) (use l s in auto)
  then show ?thesis using map_filter_id_map[of ?g "v_fds c"] map_filter_id_map[of ?g "v_fds c'"] by (simp add: platform_drivers_def)
qed

lemma destroyStreamFd_did:
  assumes "i < length (v_fds c)"
  shows "did c (destroyStreamFd E c i) (destroyable E (mset (stream_drivers [v_fds c ! i]))) {#}"
    "length (v_fds (destroyStreamFd E c i)) = length (v_fds c)" "j \<noteq> i \<Longrightarrow> v_fds (destroyStreamFd E c i) ! j = v_fds c ! j"
proof -
  let ?f = "v_fds c ! i"
  let ?c1 = "snd (opt_drv E c (f_driver ?f) OpClose (\<lambda>d. CStdClose d (f_drv_fd ?f)))"
  have "did c (snd (opt_drv E ?c1 (f_driver ?f) OpDestroy CDestroy)) (destroyable E (mset (List.map_filter id [f_driver ?f]))) {#}"
    using did_trans[OF did_std_close did_destroy] by simp
  then show "did c (destroyStreamFd E c i) (destroyable E (mset (stream_drivers [v_fds c ! i]))) {#}"
    by (auto simp: destroyStreamFd_def Let_def did_refl did_def stream_drivers_def List.map_filter_simps split: option.splits)
qed (use assms in \<open>auto simp: destroyStreamFd_def Let_def set_fd_nth\<close>)

lemma destroy_streams_did:
  assumes "length (v_fds c) = VFS_MAX_FDS"
  shows "did c (destroyStreamFd E (destroyStreamFd E (destroyStreamFd E c 2) 1) 0) (destroyable E (mset (stream_drivers (take ROOT_FD (v_fds c))))) {#}"
proof -
  let ?c2 = "destroyStreamFd E c 2" let ?c1 = "destroyStreamFd E ?c2 1"
  have l: "i < length (v_fds c)" if "i \<le> 2" for i using that assms by (simp add: VFS_MAX_FDS_def)
  have s: "length (v_fds ?c2) = length (v_fds c)" "length (v_fds ?c1) = length (v_fds c)"
    "v_fds ?c2 ! 1 = v_fds c ! 1" "v_fds ?c1 ! 0 = v_fds c ! 0"
    using l destroyStreamFd_did(2,3) by auto
  have "take ROOT_FD (v_fds c) = [v_fds c ! 0, v_fds c ! 1, v_fds c ! 2]"
    using l[of 0] l[of 1] l[of 2] by (simp add: ROOT_FD_def take_Suc_conv_app_nth numeral_3_eq_3 numeral_2_eq_2)
  moreover have "mset (stream_drivers [x, y, z]) = mset (stream_drivers [z]) + mset (stream_drivers [y]) + mset (stream_drivers [x])" for x y z
    by (auto simp: stream_drivers_def List.map_filter_simps split: option.split)
  moreover have "did c (destroyStreamFd E ?c1 0) (destroyable E (mset (stream_drivers [v_fds c ! 2])) +
      destroyable E (mset (stream_drivers [v_fds c ! 1])) + destroyable E (mset (stream_drivers [v_fds c ! 0]))) {#}"
    using did_trans[OF did_trans[OF destroyStreamFd_did(1)[of 2 c E] destroyStreamFd_did(1)[of 1 ?c2 E]] destroyStreamFd_did(1)[of 0 ?c1 E]] l s
    by (simp del: length_greater_0_conv)
  ultimately show ?thesis by simp
qed

text \<open>After the passes on the table: every driver that is left is destroyed, and nothing is closed any more.\<close>

definition finish :: "vfs_env \<Rightarrow> vfs_ctx \<Rightarrow> vfs_ctx" where
  "finish E c = (let c2 = ProcFs_Destroy (NetFs_Destroy E (DevFs_Destroy E (destroyMountDrivers E c)))
     in destroyStreamFd E (destroyStreamFd E (destroyStreamFd E c2 2) 1) 0)"

lemma finish_did:
  assumes "length (v_fds c) = VFS_MAX_FDS"
  shows "did c (finish E c) (destroyable E (mset (mount_drivers (v_mounts c)) + mset (List.map_filter nd_drv (v_devfs c)) +
    mset (List.map_filter nd_drv (v_netfs c)) + mset (stream_drivers (take ROOT_FD (v_fds c))))) {#}"
proof -
  let ?m = "destroyMountDrivers E c" let ?d = "DevFs_Destroy E ?m" let ?n = "NetFs_Destroy E ?d" let ?p = "ProcFs_Destroy ?n"
  note m = destroy_mounts_did[of c E "v_mounts c"]
  note d = destroy_named_did[of ?m E "v_devfs ?m"]
  note n = destroy_named_did[of ?d E "v_netfs ?d"]
  have 1: "did c ?m (destroyable E (mset (mount_drivers (v_mounts c)))) {#}" using m by (simp add: destroyMountDrivers_def did_def)
  have 2: "did ?m ?d (destroyable E (mset (List.map_filter nd_drv (v_devfs c)))) {#}"
    using d m by (simp add: DevFs_Destroy_def destroyMountDrivers_def did_def)
  have 3: "did ?d ?p (destroyable E (mset (List.map_filter nd_drv (v_netfs c)))) {#}"
    using n d m by (simp add: DevFs_Destroy_def NetFs_Destroy_def ProcFs_Destroy_def destroyMountDrivers_def did_def)
  have v: "v_fds ?p = v_fds c"
    using n d m by (simp add: DevFs_Destroy_def NetFs_Destroy_def ProcFs_Destroy_def destroyMountDrivers_def)
  have 4: "did ?p (finish E c) (destroyable E (mset (stream_drivers (take ROOT_FD (v_fds c))))) {#}"
    using destroy_streams_did[of ?p E] assms v by (simp add: finish_def Let_def)
  show ?thesis using did_trans[OF did_trans[OF did_trans[OF 1 2] 3] 4] by simp
qed

lemma leftover_table:
  assumes "length (v_fds c) = n" "\<forall>i < n. leftover (v_fds c ! i)"
  shows "table_handles c = sum_list (map (\<lambda>i. if f_type (v_fds c ! i) = VFS_TYPE_PLATFORM then drv_handle (v_fds c ! i) else {#}) [0..<n])"
proof -
  have "slot_held (v_fds c ! i) = (if f_type (v_fds c ! i) = VFS_TYPE_PLATFORM then drv_handle (v_fds c ! i) else {#})" if "i < n" for i
    using assms(2) that by (auto simp: leftover_def slot_held_def)
  then have "map slot_held (v_fds c) =
      map (\<lambda>i. if f_type (v_fds c ! i) = VFS_TYPE_PLATFORM then drv_handle (v_fds c ! i) else {#}) [0..<n]"
    using assms(1) by (intro nth_equalityI) auto
  then show ?thesis unfolding table_handles_def by (rule arg_cong)
qed

lemma VfsDestroy_full:
  assumes "vfs_inv E c" "closable E"
  shows "\<exists>c' xs ys. VfsDestroy E c = Some c' \<and> v_log c' = v_log c @ xs @ ys \<and>
    opened xs = {#} \<and> closed xs = table_handles c \<and> destroyed xs = {#} \<and>
    opened ys = {#} \<and> closed ys = {#} \<and> destroyed ys = destroyable E (owned c)"
proof -
  have w: "length (v_fds c) = VFS_MAX_FDS" using assms(1) by (simp add: flight_def vfs_wf_def)
  obtain c1 where c1: "destroy_typed E c [0..<VFS_MAX_FDS] = Some c1" "vfs_inv E c1" "typed_step c c1" "\<forall>i < VFS_MAX_FDS. leftover (v_fds c1 ! i)"
    using destroy_typed_ok[OF assms(1), of "[0..<VFS_MAX_FDS]"] by auto
  have w1: "length (v_fds c1) = VFS_MAX_FDS" "\<forall>i < VFS_MAX_FDS. fd_ok (v_procfs c1) (v_fds c1 ! i)" using c1(2) by (auto simp: flight_def vfs_wf_def)
  obtain xs where xs: "v_log c1 = v_log c @ xs" "opened xs = {#}" "destroyed xs = {#}" using c1(3) by (auto simp: typed_step_def)
  let ?c2 = "close_platform E c1 [0..<VFS_MAX_FDS]"
  have "did c1 ?c2 {#} (table_handles c1)" unfolding leftover_table[OF w1(1) c1(4)]
    by (rule close_platform_did[OF assms(2)]) (use w1(2) in \<open>auto simp: fd_ok_def\<close>)
  then obtain ys where ys: "v_log ?c2 = v_log c1 @ ys" "opened ys = {#}" "destroyed ys = {#}" "closed ys = table_handles c1" by (auto simp: did_def)
  let ?c3 = "destroy_platform E ?c2 [0..<VFS_MAX_FDS]"
  note p = destroy_platform_did[of ?c2 VFS_MAX_FDS 0 E]
  have t: "take ROOT_FD (v_fds c1) = take ROOT_FD (v_fds c)"
    using assms(1) w by (intro stream_drivers_step[OF c1(3)]) (auto simp: flight_def vfs_wf_def ROOT_FD_def VFS_MAX_FDS_def)
  have pd: "platform_drivers (v_fds c1) = platform_drivers (v_fds c)" using platform_drivers_step[OF c1(3)] c1(4) w by simp
  have tb: "v_mounts c1 = v_mounts c" "v_devfs c1 = v_devfs c" "v_netfs c1 = v_netfs c" using c1(3) by (auto simp: typed_step_def)
  have l3: "length (v_fds ?c3) = VFS_MAX_FDS" using w1(1) destroy_platform_length[of E ?c2] by simp
  have "did ?c2 (finish E ?c3) (destroyable E (owned c)) {#}"
    using did_trans[OF p[THEN conjunct1] finish_did[OF l3]] p w1(1) t pd tb by (simp add: owned_def add.assoc)
  then obtain zs where zs: "v_log (finish E ?c3) = v_log ?c2 @ zs" "opened zs = {#}" "closed zs = {#}" "destroyed zs = destroyable E (owned c)"
    by (auto simp: did_def)
  have b: "opened (v_log c) = closed (v_log c) + table_handles c" "opened (v_log c1) = closed (v_log c1) + table_handles c1"
    using assms c1(2) by (simp_all add: flight_def)
  have "closed xs + closed ys = table_handles c" using b xs(1,2) ys(4) by (simp add: add.assoc)
  moreover have "VfsDestroy E c = Some ((finish E ?c3)\<lparr>v_wake_fd := -1, v_tarfs := None\<rparr>)"
    using c1(1) by (simp add: VfsDestroy_def destroyTypedFds_def destroyPlatformFds_def finish_def Let_def)
  ultimately show ?thesis using xs ys zs by (intro exI[of _ "(finish E ?c3)\<lparr>v_wake_fd := -1, v_tarfs := None\<rparr>"] exI[of _ "xs @ ys"] exI[of _ zs]) simp
qed

end
