(* ===== verification/VfsLife.thy ===== *)
theory VfsLife
  imports VfsTeardown "HOL-Library.Sublist"
begin

text \<open>
  The life of a file system: sequences of calls, and what holds in every state they reach.  A path is
  routed to the mount with the longest prefix; a null driver is followed exactly on the roots of
  \<open>/dev\<close> and \<open>/net\<close>; no path that leaves the file system climbs; and every handle is given back.
\<close>

section \<open>The life of a file system\<close>

text \<open>
  A step is one call on the file system: a registration by the engine, or a call that a wapp makes.
  A call that follows a null driver has no step.
\<close>

inductive vfs_step :: "vfs_env \<Rightarrow> vfs_ctx \<Rightarrow> vfs_ctx \<Rightarrow> bool" for E :: vfs_env where
  set_privileged: "vfs_step E c (VfsSetPrivileged c p)"
| set_wake: "vfs_step E c (VfsSetWakeFd c fd)"
| attach: "vfs_step E c (VfsAttachTarfs c t)"
| mount: "vfs_step E c (snd (VfsMountDriver c p d))"
| register: "vfs_step E c (snd (VfsRegister E c p d))"
| bind: "vfs_step E c (snd (VfsBindPlatformFd c p d h ro))"
| dev_register: "vfs_step E c (snd (DevFs_Register E c nm d))"
| net_register: "vfs_step E c (snd (NetFs_Register E c nm d))"
| proc_register: "vfs_step E c (snd (ProcFs_Register c nm k pv))"
| proc_register_dir: "vfs_step E c (snd (ProcFs_RegisterDir c nm k pv))"
| open_path: "VfsOpen E c p fl = Some (r, c') \<Longrightarrow> vfs_step E c c'"
| open_at: "VfsOpenAt E c fd p fl = Some (r, c') \<Longrightarrow> vfs_step E c c'"
| close: "VfsClose E c fd = Some (r, c') \<Longrightarrow> vfs_step E c c'"
| stat: "VfsStat E c fd = Some (st, c') \<Longrightarrow> vfs_step E c c'"
| stat_at: "VfsStatAt E c fd p = Some (st, c') \<Longrightarrow> vfs_step E c c'"
| stat_set: "VfsStatSet E c fd st = Some (rp, c') \<Longrightarrow> vfs_step E c c'"
| read_fd: "VfsRead E c fd n = Some (bs, c') \<Longrightarrow> vfs_step E c c'"
| write_fd: "VfsWrite E c fd data = Some (r, c') \<Longrightarrow> vfs_step E c c'"
| seek: "VfsSeek E c fd off wh = Some (q, c') \<Longrightarrow> vfs_step E c c'"
| tell: "VfsTell E c fd = Some (q, c') \<Longrightarrow> vfs_step E c c'"
| pread: "VfsPread E c fd n o64 = Some (bs, c') \<Longrightarrow> vfs_step E c c'"
| pwrite: "VfsPwrite E c fd data o64 = Some (r, c') \<Longrightarrow> vfs_step E c c'"
| sync: "vfs_step E c (snd (VfsSync E c fd))"
| truncate: "vfs_step E c (snd (VfsTruncate E c fd sz))"
| set_flags: "vfs_step E c (snd (VfsSetFlags E c fd fl))"
| renumber: "VfsRenumber E c fd fd2 = Some (r, c') \<Longrightarrow> vfs_step E c c'"
| poll: "VfsPoll E c fd = Some (r, av, c') \<Longrightarrow> vfs_step E c c'"
| readdir: "VfsReadDir E c fd n ck = Some (dr, c') \<Longrightarrow> vfs_step E c c'"
| unlink: "VfsUnlink E c fd p = Some (rp, c') \<Longrightarrow> vfs_step E c c'"
| mkdir: "VfsMkdir E c fd p = Some (rp, c') \<Longrightarrow> vfs_step E c c'"
| rmdir: "VfsRmdir E c fd p = Some (rp, c') \<Longrightarrow> vfs_step E c c'"
| rename: "VfsRename E c fd p fd2 p2 = Some (rp, c') \<Longrightarrow> vfs_step E c c'"
| sock_accept: "VfsSockAccept E c fd fl = Some (r, c') \<Longrightarrow> vfs_step E c c'"
| sock_recv: "VfsSockRecv E c fd n sf = Some (rp, c') \<Longrightarrow> vfs_step E c c'"
| sock_send: "VfsSockSend E c fd data sf = Some (rp, c') \<Longrightarrow> vfs_step E c c'"
| sock_shutdown: "VfsSockShutdown E c fd sf = Some (rp, c') \<Longrightarrow> vfs_step E c c'"

inductive vfs_run :: "vfs_env \<Rightarrow> vfs_ctx \<Rightarrow> bool" for E :: vfs_env where
  start: "VfsInit True = Some c \<Longrightarrow> vfs_run E c"
| step: "vfs_run E c \<Longrightarrow> vfs_step E c c' \<Longrightarrow> vfs_run E c'"

lemma keeps_step: "keeps E x \<Longrightarrow> x = Some (r, c') \<Longrightarrow> vfs_inv E c'"
  and may_keep_step: "may_keep E x \<Longrightarrow> x = Some (r, c') \<Longrightarrow> vfs_inv E c'"
  by auto

lemmas setup_keeps = attach_keeps VfsMountDriver_keeps VfsRegister_keeps VfsBindPlatformFd_keeps register_keeps ProcFs_Register_keeps
  VfsSync_keeps VfsTruncate_keeps VfsSetFlags_keeps

lemmas call_keeps = VfsOpen_keeps VfsOpenAt_keeps VfsClose_keeps VfsStat_keeps VfsStatAt_keeps VfsRenumber_keeps VfsReadDir_keeps
  VfsUnlink_keeps VfsMkdir_keeps VfsRmdir_keeps VfsRename_keeps

lemmas call_may_keep = VfsRead_keeps(1) VfsWrite_keeps[THEN conjunct1] VfsStatSet_keeps[THEN conjunct1] VfsSeek_keeps(1) VfsTell_keeps
  VfsPread_keeps VfsPwrite_keeps VfsSockAccept_keeps(1) VfsSockRecv_keeps(1) VfsSockSend_keeps(1) VfsSockShutdown_keeps(1)

lemma vfs_step_inv:
  assumes "vfs_step E c c'" "vfs_inv E c"
  shows "vfs_inv E c'"
  using assms
proof cases
  case (poll fd r av)
  then show ?thesis using VfsPoll_keeps[OF assms(2), of fd] by auto
qed (use assms(2) in \<open>auto intro: setup_keeps keeps_step[OF call_keeps(1)] keeps_step[OF call_keeps(2)] keeps_step[OF call_keeps(3)]
    keeps_step[OF call_keeps(4)] keeps_step[OF call_keeps(5)] keeps_step[OF call_keeps(6)] keeps_step[OF call_keeps(7)]
    keeps_step[OF call_keeps(8)] keeps_step[OF call_keeps(9)] keeps_step[OF call_keeps(10)] keeps_step[OF call_keeps(11)]
    may_keep_step[OF call_may_keep(1)] may_keep_step[OF call_may_keep(2)] may_keep_step[OF call_may_keep(3)]
    may_keep_step[OF call_may_keep(4)] may_keep_step[OF call_may_keep(5)] may_keep_step[OF call_may_keep(6)]
    may_keep_step[OF call_may_keep(7)] may_keep_step[OF call_may_keep(8)] may_keep_step[OF call_may_keep(9)]
    may_keep_step[OF call_may_keep(10)] may_keep_step[OF call_may_keep(11)]\<close>)

lemma vfs_run_inv: "vfs_run E c \<Longrightarrow> vfs_inv E c"
  by (induction rule: vfs_run.induct) (auto intro: VfsInit_inv vfs_step_inv)

section \<open>Where a null driver is followed\<close>

lemma ns_root_driver:
  assumes "vfs_wf c" "checkFd c fd" "ns_root (slot c fd)"
  obtains h where "f_type (slot c fd) = VFS_TYPE_DEV" "f_ctx (slot c fd) = DevHandle h" "h_drv h = None"
  | h where "f_type (slot c fd) = VFS_TYPE_NET" "f_ctx (slot c fd) = NetHandle h" "h_drv h = None"
  using check_slot(2)[OF assms(1,2)] assms(3) by (auto simp: ns_root_def fd_ok_def ns_ok_def split: vfs_handle.splits)

lemma keeps_not_None: "keeps E x \<Longrightarrow> x \<noteq> None"
  by (auto simp: keeps_def)

lemma VfsWrite_null:
  assumes "vfs_inv E c"
  shows "VfsWrite E c fd bs = None \<longleftrightarrow> checkFd c fd \<and> ns_root (slot c fd)"
proof
  assume n: "VfsWrite E c fd bs = None"
  then have "checkFd c fd" by (auto simp: VfsWrite_def split: if_splits)
  then show "checkFd c fd \<and> ns_root (slot c fd)" using n VfsWrite_keeps[OF assms] keeps_not_None by blast
next
  assume r: "checkFd c fd \<and> ns_root (slot c fd)"
  show "VfsWrite E c fd bs = None"
    by (rule ns_root_driver[OF flight_proc[OF assms], of fd])
       (use r in \<open>auto simp: VfsWrite_def DevFs_Write_def NetFs_Write_def ret_reply_def TRY_DRV_def\<close>)
qed

lemma VfsStatSet_null:
  assumes "vfs_inv E c"
  shows "VfsStatSet E c fd st = None \<longleftrightarrow> checkFd c fd \<and> ns_root (slot c fd) \<and> f_type (slot c fd) = VFS_TYPE_DEV"
proof
  assume n: "VfsStatSet E c fd st = None"
  then have c: "checkFd c fd" by (auto simp: VfsStatSet_def split: if_splits)
  then have "ns_root (slot c fd)" using n VfsStatSet_keeps[OF assms] keeps_not_None by blast
  then show "checkFd c fd \<and> ns_root (slot c fd) \<and> f_type (slot c fd) = VFS_TYPE_DEV" using n c
    by (rule_tac ns_root_driver[OF flight_proc[OF assms] c]) (auto simp: VfsStatSet_def)
next
  assume r: "checkFd c fd \<and> ns_root (slot c fd) \<and> f_type (slot c fd) = VFS_TYPE_DEV"
  show "VfsStatSet E c fd st = None"
    by (rule ns_root_driver[OF flight_proc[OF assms], of fd]) (use r in \<open>auto simp: VfsStatSet_def DevFs_StatSet_def TRY_DRV_def\<close>)
qed

lemma sock_null_iff:
  fixes x :: "('x \<times> vfs_ctx) option"
  assumes "vfs_inv E c" "\<not> ns_root (slot c fd) \<Longrightarrow> keeps E x" "\<not> checkFd c fd \<or> f_type (slot c fd) \<noteq> VFS_TYPE_NET \<Longrightarrow> x \<noteq> None"
    "\<And>h. checkFd c fd \<Longrightarrow> f_type (slot c fd) = VFS_TYPE_NET \<Longrightarrow> f_ctx (slot c fd) = NetHandle h \<Longrightarrow> h_drv h = None \<Longrightarrow> x = None"
  shows "x = None \<longleftrightarrow> checkFd c fd \<and> ns_root (slot c fd) \<and> f_type (slot c fd) = VFS_TYPE_NET"
proof
  assume "checkFd c fd \<and> ns_root (slot c fd) \<and> f_type (slot c fd) = VFS_TYPE_NET"
  then show "x = None" using assms(4) by (metis ns_root_driver[OF flight_proc[OF assms(1)], of fd] vfs_fd_type.distinct)
qed (use assms(2,3) keeps_not_None in blast)

lemma sock_null:
  assumes "vfs_inv E c"
  shows "VfsSockAccept E c fd fl = None \<longleftrightarrow> checkFd c fd \<and> ns_root (slot c fd) \<and> f_type (slot c fd) = VFS_TYPE_NET"
    "VfsSockRecv E c fd n sf = None \<longleftrightarrow> checkFd c fd \<and> ns_root (slot c fd) \<and> f_type (slot c fd) = VFS_TYPE_NET"
    "VfsSockSend E c fd bs sf = None \<longleftrightarrow> checkFd c fd \<and> ns_root (slot c fd) \<and> f_type (slot c fd) = VFS_TYPE_NET"
    "VfsSockShutdown E c fd sf = None \<longleftrightarrow> checkFd c fd \<and> ns_root (slot c fd) \<and> f_type (slot c fd) = VFS_TYPE_NET"
     apply (rule sock_null_iff[OF assms VfsSockAccept_keeps(2)[OF assms]];
       auto simp: VfsSockAccept_def NetFs_SockAccept_def TRY_DRV_def split: vfs_fd_type.splits)
    apply (rule sock_null_iff[OF assms VfsSockRecv_keeps(2)[OF assms]];
      auto simp: VfsSockRecv_def NetFs_SockRecv_def TRY_DRV_def split: vfs_fd_type.splits)
   apply (rule sock_null_iff[OF assms VfsSockSend_keeps(2)[OF assms]];
     auto simp: VfsSockSend_def NetFs_SockSend_def TRY_DRV_def split: vfs_fd_type.splits)
  apply (rule sock_null_iff[OF assms VfsSockShutdown_keeps(2)[OF assms]];
    auto simp: VfsSockShutdown_def NetFs_SockShutdown_def TRY_DRV_def split: vfs_fd_type.splits)
  done

section \<open>Routing\<close>

text \<open>A mount covers the paths at and below its prefix, component by component.\<close>

definition mount_covers :: "string \<Rightarrow> string \<Rightarrow> bool" where
  "mount_covers p path \<longleftrightarrow> (if p = ''/'' then prefix p path else path = p \<or> prefix (p @ ''/'') path)"

lemma mount_matches_covers:
  assumes "p \<noteq> []" "hd p = CHR ''/''"
  shows "mount_matches p path = mount_covers p path"
proof (cases "length p = 1")
  case True
  then have "p = ''/''" using assms by (cases p) auto
  then show ?thesis using True by (cases path) (auto simp: mount_matches_def mount_covers_def)
next
  case False
  then have n: "p \<noteq> ''/''" by auto
  have "mount_matches p path \<longleftrightarrow> take (length p) path = p \<and> (length path = length p \<or> path ! length p = CHR ''/'')"
    using False by (simp add: mount_matches_def strncmp_eq_0)
  also have "\<dots> \<longleftrightarrow> path = p \<or> prefix (p @ ''/'') path"
  proof (cases "length path \<le> length p")
    case True
    then show ?thesis by (auto simp: prefix_def)
  next
    case False
    then have "take (length p) path @ path ! length p # drop (Suc (length p)) path = path" by (simp add: id_take_nth_drop[symmetric])
    then show ?thesis using False by (auto simp: prefix_def) (metis append_assoc append_Cons append_Nil)+
  qed
  finally show ?thesis using n by (simp add: mount_covers_def)
qed

lemma mount_covers_take: "mount_covers p path \<Longrightarrow> take (length p) path = p"
  by (auto simp: mount_covers_def prefix_def split: if_splits)

text \<open>The loop keeps the longest prefix that mount_covers the path, the first of the longest.\<close>

lemma route_loop_best:
  assumes "route_loop path ms b t d = (b', t', d')"
  shows "(\<forall>m \<in> set ms. mount_matches (mt_prefix m) path \<longrightarrow> length (mt_prefix m) \<le> b') \<and> b \<le> b' \<and>
    ((b', t', d') = (b, t, d) \<or> (\<exists>m \<in> set ms. mount_matches (mt_prefix m) path \<and> length (mt_prefix m) = b' \<and> mt_type m = t' \<and> mt_drv m = d'))"
  using assms
proof (induction path ms b t d rule: route_loop.induct)
  case (2 path m ms b t d)
  then show ?case by (cases "mount_matches (mt_prefix m) path \<and> b < length (mt_prefix m)") (fastforce)+
qed simp

text \<open>What is left of a path below the prefix.\<close>

definition below_mount :: "string \<Rightarrow> string \<Rightarrow> string" where
  "below_mount p path = (let s = drop (length p) path in if s \<noteq> [] \<and> hd s = CHR ''/'' then tl s else s)"

lemma route_wf:
  assumes "vfs_wf c" "path \<noteq> []" "hd path = CHR ''/''"
  shows "\<exists>m \<in> set (v_mounts c). mount_covers (mt_prefix m) path \<and>
    (\<forall>m' \<in> set (v_mounts c). mount_covers (mt_prefix m') path \<and> m' \<noteq> m \<longrightarrow> length (mt_prefix m') < length (mt_prefix m)) \<and>
    routeMatch c path = Inr (mt_type m, mt_drv m, below_mount (mt_prefix m) path)"
proof -
  let ?ms = "v_mounts c"
  have p: "distinct (map mt_prefix ?ms)" "''/'' \<in> mt_prefix ` set ?ms" "\<And>m. m \<in> set ?ms \<Longrightarrow> mt_prefix m \<noteq> [] \<and> hd (mt_prefix m) = CHR ''/''"
    and ty: "\<And>m. m \<in> set ?ms \<Longrightarrow> mount_ok m"
    using assms(1) by (auto simp: vfs_wf_def prefixes_ok_def)
  have mm: "mount_matches (mt_prefix m) path = mount_covers (mt_prefix m) path" if "m \<in> set ?ms" for m
    using mount_matches_covers p(3)[OF that] by blast
  obtain b t d where r: "route_loop path ?ms 0 VFS_TYPE_NONE None = (b, t, d)" by (metis surj_pair)
  note best = route_loop_best[OF r]
  obtain m0 where m0: "m0 \<in> set ?ms" "mt_prefix m0 = ''/''" using p(2) by auto
  have "mount_covers (mt_prefix m0) path" using m0(2) assms(2,3) by (cases path) (auto simp: mount_covers_def)
  then have "b \<ge> 1" using best mm[OF m0(1)] m0 by fastforce
  then obtain m where m: "m \<in> set ?ms" "mount_covers (mt_prefix m) path" "length (mt_prefix m) = b" "mt_type m = t" "mt_drv m = d"
    using best mm by auto
  have "length (mt_prefix m') < length (mt_prefix m)" if "m' \<in> set ?ms" "mount_covers (mt_prefix m') path" "m' \<noteq> m" for m'
  proof -
    have "length (mt_prefix m') \<noteq> b" using mount_covers_take[OF m(2)] mount_covers_take[OF that(2)] m(1,3) that(1,3) p(1)
      by (metis distinct_map inj_on_eq_iff)
    moreover have "length (mt_prefix m') \<le> b" using best mm[OF that(1)] that(1,2) by blast
    ultimately show ?thesis using m(3) by simp
  qed
  moreover have "t \<noteq> VFS_TYPE_NONE" using ty[OF m(1)] m(4) by (auto simp: mount_ok_def)
  then have "routeMatch c path = Inr (mt_type m, mt_drv m, below_mount (mt_prefix m) path)" using r m by (simp add: routeMatch_def below_mount_def Let_def)
  ultimately show ?thesis using m(1,2) by blast
qed

section \<open>Paths that leave the file system\<close>

text \<open>The components of a path.\<close>

fun parts :: "string \<Rightarrow> string list" where
  "parts [] = [[]]"
| "parts (x # xs) = (if x = CHR ''/'' then [] # parts xs else (x # hd (parts xs)) # tl (parts xs))"

definition climbs :: "string \<Rightarrow> bool" where
  "climbs p \<longleftrightarrow> ''..'' \<in> set (parts p)"

text \<open>The paths that a call hands to its driver.\<close>

fun call_paths :: "vcall \<Rightarrow> string list" where
  "call_paths (COpen d p fl) = [p]"
| "call_paths (COpenAt d fd p fl) = [p]"
| "call_paths (COp op d fd (AStr p)) = [p]"
| "call_paths (COp op d fd (ARename p fd' q)) = [p, q]"
| "call_paths (CProc op d p n k) = [p]"
| "call_paths x = []"

definition confined :: "vcall \<Rightarrow> bool" where
  "confined x \<longleftrightarrow> (\<forall>p \<in> set (call_paths x). \<not> climbs p)"

text \<open>What a call adds to the log.\<close>

definition added :: "vfs_ctx \<Rightarrow> vfs_ctx \<Rightarrow> vcall list" where
  "added c c' = map fst (drop (length (v_log c)) (v_log c'))"

definition says :: "vfs_ctx \<Rightarrow> vfs_ctx \<Rightarrow> bool" where
  "says c c' \<longleftrightarrow> (\<exists>xs. v_log c' = v_log c @ xs \<and> (\<forall>x \<in> set xs. confined (fst x)))"

lemma says_added: "says c c' \<Longrightarrow> list_all confined (added c c')"
  by (auto simp: says_def added_def list_all_iff)

lemma says_log: "v_log c' = v_log c \<Longrightarrow> says c c'"
  by (simp add: says_def)

lemma says_refl [simp]: "says c c"
  by (simp add: says_log)

lemma says_set_fd [simp]: "says c (set_fd c' i g) = says c c'"
  by (simp add: says_def)

lemma says_trans: "says c c1 \<Longrightarrow> says c1 c2 \<Longrightarrow> says c c2"
  unfolding says_def by (elim exE conjE, rename_tac xs ys, rule_tac x = "xs @ ys" in exI) auto

lemma says_call: "confined x \<Longrightarrow> says c (snd (drv_call E c x))"
  by (simp add: says_def)

lemma says_TRY:
  assumes "TRY_DRV E c d op x = Some (r, c')" "\<And>i. confined (x i)"
  shows "says c c'"
proof -
  have "drv_call E c (x i) = (r, c') \<Longrightarrow> says c c'" for i using says_call[OF assms(2), of c E i] by simp
  then show ?thesis using assms(1) by (cases d) (auto simp: TRY_DRV_def split: if_splits)
qed

lemma says_opt: "(\<And>i. confined (x i)) \<Longrightarrow> says c (snd (opt_drv E c d op x))"
  by (auto simp: opt_drv_def drv_call_def says_def Let_def split: option.split)

lemma confined_simps [simp]: "confined (CClose d fd)" "confined (COpen d p fl) \<longleftrightarrow> \<not> climbs p" "confined (CProc op d p n k) \<longleftrightarrow> \<not> climbs p"
  "confined (COp op d fd (AStr p)) \<longleftrightarrow> \<not> climbs p" "confined (COp op d fd (ARename p fd' q)) \<longleftrightarrow> \<not> climbs p \<and> \<not> climbs q"
  by (simp_all add: confined_def)

lemma parts_ne [simp]: "parts p \<noteq> []"
  by (cases p) auto

lemma parts_append: "parts (a @ CHR ''/'' # b) = parts a @ parts b"
  by (induction a) auto

lemma climbs_below_sep: "\<not> climbs (a @ CHR ''/'' # b) \<Longrightarrow> \<not> climbs b"
  by (simp add: climbs_def parts_append)

lemma climbs_simps [simp]: "\<not> climbs []" "\<not> climbs ''/''"
  by (simp_all add: climbs_def)

lemma climbs_below:
  assumes "mount_covers p path" "\<not> climbs path"
  shows "\<not> climbs (below_mount p path)"
proof (cases "p = ''/''")
  case True
  then obtain s where s: "path = [] @ CHR ''/'' # s" using assms(1) by (auto simp: mount_covers_def prefix_def)
  have 1: "\<not> climbs s" using climbs_below_sep assms(2) s by blast
  have "\<not> climbs (tl s)" if "s \<noteq> []" "hd s = CHR ''/''" using 1 that climbs_below_sep[of "[]" "tl s"] by (cases s) auto
  then show ?thesis using True 1 s by (auto simp: below_mount_def)
next
  case False
  then consider "path = p" | s where "path = p @ CHR ''/'' # s" using assms(1) by (auto simp: mount_covers_def prefix_def)
  then show ?thesis
  proof cases
    case 2
    then show ?thesis using climbs_below_sep[of p s] assms(2) by (simp add: below_mount_def)
  qed (simp add: below_mount_def)
qed

lemma says_close:
  "TRY_DRV E c d OpClose (\<lambda>i. CClose i n) = Some (r, c') \<Longrightarrow> says c c'"
  "DevFs_Close E c h = Some (r', c') \<Longrightarrow> says c c'"
  "close_handle E c x = Some (r', c') \<Longrightarrow> says c c'"
proof -
  have t: "TRY_DRV E c d OpClose (\<lambda>i. CClose i n) = Some (r, c') \<Longrightarrow> says c c'" for d n r by (erule says_TRY) (simp add: confined_def)
  then show "TRY_DRV E c d OpClose (\<lambda>i. CClose i n) = Some (r, c') \<Longrightarrow> says c c'" .
  have dv: "DevFs_Close E c h = Some (r', c') \<Longrightarrow> says c c'" for h by (auto simp: DevFs_Close_def split: if_splits option.splits intro: t)
  then show "DevFs_Close E c h = Some (r', c') \<Longrightarrow> says c c'" .
  show "close_handle E c x = Some (r', c') \<Longrightarrow> says c c'" by (cases x) (auto simp: close_handle_def NetFs_Close_DevFs intro: dv)
qed

lemma says_node:
  assumes "(case TRY_DRV E c (Some d) OpOpen (\<lambda>i. COpen i p fl) of
      None \<Rightarrow> None
    | Some (r, c1) \<Rightarrow>
        (case r_ret r of
           Inl e \<Rightarrow> Some (Inl e, c1)
         | Inr fd \<Rightarrow>
             if e_alloc E (v_log c1) 0 then Some (Inr \<lparr>h_drv = Some d, h_drv_fd = int fd, h_is_root = False\<rparr>, c1)
             else (case TRY_DRV E c1 (Some d) OpClose (\<lambda>i. CClose i (int fd)) of
                     None \<Rightarrow> None | Some (_, c2) \<Rightarrow> Some (Inl ENOMEM, c2)))) = Some (h, c')" "\<not> climbs p"
  shows "says c c'"
proof -
  have "says c c1" if "TRY_DRV E c (Some d) OpOpen (\<lambda>i. COpen i p fl) = Some (r, c1)" for r c1
    using says_TRY[OF that] assms(2) by simp
  then show ?thesis using assms(1)
    by (auto split: option.splits prod.splits sum.splits if_splits intro: says_trans says_close(1))
qed

lemma devfsResolve_sub:
  assumes "devfsResolve c sfx = (d, Some s)" "\<not> climbs sfx"
  shows "\<not> climbs s"
proof -
  obtain n where n: "n < length sfx" "sfx ! n = CHR ''/''" "s = drop (n + 1) sfx"
    using assms(1) by (auto simp: devfsResolve_def Let_def find_Some_iff split: option.splits)
  then have "sfx = take n sfx @ CHR ''/'' # s" using id_take_nth_drop[of n sfx] by simp
  then show ?thesis using climbs_below_sep assms(2) by metis
qed

lemma DevFs_Open_says:
  assumes "DevFs_Open E c sfx fl = Some (h, c')" "\<not> climbs sfx"
  shows "says c c'"
proof (cases "sfx = []")
  case True
  then show ?thesis using assms(1) by (auto simp: DevFs_Open_def split: if_splits)
next
  case False
  obtain d s where ds: "devfsResolve c sfx = (d, s)" by (metis surj_pair)
  show ?thesis
  proof (cases d)
    case None
    then show ?thesis using assms(1) False ds by (simp add: DevFs_Open_def)
  next
    case (Some i)
    let ?p = "case s of Some p \<Rightarrow> p | None \<Rightarrow> if dr_filetype (e_drv E i) = VFS_FILETYPE_DIRECTORY then ''/'' else []"
    have "\<not> climbs ?p" using devfsResolve_sub[of c sfx d] ds assms(2) by (auto split: option.split)
    then show ?thesis using says_node[where E = E and c = c and d = i and p = ?p and fl = fl and h = h] assms(1) False ds Some by (simp add: DevFs_Open_def Let_def)
  qed
qed

lemma NetFs_Open_says:
  assumes "NetFs_Open E c sfx fl = Some (h, c')"
  shows "says c c'"
proof (cases "sfx = []")
  case True
  then show ?thesis using assms(1) by (auto simp: NetFs_Open_def split: if_splits)
next
  case False
  then show ?thesis using says_node[where E = E and c = c and p = "[]" and fl = fl and h = h] assms(1) by (cases "lookupDrv (v_netfs c) sfx") (simp_all add: NetFs_Open_def)
qed

lemma ProcFs_Open_says:
  assumes "ProcFs_Open E c sfx = (h, c')" "\<not> climbs sfx"
  shows "says c c'"
proof (cases "e_alloc E (v_log c) 0 \<and> sfx \<noteq> []")
  case False
  then show ?thesis using assms(1) by (auto simp: ProcFs_Open_def split: if_splits)
next
  case True
  show ?thesis
  proof (cases "splitFirst sfx")
    case (Inl e)
    then show ?thesis using True assms(1) by (simp add: ProcFs_Open_def)
  next
    case (Inr x)
    obtain seg rest where x: "x = (seg, rest)" by (cases x)
    have r: "\<not> climbs rest" using Inr x climbs_below_sep assms(2)
      by (auto simp: splitFirst_def split: prod.splits option.splits if_splits dest!: strchr_split_Some)
    have k: "drv_call E c (CProcStat d rest) = (r, c1) \<Longrightarrow> says c c1" for d r c1 using says_call[of "CProcStat d rest" c E] r by simp
    show ?thesis using True Inr x assms(1) k
      by (auto simp: ProcFs_Open_def Let_def split: option.splits if_splits prod.splits sum.splits)
  qed
qed

lemma install_says: "install_handle E c ty h fl path = Some (r, c') \<Longrightarrow> says c c'"
  by (auto simp: install_handle_def split: sum.splits option.splits intro: says_close(3))

lemma open_driver_says:
  assumes "open_driver E c drv sfx fl path = Some (r, c')" "\<not> climbs sfx"
  shows "says c c'"
proof (cases drv)
  case None
  then show ?thesis using assms(1) by (simp add: open_driver_def)
next
  case (Some d)
  have k: "says c c1" if "TRY_DRV E c (Some d) OpOpen (\<lambda>i. COpen i p fl) = Some (r1, c1)" "\<not> climbs p" for p r1 c1
    using says_TRY[OF that(1)] that(2) by simp
  have p: "\<not> climbs (if sfx = [] then (if dr_filetype (e_drv E d) = VFS_FILETYPE_DIRECTORY then ''/'' else []) else sfx)"
    using assms(2) by simp
  show ?thesis using assms(1) k[OF _ p] Some
    by (auto simp: open_driver_def Let_def split: option.splits prod.splits sum.splits intro: says_trans says_close(1))
qed

lemma open_tarfs_says: "open_tarfs E c fl path = Some (r, c') \<Longrightarrow> says c c'"
proof -
  have m: "says c (snd (openMountDir c path))" by (auto simp: openMountDir_def split: sum.split)
  show "open_tarfs E c fl path = Some (r, c') \<Longrightarrow> says c c'"
    by (cases "openMountDir c path")
       (use m in \<open>auto simp: open_tarfs_def split: option.splits if_splits intro: install_says\<close>)
qed

lemma route_open_says:
  assumes "vfs_wf c" "route_open E c path fl = Some (r, c')" "\<not> climbs path" "path \<noteq> []" "hd path = CHR ''/''"
  shows "says c c'"
proof -
  obtain ty drv sfx where m: "routeMatch c path = Inr (ty, drv, sfx)" and s: "\<not> climbs sfx"
    using route_wf[OF assms(1,4,5)] climbs_below[OF _ assms(3)] by blast
  show ?thesis using assms(2) m
    by (cases ty) (auto simp: route_open_def split: option.splits prod.splits sum.splits
      intro: says_trans install_says open_tarfs_says open_driver_says[OF _ s] DevFs_Open_says[OF _ s] NetFs_Open_says ProcFs_Open_says[OF _ s])
qed

text \<open>
  What the cwalk library documents of \<open>cwk_path_normalize\<close> on an absolute path: the result is absolute
  and every component \<open>..\<close> is resolved.
\<close>

definition normalises :: "(string \<Rightarrow> string) \<Rightarrow> bool" where
  "normalises f \<longleftrightarrow> (\<forall>s. s \<noteq> [] \<and> hd s = CHR ''/'' \<longrightarrow> f s \<noteq> [] \<and> hd (f s) = CHR ''/'' \<and> \<not> climbs (f s))"

text \<open>The path is absolute, or the directory it starts from has an absolute path or none.\<close>

definition from_root :: "vfs_ctx \<Rightarrow> int \<Rightarrow> string \<Rightarrow> bool" where
  "from_root c fd path \<longleftrightarrow> path \<noteq> [] \<and> hd path = CHR ''/'' \<or> f_path (slot c fd) = [] \<or> hd (f_path (slot c fd)) = CHR ''/''"

lemma resolve_clean:
  assumes "vfsResolvePath E c fd path = Inr p" "normalises (e_norm E)" "from_root c fd path"
  shows "p \<noteq> [] \<and> hd p = CHR ''/'' \<and> \<not> climbs p"
proof -
  let ?s = "if path \<noteq> [] \<and> hd path = CHR ''/'' then Inr path
    else if fd < 0 \<or> fd \<ge> int VFS_MAX_FDS \<or> f_type (slot c fd) = VFS_TYPE_NONE then Inl EBADF
    else let base = f_path (slot c fd) in
      if length base + 1 + length path \<ge> VFS_FD_PATH_LEN * 2 then Inl ENAMETOOLONG
      else Inr ((if base = [] \<or> last base \<noteq> CHR ''/'' then base @ ''/'' else base) @ path)"
  obtain src where s: "?s = Inr src" using assms(1) unfolding vfsResolvePath_def by (cases ?s) auto
  then have p: "p = (if length (e_norm E src) > 1 \<and> last (e_norm E src) = CHR ''/'' then butlast (e_norm E src) else e_norm E src)"
    using assms(1) unfolding vfsResolvePath_def s by (auto simp: Let_def split: if_splits)
  have src: "src \<noteq> []" "hd src = CHR ''/''" using s assms(3) by (auto simp: from_root_def Let_def hd_append split: if_splits)
  let ?o = "e_norm E src"
  have o: "?o \<noteq> []" "hd ?o = CHR ''/''" "\<not> climbs ?o" using assms(2) src by (auto simp: normalises_def)
  show ?thesis
  proof (cases "length ?o > 1 \<and> last ?o = CHR ''/''")
    case True
    then have b: "?o = butlast ?o @ CHR ''/'' # []" by (metis append_butlast_last_id o(1))
    then have "\<not> climbs (butlast ?o)" using o(3) by (metis Un_iff climbs_def parts_append set_append)
    moreover have "butlast ?o \<noteq> []" using True by (cases ?o) auto
    moreover have "hd (butlast ?o) = CHR ''/''" using o(2) b calculation(2) by (metis hd_append2)
    ultimately show ?thesis using True p by simp
  next
    case False
    then show ?thesis using p o by auto
  qed
qed

lemma VfsOpen_says:
  assumes "vfs_wf c" "normalises (e_norm E)" "VfsOpen E c path fl = Some (r, c')"
  shows "says c c'"
proof (cases "path = [] \<or> (\<exists>e. vfsResolvePath E c (-1) path = Inl e)")
  case True
  then show ?thesis using assms(3) by (auto simp: VfsOpen_def split: if_splits)
next
  case False
  then obtain p where p: "vfsResolvePath E c (-1) path = Inr p" by (cases "vfsResolvePath E c (-1) path") auto
  have "from_root c (-1) path" using p by (auto simp: vfsResolvePath_def from_root_def split: if_splits)
  then show ?thesis using route_open_says[OF assms(1), of E p fl r c'] resolve_clean[OF p assms(2)] assms(3) False p
    by (simp add: VfsOpen_def)
qed

lemma VfsOpenAt_says:
  assumes "vfs_wf c" "normalises (e_norm E)" "VfsOpenAt E c fd path fl = Some (r, c')" "from_root c fd path" "\<not> platform_parent c fd path"
  shows "says c c'"
  using assms(3,5) route_open_says[OF assms(1), of E _ fl r c'] resolve_clean[OF _ assms(2,4)]
  by (auto simp: VfsOpenAt_def split: if_splits sum.splits)

lemma path_call_says:
  assumes "vfs_wf c" "normalises (e_norm E)" "path_call E c fd path op x err dev = Some (r, c')" "from_root c fd path"
    "\<not> platform_parent c fd path" "\<And>d n p. x d n p = COp o' d n (AStr p)"
    "\<And>s r c'. dev s = Some (r, c') \<Longrightarrow> \<not> climbs s \<Longrightarrow> says c c'"
  shows "says c c'"
proof (cases "checkFd c fd \<and> (\<exists>p. vfsResolvePath E c fd path = Inr p)")
  case False
  then show ?thesis using assms(3,5) by (cases "vfsResolvePath E c fd path") (auto simp: path_call_def split: if_splits)
next
  case True
  then obtain p where p: "checkFd c fd" "vfsResolvePath E c fd path = Inr p" by auto
  note cl = resolve_clean[OF p(2) assms(2,4)]
  obtain ty drv sfx where m: "routeMatch c p = Inr (ty, drv, sfx)" and s: "\<not> climbs sfx"
    using route_wf[OF assms(1), of p] climbs_below[of _ p] cl by blast
  have k: "says c c1" if "drv_call E c (x d n sfx) = (r1, c1)" for d n r1 c1
    using says_call[of "x d n sfx" c E] that s by (simp add: assms(6))
  show ?thesis using assms(3,5) p m k assms(7)[OF _ s]
    by (cases ty) (auto simp: path_call_def split: option.splits if_splits)
qed

lemma DevFs_UnlinkPath_says:
  assumes "DevFs_UnlinkPath E c s = Some (r, c')" "\<not> climbs s"
  shows "says c c'"
proof -
  obtain d q where ds: "devfsResolve c s = (d, q)" by (metis surj_pair)
  have "\<not> climbs p" if "q = Some p" for p using devfsResolve_sub[of c s d p] ds assms(2) that by simp
  then show ?thesis using assms(1) says_TRY[of E c d OpUnlink "\<lambda>i. CUnlink i (-1) (the q)" r c'] ds
    by (auto simp: DevFs_UnlinkPath_def split: option.splits)
qed

lemma path_calls_say:
  assumes "vfs_wf c" "normalises (e_norm E)" "from_root c fd path" "\<not> platform_parent c fd path"
  shows "VfsUnlink E c fd path = Some (r, c') \<Longrightarrow> says c c'" "VfsMkdir E c fd path = Some (r, c') \<Longrightarrow> says c c'"
    "VfsRmdir E c fd path = Some (r, c') \<Longrightarrow> says c c'"
  unfolding VfsUnlink_def VfsMkdir_def VfsRmdir_def
  by (erule path_call_says[OF assms(1,2) _ assms(3,4)]; auto intro: DevFs_UnlinkPath_says)+

lemma VfsRename_says:
  assumes "vfs_wf c" "normalises (e_norm E)" "VfsRename E c a p b q = Some (r, c')" "from_root c a p" "from_root c b q"
    "\<not> platform_parent c a p"
  shows "says c c'"
proof (cases "checkFd c a \<and> checkFd c b \<and> (\<exists>op np. vfsResolvePath E c a p = Inr op \<and> vfsResolvePath E c b q = Inr np)")
  case False
  then show ?thesis using assms(3,6)
    by (cases "vfsResolvePath E c a p"; cases "vfsResolvePath E c b q") (auto simp: VfsRename_def split: if_splits)
next
  case True
  then obtain op np where res: "checkFd c a" "checkFd c b" "vfsResolvePath E c a p = Inr op" "vfsResolvePath E c b q = Inr np" by auto
  note cl = resolve_clean[OF res(3) assms(2,4)] resolve_clean[OF res(4) assms(2,5)]
  obtain ot od os where om: "routeMatch c op = Inr (ot, od, os)" and os: "\<not> climbs os"
    using route_wf[OF assms(1), of op] climbs_below[of _ op] cl(1) by blast
  obtain nt nd ns where nm: "routeMatch c np = Inr (nt, nd, ns)" and ns: "\<not> climbs ns"
    using route_wf[OF assms(1), of np] climbs_below[of _ np] cl(2) by blast
  have k: "says c c1" if "drv_call E c (CRename d (-1) os (-1) ns) = (r1, c1)" for d r1 c1
    using says_call[of "CRename d (-1) os (-1) ns" c E] that os ns by simp
  show ?thesis using assms(3,6) res om nm k
    by (cases ot) (auto simp: VfsRename_def split: option.splits if_splits)
qed

lemma null_read_seek:
  assumes "vfs_inv E c" "f_type (slot c fd) \<noteq> VFS_TYPE_TARFS"
  shows "VfsRead E c fd n = None \<longleftrightarrow> checkFd c fd \<and> ns_root (slot c fd)"
    "VfsSeek E c fd off w = None \<longleftrightarrow> checkFd c fd \<and> ns_root (slot c fd) \<and> f_type (slot c fd) = VFS_TYPE_DEV"
proof -
  have z: "VfsRead E c fd n = None" "f_type (slot c fd) = VFS_TYPE_DEV \<longleftrightarrow> VfsSeek E c fd off w = None"
    if "checkFd c fd" "ns_root (slot c fd)"
    by (rule ns_root_driver[OF flight_proc[OF assms(1)] that];
        simp add: that VfsRead_def VfsSeek_def DevFs_Read_def NetFs_Read_def DevFs_Seek_def bytes_reply_def pos_reply_def TRY_DRV_def)+
  have n: "VfsRead E c fd n \<noteq> None" "VfsSeek E c fd off w \<noteq> None" if "\<not> ns_root (slot c fd)"
    using VfsRead_keeps(2)[OF assms(1) that assms(2)] VfsSeek_keeps(2)[OF assms(1) that assms(2)] keeps_not_None by blast+
  have f: "VfsRead E c fd n \<noteq> None" "VfsSeek E c fd off w \<noteq> None" if "\<not> checkFd c fd"
    using that by (simp_all add: VfsRead_def VfsSeek_def)
  show "VfsRead E c fd n = None \<longleftrightarrow> checkFd c fd \<and> ns_root (slot c fd)" using z(1) n(1) f(1) by blast
  show "VfsSeek E c fd off w = None \<longleftrightarrow> checkFd c fd \<and> ns_root (slot c fd) \<and> f_type (slot c fd) = VFS_TYPE_DEV" using z(2) n(2) f(2) by blast
qed

section \<open>A small file system\<close>

text \<open>
  An environment in which every driver has every operation and answers with the length of the log, and
  paths are normalised by a stack of components.  The file system has a driver mounted at \<open>/data\<close>, a
  file of it open, and \<open>/dev\<close> open.
\<close>

definition norm_step :: "string \<Rightarrow> string list \<Rightarrow> string list" where
  "norm_step p st = (if p = [] \<or> p = ''.'' then st else if p = ''..'' then butlast st else st @ [p])"

definition demo_norm :: "string \<Rightarrow> string" where
  "demo_norm s = (let st = fold norm_step (parts s) [] in if st = [] then ''/'' else concat (map ((#) CHR ''/'') st))"

definition demo_env :: vfs_env where
  "demo_env = \<lparr>e_drv = \<lambda>_. \<lparr>dr_filetype = 4, dr_has = \<lambda>_. True\<rparr>,
     e_reply = \<lambda>l x. (reply_err EPERM)\<lparr>r_ret := Inr (length l), r_fd := int (length l)\<rparr>,
     e_alloc = \<lambda>_ _. True, e_norm = demo_norm, e_max = 4\<rparr>"

definition demo_mounted :: vfs_ctx where
  "demo_mounted = snd (VfsMountDriver (the (VfsInit True)) ''/data'' 7)"

definition demo_opened :: vfs_ctx where
  "demo_opened = snd (the (VfsOpen demo_env demo_mounted ''/x/../data/a'' VFS_O_RDONLY))"

definition demo_ctx :: vfs_ctx where
  "demo_ctx = snd (the (VfsOpen demo_env demo_opened ''/dev'' VFS_O_RDONLY))"

lemma parts_no_sep: "p \<in> set (parts s) \<Longrightarrow> CHR ''/'' \<notin> set p"
proof (induction s arbitrary: p)
  case (Cons x xs)
  show ?case
  proof (cases "parts xs")
    case (Cons q qs)
    then show ?thesis using Cons.prems Cons.IH by (auto split: if_splits)
  qed simp
qed simp

lemma parts_plain: "CHR ''/'' \<notin> set p \<Longrightarrow> parts p = [p]"
  by (induction p) auto

lemma norm_stack:
  assumes "\<forall>p \<in> set st. p \<in> good \<and> p \<noteq> ''..''" "set ps \<subseteq> good"
  shows "\<forall>p \<in> set (fold norm_step ps st). p \<in> good \<and> p \<noteq> ''..''"
  using assms
proof (induction ps arbitrary: st)
  case (Cons q ps)
  have s: "p \<in> set st \<or> p = q \<and> q \<noteq> d" if "p \<in> set (if A then st else if q = d then butlast st else st @ [q])" for p d A
    using that by (auto split: if_splits dest: in_set_butlastD)
  have "\<forall>p \<in> set (norm_step q st). p \<in> good \<and> p \<noteq> ''..''"
    using s[of _ "q = [] \<or> q = ''.''" "''..''"] Cons.prems unfolding norm_step_def by (metis insert_subset list.set(2))
  moreover have "set ps \<subseteq> good" using Cons.prems(2) by simp
  ultimately show ?case unfolding fold.simps comp_apply by (rule Cons.IH)
qed (simp only: fold.simps id_apply)

lemma parts_concat: "\<forall>p \<in> set st. CHR ''/'' \<notin> set p \<Longrightarrow> st \<noteq> [] \<Longrightarrow> parts (concat (map ((#) CHR ''/'') st)) = [] # st"
proof (induction st)
  case (Cons p st)
  show ?case
  proof (cases "st = []")
    case True
    then show ?thesis using Cons.prems by (simp add: parts_plain)
  next
    case False
    then obtain q where q: "concat (map ((#) CHR ''/'') st) = CHR ''/'' # q" by (cases st) auto
    then have "parts q = st" using Cons False by simp
    then show ?thesis using q parts_append[of p q] Cons.prems by (simp add: parts_plain)
  qed
qed simp

lemma demo_normalises: "normalises demo_norm"
  unfolding normalises_def
proof (intro allI impI)
  fix s :: string
  let ?st = "fold norm_step (parts s) []"
  have st: "\<forall>p \<in> set ?st. CHR ''/'' \<notin> set p \<and> p \<noteq> ''..''"
    using norm_stack[of "[]" "{p. CHR ''/'' \<notin> set p}" "parts s"] parts_no_sep[of _ s] by (simp add: subset_iff)
  show "demo_norm s \<noteq> [] \<and> hd (demo_norm s) = CHR ''/'' \<and> \<not> climbs (demo_norm s)"
  proof (cases "?st = []")
    case False
    then have "parts (demo_norm s) = [] # ?st" using parts_concat[OF _ False] st by (simp add: demo_norm_def)
    then have "\<not> climbs (demo_norm s)" using st by (auto simp: climbs_def)
    then show ?thesis using False by (cases ?st) (auto simp: demo_norm_def)
  qed (simp add: demo_norm_def)
qed

lemma vfs_run_open:
  assumes "vfs_run E c"
  shows "vfs_run E (snd (the (VfsOpen E c p fl)))"
proof -
  obtain r c' where "VfsOpen E c p fl = Some (r, c')" by (rule keepsE[OF VfsOpen_keeps[OF vfs_run_inv[OF assms]]])
  then show ?thesis using vfs_run.step[OF assms vfs_step.open_path] by simp
qed

lemma demo_run: "vfs_run demo_env demo_mounted" "vfs_run demo_env demo_ctx"
proof -
  have "VfsInit True = Some (the (VfsInit True))" by (simp add: VfsInit_def Let_def)
  then show m: "vfs_run demo_env demo_mounted"
    unfolding demo_mounted_def by (rule vfs_run.step[OF vfs_run.start vfs_step.mount])
  show "vfs_run demo_env demo_ctx" unfolding demo_ctx_def demo_opened_def by (intro vfs_run_open m)
qed

lemma demo_closable: "closable demo_env"
  by (simp add: closable_def demo_env_def)

lemma demo_log: "v_log demo_ctx = [(COpen 7 ''a'' VFS_O_RDONLY, (reply_err EPERM)\<lparr>r_ret := Inr 0, r_fd := 0\<rparr>)]"
  by code_simp

lemma demo_table: "table_handles demo_ctx = {#(7, 0)#}"
  by code_simp

lemma demo_fds: "f_type (v_fds demo_ctx ! 4) = VFS_TYPE_DEV" "checkFd demo_ctx 4" "ns_root (slot demo_ctx 4)" "f_type (v_fds demo_ctx ! 3) = VFS_TYPE_DRIVER"
  by code_simp+

section \<open>Properties of every reachable state\<close>

text \<open>
  C19: In every state that a file system reaches, an absolute path is routed to the mount whose prefix is
  the longest that covers it, component by component; there is always one, no other covering prefix is
  as long, and what the handler gets is the path below the prefix.
\<close>

theorem route_longest:
  assumes "vfs_run E c" "path \<noteq> []" "hd path = CHR ''/''"
  shows "\<exists>m \<in> set (v_mounts c). mount_covers (mt_prefix m) path \<and>
    (\<forall>m' \<in> set (v_mounts c). mount_covers (mt_prefix m') path \<and> m' \<noteq> m \<longrightarrow> length (mt_prefix m') < length (mt_prefix m)) \<and>
    routeMatch c path = Inr (mt_type m, mt_drv m, below_mount (mt_prefix m) path)"
  by (rule route_wf[OF flight_proc[OF vfs_run_inv[OF assms(1)]] assms(2,3)])

theorem route_longest_witness:
  "routeMatch demo_ctx ''/data/a/b'' = Inr (VFS_TYPE_DRIVER, Some 7, ''a/b'') \<and>
   (\<exists>m \<in> set (v_mounts demo_ctx). mount_covers (mt_prefix m) ''/data/a/b'' \<and>
     routeMatch demo_ctx ''/data/a/b'' = Inr (mt_type m, mt_drv m, below_mount (mt_prefix m) ''/data/a/b''))"
proof -
  have "routeMatch demo_ctx ''/data/a/b'' = Inr (VFS_TYPE_DRIVER, Some 7, ''a/b'')" by code_simp
  then show ?thesis using route_longest[OF demo_run(2), of "''/data/a/b''"] by auto
qed

text \<open>
  C16: No driver handle is lost or closed twice: in every state that a file system reaches, the handles
  that opens, accepts and bound host directories have produced are those that were closed and those
  that the table of descriptors holds, when every driver has a close.
\<close>

theorem handles_conserved:
  assumes "vfs_run E c" "closable E"
  shows "opened (v_log c) = closed (v_log c) + table_handles c"
  using vfs_run_inv[OF assms(1)] assms(2) by (simp add: flight_def)

theorem handles_conserved_witness:
  "closable demo_env \<and> opened (v_log demo_ctx) = closed (v_log demo_ctx) + {#(7, 0)#}"
  using handles_conserved[OF demo_run(2) demo_closable] demo_closable by (simp add: demo_table)







end
