(* ===== verification/VfsFiles.thy ===== *)
theory VfsFiles
  imports VfsLife TarFsFiles
begin

text \<open>
  Files of the image through the file system: a descriptor that is open on a file answers reads and
  seeks as the image does, \<open>VfsPread\<close> leaves the cursor where it was, and opening the absolute path of
  a file that no mount hides gives such a descriptor.
\<close>

section \<open>Files of the image, through the file system\<close>

text \<open>A descriptor that is open on the file or directory \<open>h\<close> of the image \<open>t\<close>.\<close>

definition tar_slot :: "vfs_ctx \<Rightarrow> int \<Rightarrow> tarfs \<Rightarrow> tarfs_file \<Rightarrow> bool" where
  "tar_slot c fd t h \<longleftrightarrow> checkFd c fd \<and> nat fd < length (v_fds c) \<and> f_type (slot c fd) = VFS_TYPE_TARFS \<and>
     f_ctx (slot c fd) = TarHandle h \<and> v_tarfs c = Some t"

text \<open>A sequence of reads and seeks on a descriptor.\<close>

fun vfs_ops :: "vfs_env \<Rightarrow> vfs_ctx \<Rightarrow> int \<Rightarrow> tar_op list \<Rightarrow> tar_out list option" where
  "vfs_ops E c fd [] = Some []"
| "vfs_ops E c fd (ReadOp n # ops) =
     (case VfsRead E c fd n of
        None \<Rightarrow> None
      | Some (Inl e, c1) \<Rightarrow> map_option ((#) (Failed e)) (vfs_ops E c1 fd ops)
      | Some (Inr bs, c1) \<Rightarrow> map_option ((#) (Bytes bs)) (vfs_ops E c1 fd ops))"
| "vfs_ops E c fd (SeekOp d w # ops) =
     (case VfsSeek E c fd d w of
        None \<Rightarrow> None
      | Some (Inl e, c1) \<Rightarrow> map_option ((#) (Failed e)) (vfs_ops E c1 fd ops)
      | Some (Inr p, c1) \<Rightarrow> map_option ((#) (At p)) (vfs_ops E c1 fd ops))"

abbreviation at_handle :: "vfs_ctx \<Rightarrow> int \<Rightarrow> tarfs_file \<Rightarrow> vfs_ctx" where
  "at_handle c fd h \<equiv> set_fd c (nat fd) (\<lambda>f. f\<lparr>f_ctx := TarHandle h\<rparr>)"

lemma tar_slot_at: "tar_slot c fd t h \<Longrightarrow> tar_slot (at_handle c fd h') fd t h'"
  by (auto simp: tar_slot_def checkFd_def set_fd_nth)

lemma tar_read:
  assumes "tar_slot c fd t h"
  shows "VfsRead E c fd n = (case TarFs_Read t h n of None \<Rightarrow> None | Some (Inl e) \<Rightarrow> Some (Inl e, c)
    | Some (Inr (bs, h1)) \<Rightarrow> Some (Inr bs, at_handle c fd h1))"
  using assms by (simp add: tar_slot_def VfsRead_def Let_def)

lemma tar_seek:
  assumes "tar_slot c fd t h"
  shows "VfsSeek E c fd d w = (case TarFs_Seek h d w of None \<Rightarrow> None | Some (Inl e) \<Rightarrow> Some (Inl e, c)
    | Some (Inr (p, h1)) \<Rightarrow> Some (Inr p, at_handle c fd h1))"
  using assms by (simp add: tar_slot_def VfsSeek_def Let_def)

lemma vfs_ops_tar:
  assumes "tar_slot c fd t h"
  shows "vfs_ops E c fd ops = tar_ops t h ops"
  using assms
proof (induction ops arbitrary: c h)
  case (Cons op ops)
  show ?case
  proof (cases op)
    case (ReadOp n)
    then show ?thesis using Cons.IH[OF Cons.prems] Cons.IH[OF tar_slot_at[OF Cons.prems]]
      by (simp add: tar_read[OF Cons.prems] split: option.split sum.split prod.split)
  next
    case (SeekOp d w)
    then show ?thesis using Cons.IH[OF Cons.prems] Cons.IH[OF tar_slot_at[OF Cons.prems]]
      by (simp add: tar_seek[OF Cons.prems] split: option.split sum.split prod.split)
  qed
qed simp

text \<open>\<open>VfsPread\<close> moves the cursor to the offset, reads, and moves it back.\<close>

lemma at_handle_twice: "at_handle (at_handle c fd h) fd h' = at_handle c fd h'"
  by (cases "nat fd < length (v_fds c)") (simp_all add: set_fd_def list_update_beyond)

lemma at_handle_same:
  assumes "tar_slot c fd t h"
  shows "at_handle c fd h = c"
proof -
  have "(slot c fd)\<lparr>f_ctx := TarHandle h\<rparr> = slot c fd" using assms by (cases "slot c fd") (simp add: tar_slot_def)
  then show ?thesis by (simp add: set_fd_def)
qed

lemma nat_min: "nat (min a b) = min (nat a) (nat b)"
  by (auto simp: min_def)

text \<open>The path of a file of the image, as a wapp names it: absolute, and what the normalisation leaves.\<close>

definition image_path :: "vfs_env \<Rightarrow> vfs_ctx \<Rightarrow> string \<Rightarrow> bool" where
  "image_path E c name \<longleftrightarrow> plain_path name \<and> length name + 1 < VFS_FD_PATH_LEN \<and> e_norm E (CHR ''/'' # name) = CHR ''/'' # name \<and>
     list_all (\<lambda>m. mount_covers (mt_prefix m) (CHR ''/'' # name) \<longrightarrow> mt_prefix m = ''/'') (v_mounts c)"

lemma open_image:
  assumes "vfs_wf c" "findFirstClosedFd c = Inr fd" "image_path E c name" "v_tarfs c = Some t"
    "e_alloc E (v_log c) 0" "e_alloc E (v_log c) 1" "TarFs_Open t True True name VFS_O_RDONLY = Some h"
  shows "\<exists>c'. VfsOpen E c (CHR ''/'' # name) VFS_O_RDONLY = Some (Inr fd, c') \<and> tar_slot c' (int fd) t h"
proof -
  let ?p = "CHR ''/'' # name"
  have n: "name \<noteq> []" "hd name \<noteq> CHR ''/''" "last name \<noteq> CHR ''/''" using assms(3) by (auto simp: image_path_def plain_path_def)
  have res: "vfsResolvePath E c (-1) ?p = Inr ?p"
    using assms(3) n by (simp add: vfsResolvePath_def image_path_def Let_def)
  obtain m where m: "m \<in> set (v_mounts c)" "mount_covers (mt_prefix m) ?p" "routeMatch c ?p = Inr (mt_type m, mt_drv m, below_mount (mt_prefix m) ?p)"
    using route_wf[OF assms(1), of ?p] by auto
  have "mt_prefix m = ''/''" using assms(3) m(1,2) by (auto simp: image_path_def list_all_iff)
  then have ty: "mt_type m = VFS_TYPE_TARFS" using assms(1) m(1) by (auto simp: vfs_wf_def mount_ok_def)
  have "dropWhile (\<lambda>c. c = CHR ''/'') ?p = dropWhile (\<lambda>c. c = CHR ''/'') name" by simp
  then have op: "TarFs_Open t True True ?p VFS_O_RDONLY = Some h" using assms(7) unfolding TarFs_Open_def by (simp only:)
  let ?c = "set_fd c fd (\<lambda>f. f\<lparr>f_type := VFS_TYPE_TARFS, f_ctx := TarHandle h, f_flags := VFS_O_RDONLY,
      f_path := strncpy_buf VFS_FD_PATH_LEN ?p\<rparr>)"
  have "read_only VFS_O_RDONLY" by (simp add: read_only_def VFS_O_RDONLY_def)
  then have "VfsOpen E c ?p VFS_O_RDONLY = Some (Inr fd, ?c)"
    using res m(3) ty assms(2,4,5,6) op by (simp add: VfsOpen_def route_open_def open_tarfs_def install_handle_def)
  moreover have "fd < length (v_fds c)" using findFirstClosedFd_Inr[OF assms(2)] assms(1) by (simp add: vfs_wf_def)
  then have "tar_slot ?c (int fd) t h" using assms(1,4) by (simp add: tar_slot_def checkFd_def set_fd_nth vfs_wf_def)
  ultimately show ?thesis by blast
qed

section \<open>Reading at an offset\<close>

text \<open>
  C22: \<open>VfsPread\<close> on a file of the image returns the bytes of the file from the offset on, none past its
  end, and leaves the whole state of the file system as it was, the cursor of the descriptor included.
\<close>

theorem pread_exact:
  assumes s: "tar_slot c fd t (TarFile k off sz pos)" and b: "off + TAR_BLOCK_SIZE + unat sz \<le> length (t_layers t ! unat k)"
    "unat pos \<le> unat sz" and o: "uint o64 \<le> LONG_MAX"
  shows "VfsPread E c fd n o64 =
    Some (Inr (take (min n INT_MAX) (drop (unat o64) (take (unat sz) (drop (off + TAR_BLOCK_SIZE) (t_layers t ! unat k))))), c)"
proof -
  let ?h = "TarFile k off sz" and ?q = "min (uint o64) (uint sz)"
  have u: "uint pos < 2 ^ 32" "uint sz < 2 ^ 32" using unsigned_less[of pos, where ?'a = int] unsigned_less[of sz, where ?'a = int] by simp_all
  have ps: "uint pos \<le> uint sz" using b(2) unfolding word_le_nat_alt[symmetric] word_le_def .
  have tell: "VfsTell E c fd = Some (Inr (uint pos), c)"
  proof -
    have "TarFs_Seek (?h pos) 0 1 = Some (Inr (uint pos, ?h pos))"
      using ps u by (auto simp: TarFs_Seek_def LONG_MAX_def Let_def)
    then show ?thesis by (simp add: VfsTell_def tar_seek[OF s] at_handle_same[OF s])
  qed
  have "TarFs_Seek (?h pos) (uint o64) 0 = Some (Inr (?q, ?h (of_int ?q)))"
    using o by (auto simp: TarFs_Seek_def Let_def min_def not_less)
  then have at: "positionAt E c fd o64 = Some (Inr (uint pos), at_handle c fd (?h (of_int ?q)))"
    using o tell by (simp add: positionAt_def tar_seek[OF s])
  note s1 = tar_slot_at[OF s, of "?h (of_int ?q)"]
  have q: "unat (of_int ?q :: u32) = min (unat o64) (unat sz)"
  proof -
    have "0 \<le> ?q" "?q < 2 ^ 32" using u by auto
    then have "unat (of_int ?q :: u32) = nat ?q" by (simp add: unat_eq_nat_uint uint_word_of_int_eq take_bit_int_eq_self)
    also have "\<dots> = min (nat (uint o64)) (nat (uint sz))" using nat_min[of "uint o64" "uint sz"] by simp
    finally show ?thesis by simp
  qed
  note rd = tar_ops_refines[OF b(1), of "of_int ?q" "[ReadOp n]"]
  obtain bs h1 where r: "TarFs_Read t (?h (of_int ?q)) n = Some (Inr (bs, h1))"
    "bs = take (min n INT_MAX) (drop (min (unat o64) (unat sz)) (take (unat sz) (drop (off + TAR_BLOCK_SIZE) (t_layers t ! unat k))))"
    using rd q by (auto simp: small_seek_def Let_def split: option.splits sum.splits)
  have p1: "\<exists>p'. h1 = ?h p'" using r(1) by (auto simp: TarFs_Read_def Let_def split: if_splits)
  then obtain p' where p': "h1 = ?h p'" by auto
  note s2 = tar_slot_at[OF s, of h1]
  have "TarFs_Seek h1 (uint pos) 0 = Some (Inr (uint pos, ?h pos))"
    using ps u p' by (auto simp: TarFs_Seek_def Let_def LONG_MAX_def)
  then have "VfsSeek E (at_handle c fd h1) fd (uint pos) 0 = Some (Inr (uint pos), c)"
    by (simp add: tar_seek[OF s2] at_handle_twice at_handle_same[OF s])
  moreover have "drop (min (unat o64) (unat sz)) (take (unat sz) xs) = drop (unat o64) (take (unat sz) xs)" for xs :: "byte list"
    by (simp add: min_def)
  ultimately show ?thesis using at r by (simp add: VfsPread_def tar_read[OF s1] at_handle_twice)
qed

definition demo_image :: vfs_ctx where
  "demo_image = VfsAttachTarfs demo_mounted (Some demo_tar)"

lemma demo_image_run: "vfs_run demo_env demo_image"
  unfolding demo_image_def by (rule vfs_run.step[OF demo_run(1) vfs_step.attach])

lemma demo_image_path: "image_path demo_env demo_mounted ''d/b''"
  by code_simp

lemma demo_image_open: "\<exists>c'. VfsOpen demo_env demo_image ''/d/b'' VFS_O_RDONLY = Some (Inr 3, c') \<and> tar_slot c' 3 demo_tar (TarFile 1 512 5 0)"
proof -
  have "findFirstClosedFd demo_mounted = Inr 3" by code_simp
  then have "findFirstClosedFd demo_image = Inr 3" by (simp add: demo_image_def VfsAttachTarfs_def findFirstClosedFd_def)
  moreover have "image_path demo_env demo_image ''d/b''" using demo_image_path by (simp add: demo_image_def VfsAttachTarfs_def image_path_def)
  moreover have "e_alloc demo_env l i" for l i by (simp add: demo_env_def)
  ultimately show ?thesis
    using open_image[OF flight_proc[OF vfs_run_inv[OF demo_image_run]], of 3 demo_env "''d/b''" demo_tar] demo_open
    by (simp add: demo_image_def VfsAttachTarfs_def)
qed

theorem pread_exact_witness:
  "\<exists>c'. VfsOpen demo_env demo_image ''/d/b'' VFS_O_RDONLY = Some (Inr 3, c') \<and>
    VfsPread demo_env c' 3 9 1 = Some (Inr [0x65, 0x6c, 0x6c, 0x6f], c')"
proof -
  obtain c' where c': "VfsOpen demo_env demo_image ''/d/b'' VFS_O_RDONLY = Some (Inr 3, c')" "tar_slot c' 3 demo_tar (TarFile 1 512 5 0)"
    using demo_image_open by blast
  have l: "t_layers demo_tar = demo_layers" using c_qsort.TarFsInit_spec[OF isort.c_qsort_axioms demo_init] by simp
  have "length (take 5 (drop (512 + TAR_BLOCK_SIZE) (demo_layers ! 1))) = 5" unfolding demo_content by simp
  then have b: "512 + TAR_BLOCK_SIZE + unat (5 :: u32) \<le> length (t_layers demo_tar ! unat (1 :: 16 word))" unfolding l by auto
  have "uint (1 :: u64) \<le> LONG_MAX" by (simp add: LONG_MAX_def)
  from pread_exact[OF c'(2) b _ this, of demo_env 9] demo_content(1) show ?thesis using c'(1) l by (simp add: INT_MAX_def)
qed

end
