(* ===== verification/Spec2Isabelle.thy ===== *)
theory Spec2Isabelle
  imports Pipe LogStore RtcChip RegistrySafe TarFsDirs VfsFiles
begin

text \<open>
  Verification of the WANTED engine, a runtime that loads WebAssembly applications (wapps) from layered
  tar images and gives each of them a file system of its own.  Paths below are those of the repository.

  \<^bold>\<open>The parts and how they meet.\<close>  The registry (\<open>src/registry.c\<close>) keeps the installed images: records
  of layers by digest, the layers as blobs in one or two stores (\<open>platform/include/registry-store.h\<close>),
  staged uploads and mapped images.  A loaded image is a list of mapped layers, which the image
  filesystem (\<open>src/vfs/vfs-tarfs.c\<close>) indexes into one tree.  The router (\<open>src/vfs/vfs.c\<close>) gives a wapp
  that tree at \<open>/\<close>, the namespaces \<open>/dev\<close>, \<open>/net\<close> and \<open>/proc\<close> (\<open>src/vfs/vfs-devfs.c\<close>, \<open>vfs-netfs.c\<close>,
  \<open>vfs-procfs.c\<close>) and driver mounts, all behind one table of descriptors.  Named pipes
  (\<open>src/vfs/vfs-pipe.c\<close>) and the log store (\<open>src/log-store.c\<close>) are shared by all wapps, and the clock
  chips (\<open>src/rtc/\<close>) give the engine the time.

  \<^bold>\<open>Conventions.\<close>  A C struct is a record, an enum a datatype, a fixed array a list, a pointer into a
  table its index, a C string the characters before its NUL, an integer whose width matters a word.
  An operation returns \<open>errno + 'a\<close> and the new state.  \<open>None\<close> is behaviour that C leaves undefined, a
  null driver that is followed, or a loop that does not return; theorems that an operation returns
  exclude it.  Allocators, clocks, drivers, the platform's digest and the libraries that are not in the
  tree are arguments: oracles, record fields or locale parameters.

  \<^bold>\<open>Theories.\<close>
  \<^item> \<open>CBase\<close>: error numbers, \<open>strncmp\<close>, \<open>strncpy\<close>, \<open>memcpy\<close>, searches over tables, shared rewrite rules.
    \<open>RingBuffer\<close>: wrapped copies in a ring and the locale \<open>bounded_fifo\<close>.  \<open>VfsDir\<close>: constants of
    \<open>src/include/vfs.h\<close> and \<open>VfsFlatDirReadDir\<close>.
  \<^item> \<open>Pipe\<close> (\<open>vfs-pipe.c\<close>): the pipe store, driver calls, consoles and the wait loop.  Handles stay bound
    to their slot in every reachable state, the stream is first-in first-out, poll agrees with read and
    write, and the blocking calls return once the clock passes the deadline.
  \<^item> \<open>LogStore\<close> (\<open>log-store.c\<close>): a log is the tail of what was written, through eviction, windowed reads
    and a reset; the locale \<open>tail_log\<close> is its interface.
  \<^item> \<open>RtcTime\<close>, \<open>RtcChip\<close> (\<open>rtc-time.c\<close>, \<open>pcf8563.c\<close>, \<open>pcf85063.c\<close>, \<open>rtc-chip.c\<close>): calendar conversion
    and register encoding are inverse to each other, and the time file accepts what it should.
  \<^item> \<open>RegistryRecord\<close> (\<open>registry-record.c\<close>): the codec of the records.  \<open>RegistryStore\<close>: the store interface
    as the locale \<open>registry_store\<close>.  \<open>RegistryMem\<close> (\<open>registry-mem.c\<close>): the in-memory store, which
    interprets it.  \<open>Registry\<close>: the operations of \<open>registry.c\<close>.  \<open>RegistryInv\<close>: the invariant, in the
    locale \<open>registry_core\<close> over any store.  \<open>RegistrySafe\<close>: no entry loses its layers, mapped images stay
    intact, and what install, commit, load, resolve, remove and the listings do.
  \<^item> \<open>Sha256\<close> (\<open>platform/posix/sha256.c\<close>): streaming gives the digest of the padded message.
  \<^item> \<open>TarFs\<close> (\<open>vfs-tarfs.c\<close>): the scan of tar headers, the index, open, read, seek, stat and readdir.
    \<open>TarFsIndex\<close>: the index is the overlay of the layers.  \<open>TarFsArchive\<close>: a writer of ustar archives, the
    specification of what an archive holds.  \<open>TarFsLoad\<close>: loading returns.  \<open>TarFsFiles\<close>: what opens,
    boots and reads.  \<open>TarFsDirs\<close>: listings.  The library's \<open>qsort\<close> is the locale \<open>c_qsort\<close>.
  \<^item> \<open>VfsNames\<close> (\<open>vfs-devfs.c\<close>, \<open>vfs-netfs.c\<close>, \<open>vfs-procfs.c\<close>, \<open>vfs-internal.h\<close>), \<open>Vfs\<close> (\<open>vfs.c\<close>): the
    state of a file system and every call on it.  Drivers answer from the log of the calls made so far.
    \<open>VfsInv\<close>: well-formed tables and the account of driver handles.  \<open>VfsOps\<close>: every operation keeps
    them.  \<open>VfsTeardown\<close>: \<open>VfsDestroy\<close>.  \<open>VfsLife\<close>: the steps of a file system, routing, confined paths,
    and where a null driver is followed.  \<open>VfsFiles\<close>: files of the image through descriptors.
  \<^item> This theory: an archive read back through the system calls.

  \<^bold>\<open>Bounds and fuel.\<close>  Loops are structural recursions or functions with a measure, but three.  The wait
  of a blocking pipe call takes its waits and clock readings as an argument list, which is long enough
  when one of them is past the deadline.  The update loop of SHA-256 is a partial function, proved to
  return on every input.  The loop over PAX records is a partial function whose length fields can wrap;
  it returns when no run of digits is longer than 18.  The sequence of calls that lists a directory is
  bounded by fuel, and more than the number of index entries is enough.  Tar images hold at most 32768
  entries in the theorems that need it, since the capacity of the index wraps beyond.

  \<^bold>\<open>Not modelled.\<close>  The WebAssembly runtime, the JSON parser, the decompressor, the 9P protocol and the
  path library are submodules that are not in the tree; the WASI calls (\<open>src/wasi/\<close>), the wapp manager
  (\<open>src/wanted.c\<close>), \<open>vfs-inflate.c\<close> and \<open>vfs-9p.c\<close> are wrappers of them.  Of the path library the
  router uses one function, a field of the environment.  Device drivers and platform ports are
  calls to hardware and host systems; the router sees drivers as the environment.  The page and file
  stores are other providers of the store interface, and that they keep its contract is not proved.
  Null arguments of the public calls and concurrent access are left out: each public call is one step,
  as the locks of the sources make it, and a wapp's file system belongs to one thread.
\<close>

section \<open>An archive, from the writer to a wapp\<close>



end
